(* ===== verification/Prelude.thy ===== *)
theory Prelude
  imports Main "HOL-Library.Word"
begin

text \<open>
  Shared vocabulary of the development: the names of Rust's integer types, time,
  saturating and wrapping arithmetic on \<open>usize\<close>, panics as values, the decimal
  printing that the code's \<open>format!\<close> calls use, and the generic lemmas on lists that
  more than one component needs.

  Conventions. \<open>u8\<close>, \<open>u16\<close>, \<open>u32\<close> and \<open>u64\<close> are words of that
  width. A \<open>usize\<close> that only counts elements of a collection is a \<open>nat\<close>; where the
  code saturates or wraps, the bound \<open>USIZE_MAX\<close> of a 64-bit target is written out.
  An \<open>Instant\<close> and a \<open>Duration\<close> are a number of nanoseconds, so that
  \<open>now.duration_since(earlier)\<close> is the truncated difference of naturals, which is what
  the standard library documents (it saturates to zero).
\<close>

section \<open>Collections of facts\<close>

named_theorems table_simps \<open>lookup equations of the hash tables\<close>
named_theorems time_simps \<open>definitions of the time constants\<close>
named_theorems invar_intros \<open>preservation of the well-formedness invariants\<close>

section \<open>Machine integers\<close>

type_synonym u8 = "8 word"
type_synonym u16 = "16 word"
type_synonym u32 = "32 word"
type_synonym u64 = "64 word"
type_synonym byte = "8 word"

definition USIZE_MAX :: nat where
  "USIZE_MAX = 2 ^ 64 - 1"

definition saturating_add :: "nat \<Rightarrow> nat \<Rightarrow> nat" where
  "saturating_add a b = min (a + b) USIZE_MAX"

definition saturating_sub :: "nat \<Rightarrow> nat \<Rightarrow> nat" where
  "saturating_sub a b = a - b"

definition wrapping_add :: "nat \<Rightarrow> nat \<Rightarrow> nat" where
  "wrapping_add a b = (a + b) mod (USIZE_MAX + 1)"

lemma USIZE_MAX_Suc: "USIZE_MAX + 1 = 2 ^ 64"
  by (simp add: USIZE_MAX_def)

lemma saturating_add_exact: "a + b \<le> USIZE_MAX \<Longrightarrow> saturating_add a b = a + b"
  by (simp add: saturating_add_def)

lemma saturating_add_le: "saturating_add a b \<le> USIZE_MAX"
  by (simp add: saturating_add_def)

lemma wrapping_add_exact: "a + b \<le> USIZE_MAX \<Longrightarrow> wrapping_add a b = a + b"
  by (simp add: wrapping_add_def)

section \<open>Time\<close>

type_synonym duration = nat
type_synonym instant = nat

definition NANOS_PER_SEC :: nat where [time_simps]: "NANOS_PER_SEC = 1000000000"
definition NANOS_PER_MILLI :: nat where [time_simps]: "NANOS_PER_MILLI = 1000000"
definition NANOS_PER_MICRO :: nat where [time_simps]: "NANOS_PER_MICRO = 1000"

definition from_secs :: "nat \<Rightarrow> duration" where [time_simps]: "from_secs s = s * NANOS_PER_SEC"
definition from_millis :: "nat \<Rightarrow> duration" where [time_simps]: "from_millis m = m * NANOS_PER_MILLI"
definition as_millis :: "duration \<Rightarrow> nat" where [time_simps]: "as_millis d = d div NANOS_PER_MILLI"
definition as_micros :: "duration \<Rightarrow> nat" where [time_simps]: "as_micros d = d div NANOS_PER_MICRO"
definition as_secs :: "duration \<Rightarrow> nat" where [time_simps]: "as_secs d = d div NANOS_PER_SEC"

definition duration_since :: "instant \<Rightarrow> instant \<Rightarrow> duration" where
  [time_simps]: "duration_since now earlier = now - earlier"

lemma from_secs_mono: "a \<le> b \<Longrightarrow> from_secs a \<le> from_secs b"
  by (simp add: time_simps)

lemma as_millis_from_millis [simp]: "as_millis (from_millis m) = m"
  by (simp add: time_simps)

section \<open>Panics\<close>

text \<open>An operation of the standard library or of a container that may panic returns an outcome.\<close>

datatype 'a outcome = Returns 'a | Panics

fun returns :: "'a outcome \<Rightarrow> bool" where
  "returns (Returns x) = True"
| "returns Panics = False"

section \<open>Decimal printing\<close>

text \<open>The digits that Rust's \<open>Display\<close> prints for an unsigned integer.\<close>

fun show_nat :: "nat \<Rightarrow> string" where
  "show_nat n = (if n < 10 then [char_of (48 + n)] else show_nat (n div 10) @ [char_of (48 + n mod 10)])"

declare show_nat.simps [simp del]

definition digit_value :: "char \<Rightarrow> nat" where
  "digit_value c = of_char c - 48"

definition read_nat :: "string \<Rightarrow> nat" where
  "read_nat s = foldl (\<lambda>n c. n * 10 + digit_value c) 0 s"

lemma digit_value_char_of [simp]: "d < 10 \<Longrightarrow> digit_value (char_of (48 + d)) = d"
  by (simp add: digit_value_def)

lemma read_show_nat [simp]: "read_nat (show_nat n) = n"
proof (induction n rule: show_nat.induct)
  case (1 n)
  show ?case
  proof (cases "n < 10")
    case True
    then show ?thesis by (subst show_nat.simps) (simp add: read_nat_def)
  next
    case False
    with "1.IH" have "foldl (\<lambda>n c. n * 10 + digit_value c) 0 (show_nat (n div 10)) = n div 10"
      by (simp add: read_nat_def)
    with False show ?thesis
      by (subst show_nat.simps) (simp add: read_nat_def)
  qed
qed

lemma show_nat_inject [simp]: "show_nat m = show_nat n \<longleftrightarrow> m = n"
  using read_show_nat by metis

lemma show_nat_not_Nil [simp]: "show_nat n \<noteq> []"
  by (subst show_nat.simps) simp

section \<open>Indices and lists\<close>

lemma mod_less_of_less: "k < n \<Longrightarrow> m mod n < n" for k m n :: nat
  by simp

lemma unat_u8_less: "unat (x :: u8) < 256"
  using unsigned_less [of x] by simp

lemma div_span:
  fixes t d I :: nat
  assumes "0 < I"
  shows "d div I \<le> (t + d) div I - t div I" and "(t + d) div I - t div I \<le> d div I + 1"
proof -
  have eq: "(t + d) div I = t div I + d div I + (t mod I + d mod I) div I" by (rule div_add1_eq)
  have "t mod I + d mod I < 2 * I"
    using mod_less_divisor [OF assms, of t] mod_less_divisor [OF assms, of d] by linarith
  then have "(t mod I + d mod I) div I < 2" using assms by (simp add: div_less_iff_less_mult)
  with eq show "d div I \<le> (t + d) div I - t div I" and "(t + d) div I - t div I \<le> d div I + 1" by simp_all
qed

lemma and_15_nat: "Bit_Operations.and n 15 = n mod 16" for n :: nat
proof -
  have "mask 4 = (15 :: nat)" by (simp add: mask_eq_exp_minus_1)
  then have "Bit_Operations.and n 15 = take_bit 4 n" by (metis take_bit_eq_mask)
  then show ?thesis by (simp add: take_bit_eq_mod)
qed

lemma nth_list_update_if:
  "xs[i := x] ! j = (if i = j \<and> i < length xs then x else xs ! j)"
  by (cases "i < length xs") (auto simp: list_update_beyond)

lemma map_of_filter_distinct:
  "distinct (map fst m) \<Longrightarrow>
   map_of (filter P m) k = (case map_of m k of None \<Rightarrow> None | Some v \<Rightarrow> if P (k, v) then Some v else None)"
proof (induction m)
  case Nil
  then show ?case by simp
next
  case (Cons kv m)
  obtain k' v' where kv: "kv = (k', v')" by force
  have "k' \<notin> fst ` set (filter P m)" using Cons.prems kv by auto
  then have "map_of (filter P m) k' = None" by (simp add: map_of_eq_None_iff)
  with Cons kv show ?case by (auto split: option.splits)
qed

lemma distinct_map_fst_filter: "distinct (map fst m) \<Longrightarrow> distinct (map fst (filter P m))"
  by (induction m) auto

lemma sum_list_filter_split:
  "sum_list (map f (filter P xs)) + sum_list (map f (filter (\<lambda>x. \<not> P x) xs)) = sum_list (map f (xs :: 'a list))"
  for f :: "'a \<Rightarrow> nat"
  by (induction xs) auto

end
