(* ===== verification/Dedup.thy ===== *)
theory Dedup
  imports Prelude
begin

text \<open>
  Message deduplication (\<open>src/dedup.rs\<close>): the time wheel \<open>Dedup\<close> and its sharded
  version \<open>ConcurrentDedup\<close>. A bucket is a \<open>HashSet<u64>\<close>, here the list of its
  hashes; the hash function \<open>ahash_hash\<close> of the \<open>ahash\<close> crate is the parameter
  \<open>ahash\<close> of the operations that take a payload. The \<open>Mutex\<close> around each shard makes
  every call one atomic step on that shard; a rotation of all shards is one step too, as a check
  touches a single shard and cannot tell when the others are rotated.

  The interface \<open>dedup_filter\<close> states what both versions promise in terms of the age of
  a hash: the number of rotations since it was recorded. Its clients' lemmas describe runs
  of checks and rotations, and both versions are interpretations of it.
\<close>

section \<open>The time wheel\<close>

record dedup =
  dedup_period :: duration
  buckets :: "u64 list list"
  current_bucket :: nat
  bucket_interval :: duration
  num_buckets :: nat

definition is_zero :: "duration \<Rightarrow> bool" where
  "is_zero d \<longleftrightarrow> d = 0"

definition usize_try_from_or_max :: "nat \<Rightarrow> nat" where
  "usize_try_from_or_max n = (if n \<le> USIZE_MAX then n else USIZE_MAX)"

definition dedup_new :: "duration \<Rightarrow> dedup" where
  "dedup_new period =
     (if is_zero period
      then \<lparr>dedup_period = period, buckets = [], current_bucket = 0, bucket_interval = 0, num_buckets = 0\<rparr>
      else let interval = from_millis 100;
               n = max (usize_try_from_or_max (as_millis period div as_millis interval)) 2
           in \<lparr>dedup_period = period, buckets = replicate n [], current_bucket = 0,
               bucket_interval = interval, num_buckets = n\<rparr>)"

text \<open>
  \<open>Vec::with_capacity(num_buckets)\<close> panics when the buckets take more than \<open>isize::MAX\<close> bytes. A
  bucket takes 64: four words of the hash table and the four of its \<open>RandomState\<close>. The theorems on the wheel
  are about periods for which \<open>new\<close> returns; the start-up checks it.
\<close>

definition BUCKET_BYTES :: nat where
  "BUCKET_BYTES = 64"

definition wheel_fits :: "duration \<Rightarrow> bool" where
  "wheel_fits period \<longleftrightarrow> num_buckets (dedup_new period) * BUCKET_BYTES \<le> 2 ^ 63 - 1"

definition rotation_interval :: "dedup \<Rightarrow> duration" where
  "rotation_interval d = bucket_interval d"

definition any_bucket_contains :: "u64 \<Rightarrow> dedup \<Rightarrow> bool" where
  "any_bucket_contains h d \<longleftrightarrow> (\<exists>b \<in> set (buckets d). h \<in> set b)"

text \<open>\<open>get_mut(current_bucket)\<close> is \<open>None\<close> out of range, and then nothing is inserted.\<close>

definition insert_hash :: "u64 \<Rightarrow> dedup \<Rightarrow> dedup" where
  "insert_hash h d =
     (if current_bucket d < length (buckets d)
      then d\<lparr>buckets := (buckets d)[current_bucket d := List.insert h (buckets d ! current_bucket d)]\<rparr>
      else d)"

definition is_duplicate :: "(byte list \<Rightarrow> u64) \<Rightarrow> byte list \<Rightarrow> dedup \<Rightarrow> bool" where
  "is_duplicate ahash payload d =
     (if is_zero (dedup_period d) then False else any_bucket_contains (ahash payload) d)"

definition dedup_insert :: "(byte list \<Rightarrow> u64) \<Rightarrow> byte list \<Rightarrow> dedup \<Rightarrow> dedup" where
  "dedup_insert ahash payload d =
     (if is_zero (dedup_period d) then d else insert_hash (ahash payload) d)"

definition check_and_insert_with_hash :: "u64 \<Rightarrow> dedup \<Rightarrow> bool \<times> dedup" where
  "check_and_insert_with_hash h d =
     (if is_zero (dedup_period d) then (False, d)
      else if any_bucket_contains h d then (True, d)
      else (False, insert_hash h d))"

definition check_and_insert :: "(byte list \<Rightarrow> u64) \<Rightarrow> byte list \<Rightarrow> dedup \<Rightarrow> bool \<times> dedup" where
  "check_and_insert ahash payload d =
     (if is_zero (dedup_period d) then (False, d)
      else let h = ahash payload in
        if any_bucket_contains h d then (True, d)
        else (False, insert_hash h d))"

definition rotate_bucket :: "dedup \<Rightarrow> dedup" where
  "rotate_bucket d =
     (if is_zero (dedup_period d) then d
      else let next = wrapping_add (current_bucket d) 1 mod num_buckets d in
        d\<lparr>current_bucket := next, buckets := (buckets d)[next := []]\<rparr>)"

lemma check_and_insert_hash:
  "check_and_insert ahash payload d = check_and_insert_with_hash (ahash payload) d"
  by (simp add: check_and_insert_def check_and_insert_with_hash_def Let_def)

section \<open>Sharding\<close>

definition NUM_SHARDS :: nat where
  "NUM_SHARDS = 16"

record concurrent_dedup =
  shards :: "dedup list"
  cd_dedup_period :: duration
  cd_bucket_interval :: duration

definition concurrent_dedup_new :: "duration \<Rightarrow> concurrent_dedup" where
  "concurrent_dedup_new period =
     \<lparr>shards = map (\<lambda>_. dedup_new period) [0..<NUM_SHARDS], cd_dedup_period = period,
      cd_bucket_interval = (if is_zero period then 0 else from_millis 100)\<rparr>"

definition cd_rotation_interval :: "concurrent_dedup \<Rightarrow> duration" where
  "cd_rotation_interval cd = cd_bucket_interval cd"

definition dedup_shard_idx :: "u64 \<Rightarrow> nat" where
  "dedup_shard_idx h = Bit_Operations.and (unat h) (NUM_SHARDS - 1)"

definition cd_check_hash :: "u64 \<Rightarrow> concurrent_dedup \<Rightarrow> bool \<times> concurrent_dedup" where
  "cd_check_hash h cd =
     (if is_zero (cd_dedup_period cd) then (False, cd)
      else let i = dedup_shard_idx h;
               (dup, shard) = check_and_insert_with_hash h (shards cd ! i)
           in (dup, cd\<lparr>shards := (shards cd)[i := shard]\<rparr>))"

definition cd_check_and_insert ::
    "(byte list \<Rightarrow> u64) \<Rightarrow> byte list \<Rightarrow> concurrent_dedup \<Rightarrow> bool \<times> concurrent_dedup" where
  "cd_check_and_insert ahash payload cd = cd_check_hash (ahash payload) cd"

definition rotate_buckets :: "concurrent_dedup \<Rightarrow> concurrent_dedup" where
  "rotate_buckets cd =
     (if is_zero (cd_dedup_period cd) then cd
      else cd\<lparr>shards := map rotate_bucket (shards cd)\<rparr>)"

section \<open>Shape of the wheel\<close>

definition wheel_shape :: "dedup \<Rightarrow> bool" where
  "wheel_shape d \<longleftrightarrow>
     num_buckets d = length (buckets d) \<and>
     (if is_zero (dedup_period d) then num_buckets d = 0
      else 2 \<le> num_buckets d \<and> num_buckets d \<le> USIZE_MAX \<and> current_bucket d < num_buckets d)"

text \<open>The bucket that was current \<open>a\<close> rotations ago.\<close>

definition bucket_aged :: "dedup \<Rightarrow> nat \<Rightarrow> u64 list" where
  "bucket_aged d a = buckets d ! ((current_bucket d + num_buckets d - a) mod num_buckets d)"

text \<open>
  The wheel is well formed when it is switched on, has its shape, and keeps every hash in
  one bucket only.
\<close>

definition wheel_ok :: "dedup \<Rightarrow> bool" where
  "wheel_ok d \<longleftrightarrow> wheel_shape d \<and> \<not> is_zero (dedup_period d) \<and>
     (\<forall>i < num_buckets d. \<forall>j < num_buckets d. i \<noteq> j \<longrightarrow> set (buckets d ! i) \<inter> set (buckets d ! j) = {})"

definition hash_age :: "dedup \<Rightarrow> u64 \<Rightarrow> nat option" where
  "hash_age d h = find (\<lambda>a. h \<in> set (bucket_aged d a)) [0..<num_buckets d]"

lemma as_millis_100: "as_millis (from_millis 100) = 100"
  by simp

lemma num_buckets_new:
  "\<not> is_zero p \<Longrightarrow> num_buckets (dedup_new p) = max (usize_try_from_or_max (as_millis p div 100)) 2"
  by (simp add: dedup_new_def Let_def)

lemma wheel_shape_new: "wheel_shape (dedup_new p)"
  by (auto simp: wheel_shape_def dedup_new_def Let_def usize_try_from_or_max_def USIZE_MAX_def max_def)

lemma insert_hash_fields [simp]:
  "dedup_period (insert_hash h d) = dedup_period d"
  "num_buckets (insert_hash h d) = num_buckets d"
  "current_bucket (insert_hash h d) = current_bucket d"
  "length (buckets (insert_hash h d)) = length (buckets d)"
  by (simp_all add: insert_hash_def)

lemma rotate_bucket_fields [simp]:
  "dedup_period (rotate_bucket d) = dedup_period d"
  "num_buckets (rotate_bucket d) = num_buckets d"
  "length (buckets (rotate_bucket d)) = length (buckets d)"
  by (simp_all add: rotate_bucket_def Let_def)

lemma wheel_shape_insert_hash [invar_intros]: "wheel_shape d \<Longrightarrow> wheel_shape (insert_hash h d)"
  unfolding wheel_shape_def insert_hash_fields .

lemma wheel_shape_check [invar_intros]:
  "wheel_shape d \<Longrightarrow> wheel_shape (snd (check_and_insert_with_hash h d))"
  by (simp add: check_and_insert_with_hash_def wheel_shape_insert_hash)

lemma rotate_current:
  assumes "wheel_shape d" "\<not> is_zero (dedup_period d)"
  shows "current_bucket (rotate_bucket d) = Suc (current_bucket d) mod num_buckets d"
    "buckets (rotate_bucket d) = (buckets d)[Suc (current_bucket d) mod num_buckets d := []]"
proof -
  from assms have "current_bucket d + 1 \<le> USIZE_MAX" by (simp add: wheel_shape_def)
  then have "wrapping_add (current_bucket d) 1 = Suc (current_bucket d)"
    by (simp add: wrapping_add_exact)
  with assms(2) show "current_bucket (rotate_bucket d) = Suc (current_bucket d) mod num_buckets d"
    "buckets (rotate_bucket d) = (buckets d)[Suc (current_bucket d) mod num_buckets d := []]"
    by (simp_all add: rotate_bucket_def Let_def)
qed

lemma rotate_disabled: "is_zero (dedup_period d) \<Longrightarrow> rotate_bucket d = d"
  by (simp add: rotate_bucket_def)

lemma wheel_shape_rotate [invar_intros]: "wheel_shape d \<Longrightarrow> wheel_shape (rotate_bucket d)"
  by (cases "is_zero (dedup_period d)")
    (auto simp: rotate_disabled wheel_shape_def rotate_current intro: mod_less_of_less)

section \<open>Ages\<close>

lemma aged_index:
  "c < n \<Longrightarrow> a < n \<Longrightarrow> (c + n - a) mod n = (if a \<le> c then c - a else c + n - a)" for c n a :: nat
proof (cases "a \<le> c")
  case True
  assume "c < n"
  from True have "(c + n - a) mod n = (c - a + n) mod n" by simp
  also have "\<dots> = c - a" using \<open>c < n\<close> by simp
  finally show ?thesis using True by simp
qed simp

lemma aged_index_next:
  fixes c n a :: nat
  assumes "c < n" "Suc a < n"
  shows "(Suc c mod n + n - Suc a) mod n = (c + n - a) mod n"
    and "(Suc c mod n + n - Suc a) mod n \<noteq> Suc c mod n"
proof -
  have "Suc c mod n = (if Suc c = n then 0 else Suc c)" using assms(1) by auto
  with assms show "(Suc c mod n + n - Suc a) mod n = (c + n - a) mod n"
    and "(Suc c mod n + n - Suc a) mod n \<noteq> Suc c mod n"
    by (auto simp: aged_index split: if_splits)
qed

lemma bucket_is_aged:
  assumes "wheel_ok d" "i < num_buckets d"
  obtains a where "a < num_buckets d" "bucket_aged d a = buckets d ! i"
proof
  let ?c = "current_bucket d" and ?n = "num_buckets d"
  have c: "?c < ?n" using assms(1) by (auto simp: wheel_ok_def wheel_shape_def)
  let ?a = "(?c + ?n - i) mod ?n"
  show "?a < ?n" using assms(2) by simp
  show "bucket_aged d ?a = buckets d ! i"
    using c assms(2) by (auto simp: bucket_aged_def aged_index)
qed

lemma bucket_aged_inj:
  assumes "wheel_ok d" "a < num_buckets d" "b < num_buckets d"
    "h \<in> set (bucket_aged d a)" "h \<in> set (bucket_aged d b)"
  shows "a = b"
proof (rule ccontr)
  let ?c = "current_bucket d" and ?n = "num_buckets d"
  have c: "?c < ?n" using assms(1) by (auto simp: wheel_ok_def wheel_shape_def)
  assume "a \<noteq> b"
  then have "(?c + ?n - a) mod ?n \<noteq> (?c + ?n - b) mod ?n"
    using c assms(2,3) by (auto simp: aged_index split: if_splits)
  moreover have "(?c + ?n - a) mod ?n < ?n" "(?c + ?n - b) mod ?n < ?n" using c by simp_all
  ultimately show False
    using assms(1,4,5) unfolding wheel_ok_def bucket_aged_def by blast
qed

lemma hash_age_Some:
  assumes "wheel_ok d"
  shows "hash_age d h = Some a \<longleftrightarrow> a < num_buckets d \<and> h \<in> set (bucket_aged d a)"
proof
  assume "hash_age d h = Some a"
  then show "a < num_buckets d \<and> h \<in> set (bucket_aged d a)"
    by (auto simp: hash_age_def find_Some_iff)
next
  assume a: "a < num_buckets d \<and> h \<in> set (bucket_aged d a)"
  then obtain b where b: "hash_age d h = Some b"
    by (cases "hash_age d h") (auto simp: hash_age_def find_None_iff)
  then have "b < num_buckets d \<and> h \<in> set (bucket_aged d b)"
    by (auto simp: hash_age_def find_Some_iff)
  with a assms b show "hash_age d h = Some a" using bucket_aged_inj by metis
qed

lemma hash_age_None:
  assumes "wheel_ok d"
  shows "hash_age d h = None \<longleftrightarrow> \<not> any_bucket_contains h d"
proof -
  have n: "num_buckets d = length (buckets d)" "current_bucket d < num_buckets d"
    using assms by (auto simp: wheel_ok_def wheel_shape_def)
  have "(\<exists>a < num_buckets d. h \<in> set (bucket_aged d a)) \<longleftrightarrow> any_bucket_contains h d"
  proof
    assume "\<exists>a < num_buckets d. h \<in> set (bucket_aged d a)"
    then show "any_bucket_contains h d"
      using n by (auto simp: bucket_aged_def any_bucket_contains_def intro!: bexI [OF _ nth_mem]
        intro: mod_less_of_less)
  next
    assume "any_bucket_contains h d"
    then obtain i where "i < num_buckets d" "h \<in> set (buckets d ! i)"
      using n unfolding any_bucket_contains_def by (metis in_set_conv_nth)
    then show "\<exists>a < num_buckets d. h \<in> set (bucket_aged d a)"
      using assms by (metis bucket_is_aged)
  qed
  then show ?thesis by (auto simp: hash_age_def find_None_iff)
qed

text \<open>How the two operations change the ages.\<close>

lemma bucket_aged_rotate:
  assumes "wheel_ok d" "a < num_buckets d"
  shows "bucket_aged (rotate_bucket d) a = (case a of 0 \<Rightarrow> [] | Suc b \<Rightarrow> bucket_aged d b)"
proof -
  have c: "current_bucket d < num_buckets d" "num_buckets d = length (buckets d)"
    and r: "current_bucket (rotate_bucket d) = Suc (current_bucket d) mod num_buckets d"
      "buckets (rotate_bucket d) = (buckets d)[Suc (current_bucket d) mod num_buckets d := []]"
    using assms by (auto simp: wheel_ok_def wheel_shape_def rotate_current)
  show ?thesis
  proof (cases a)
    case 0
    have "Suc (current_bucket d) mod num_buckets d < length (buckets d)"
      using c by (metis mod_less_of_less)
    with 0 r show ?thesis by (simp add: bucket_aged_def)
  next
    case (Suc b)
    with assms(2) have "Suc b < num_buckets d" by simp
    from aged_index_next [OF c(1) this] Suc r show ?thesis by (simp add: bucket_aged_def)
  qed
qed

lemma wheel_ok_rotate [invar_intros]: "wheel_ok d \<Longrightarrow> wheel_ok (rotate_bucket d)"
  unfolding wheel_ok_def
  by (auto simp: rotate_current wheel_shape_rotate nth_list_update_if split: if_splits)

lemma hash_age_rotate:
  assumes "wheel_ok d"
  shows "hash_age (rotate_bucket d) h =
    (case hash_age d h of None \<Rightarrow> None | Some a \<Rightarrow> if Suc a < num_buckets d then Some (Suc a) else None)"
proof -
  have iff: "hash_age (rotate_bucket d) h = Some a \<longleftrightarrow>
      (\<exists>b. a = Suc b \<and> Suc b < num_buckets d \<and> hash_age d h = Some b)" for a
    using assms wheel_ok_rotate [OF assms]
    by (cases a) (auto simp: hash_age_Some bucket_aged_rotate)
  show ?thesis
  proof (cases "hash_age (rotate_bucket d) h")
    case None
    then have "\<not> (\<exists>b. Suc b < num_buckets d \<and> hash_age d h = Some b)"
      using iff by (metis option.distinct(1))
    with None show ?thesis by (auto split: option.splits)
  next
    case (Some a)
    with iff [of a] show ?thesis by auto
  qed
qed

lemma hash_age_insert:
  assumes "wheel_ok d" "hash_age d h = None"
  shows "wheel_ok (insert_hash h d)" "hash_age (insert_hash h d) = (hash_age d)(h \<mapsto> 0)"
proof -
  let ?c = "current_bucket d" and ?n = "num_buckets d"
  have c: "?c < ?n" "?n = length (buckets d)" using assms(1) by (auto simp: wheel_ok_def wheel_shape_def)
  have b: "buckets (insert_hash h d) = (buckets d)[?c := List.insert h (buckets d ! ?c)]"
    using c by (simp add: insert_hash_def)
  have fresh: "h \<notin> set (buckets d ! i)" if "i < ?n" for i
    using that assms c(2) by (auto simp: hash_age_None any_bucket_contains_def)
  show ok: "wheel_ok (insert_hash h d)"
    using assms(1) fresh c unfolding wheel_ok_def
    by (auto simp: b wheel_shape_insert_hash nth_list_update_if split: if_splits)
  have fresh_aged: "h \<notin> set (bucket_aged d a)" if "a < ?n" for a
    using fresh c(1) unfolding bucket_aged_def by (metis mod_less_of_less)
  have aged: "set (bucket_aged (insert_hash h d) a) =
      (if a = 0 then insert h (set (bucket_aged d 0)) else set (bucket_aged d a))" if "a < ?n" for a
    using c that by (auto simp: bucket_aged_def b aged_index)
  have "hash_age (insert_hash h d) h' = Some a \<longleftrightarrow> ((hash_age d)(h \<mapsto> 0)) h' = Some a" for h' a
  proof (cases "a < ?n")
    case True
    then show ?thesis
      using fresh_aged [OF True] c(1) by (auto simp: hash_age_Some [OF ok] hash_age_Some [OF assms(1)] aged)
  next
    case False
    then show ?thesis
      using c(1) by (auto simp: hash_age_Some [OF ok] hash_age_Some [OF assms(1)])
  qed
  then show "hash_age (insert_hash h d) = (hash_age d)(h \<mapsto> 0)"
    by (metis ext not_Some_eq)
qed

section \<open>The interface: what a deduplicator promises\<close>

datatype 'h dedup_op = Check 'h | Rotate

fun run_ops :: "('h \<Rightarrow> 'd \<Rightarrow> bool \<times> 'd) \<Rightarrow> ('d \<Rightarrow> 'd) \<Rightarrow> 'h dedup_op list \<Rightarrow> 'd \<Rightarrow> bool list \<times> 'd" where
  "run_ops check rot [] d = ([], d)"
| "run_ops check rot (Check h # ops) d =
     (let (r, d') = check h d; (rs, d'') = run_ops check rot ops d' in (r # rs, d''))"
| "run_ops check rot (Rotate # ops) d = run_ops check rot ops (rot d)"

text \<open>
  The specification: a partial map from hashes to ages. A check reports whether the hash
  has an age and gives a new hash the age 0; it does not refresh a known one. A rotation
  makes every hash one older and forgets those that reach the window.
\<close>

definition age_check :: "'h \<Rightarrow> ('h \<Rightarrow> nat option) \<Rightarrow> bool \<times> ('h \<Rightarrow> nat option)" where
  "age_check h m = (case m h of None \<Rightarrow> (False, m(h \<mapsto> 0)) | Some _ \<Rightarrow> (True, m))"

definition age_rotate :: "nat \<Rightarrow> ('h \<Rightarrow> nat option) \<Rightarrow> ('h \<Rightarrow> nat option)" where
  "age_rotate w m = (\<lambda>h. case m h of None \<Rightarrow> None | Some a \<Rightarrow> if Suc a < w then Some (Suc a) else None)"

definition rotations :: "'h dedup_op list \<Rightarrow> nat" where
  "rotations ops = length (filter (\<lambda>x. x = Rotate) ops)"

lemma rotations_simps [simp]:
  "rotations [] = 0" "rotations (Check h # ops) = rotations ops" "rotations (Rotate # ops) = Suc (rotations ops)"
  "rotations (xs @ ys) = rotations xs + rotations ys"
  by (simp_all add: rotations_def)

locale dedup_filter =
  fixes check :: "'h \<Rightarrow> 'd \<Rightarrow> bool \<times> 'd"
    and rot :: "'d \<Rightarrow> 'd"
    and age :: "'d \<Rightarrow> 'h \<Rightarrow> nat option"
    and invar :: "'d \<Rightarrow> bool"
    and window :: "'d \<Rightarrow> nat"
  assumes check_age: "invar d \<Longrightarrow> (fst (check h d), age (snd (check h d))) = age_check h (age d)"
    and rotate_age: "invar d \<Longrightarrow> age (rot d) = age_rotate (window d) (age d)"
    and invar_check: "invar d \<Longrightarrow> invar (snd (check h d))"
    and invar_rotate: "invar d \<Longrightarrow> invar (rot d)"
    and window_check: "invar d \<Longrightarrow> window (snd (check h d)) = window d"
    and window_rotate: "invar d \<Longrightarrow> window (rot d) = window d"
begin

lemma run_refines:
  assumes "invar d"
  shows "fst (run_ops check rot ops d) = fst (run_ops age_check (age_rotate (window d)) ops (age d))
    \<and> age (snd (run_ops check rot ops d)) = snd (run_ops age_check (age_rotate (window d)) ops (age d))
    \<and> invar (snd (run_ops check rot ops d)) \<and> window (snd (run_ops check rot ops d)) = window d"
  using assms
proof (induction ops arbitrary: d)
  case Nil
  then show ?case by simp
next
  case (Cons op ops)
  show ?case
  proof (cases op)
    case (Check h)
    obtain r d' where c: "check h d = (r, d')" by force
    with check_age [OF Cons.prems, of h] have "age_check h (age d) = (r, age d')" by simp
    moreover have "invar d'" "window d' = window d"
      using invar_check [OF Cons.prems, of h] window_check [OF Cons.prems, of h] c by simp_all
    ultimately show ?thesis
      using Cons.IH [of d'] Check c by (auto simp: split_beta)
  next
    case Rotate
    with Cons.IH [of "rot d"] Cons.prems show ?thesis
      by (simp add: invar_rotate window_rotate rotate_age)
  qed
qed

lemmas run_results = run_refines [THEN conjunct1]
  and run_age = run_refines [THEN conjunct2, THEN conjunct1]
  and run_invar = run_refines [THEN conjunct2, THEN conjunct2, THEN conjunct1]

text \<open>A recorded hash stays known, with its exact age, while it is younger than the window.\<close>

lemma run_remembers:
  assumes "invar d" "age d h = Some a" "a + rotations ops < window d"
  shows "age (snd (run_ops check rot ops d)) h = Some (a + rotations ops)"
  using assms
proof (induction ops arbitrary: d a)
  case Nil
  then show ?case by simp
next
  case (Cons op ops)
  show ?case
  proof (cases op)
    case (Check h')
    obtain r d' where c: "check h' d = (r, d')" by force
    with check_age [OF Cons.prems(1), of h'] Cons.prems(2) have "age d' h = Some a"
      by (auto simp: age_check_def split: option.splits)
    moreover have "invar d'" "window d' = window d"
      using invar_check [OF Cons.prems(1), of h'] window_check [OF Cons.prems(1), of h'] c by simp_all
    ultimately show ?thesis
      using Cons.IH [of d' a] Cons.prems(3) Check c by (auto simp: split_beta)
  next
    case Rotate
    from Cons.prems have "age (rot d) h = Some (Suc a)"
      using Rotate by (simp add: rotate_age age_rotate_def)
    with Cons.IH [of "rot d" "Suc a"] Cons.prems Rotate show ?thesis
      by (simp add: invar_rotate window_rotate)
  qed
qed

text \<open>Without a check of the hash itself, it is forgotten once the window has passed.\<close>

lemma run_stays_unknown:
  assumes "invar d" "age d h = None" "Check h \<notin> set ops"
  shows "age (snd (run_ops check rot ops d)) h = None"
  using assms
proof (induction ops arbitrary: d)
  case Nil
  then show ?case by simp
next
  case (Cons op ops)
  show ?case
  proof (cases op)
    case (Check h')
    obtain r d' where c: "check h' d = (r, d')" by force
    with check_age [OF Cons.prems(1), of h'] Cons.prems Check have "age d' h = None"
      by (auto simp: age_check_def split: option.splits)
    moreover have "invar d'" using invar_check [OF Cons.prems(1), of h'] c by simp
    ultimately show ?thesis using Cons.IH [of d'] Cons.prems Check c by (auto simp: split_beta)
  next
    case Rotate
    with Cons.prems Cons.IH [of "rot d"] show ?thesis
      by (simp add: rotate_age age_rotate_def invar_rotate)
  qed
qed

lemma run_forgets:
  assumes "invar d" "age d h = Some a" "Check h \<notin> set ops" "window d \<le> a + rotations ops" "a < window d"
  shows "age (snd (run_ops check rot ops d)) h = None"
  using assms
proof (induction ops arbitrary: d a)
  case Nil
  then show ?case by simp
next
  case (Cons op ops)
  show ?case
  proof (cases op)
    case (Check h')
    obtain r d' where c: "check h' d = (r, d')" by force
    with check_age [OF Cons.prems(1), of h'] Cons.prems(2) have "age d' h = Some a"
      by (auto simp: age_check_def split: option.splits)
    moreover have "invar d'" "window d' = window d"
      using invar_check [OF Cons.prems(1), of h'] window_check [OF Cons.prems(1), of h'] c by simp_all
    ultimately show ?thesis
      using Cons.IH [of d' a] Cons.prems(3-) Check c by (auto simp: split_beta)
  next
    case Rotate
    show ?thesis
    proof (cases "Suc a < window d")
      case True
      with Rotate Cons.prems Cons.IH [of "rot d" "Suc a"] show ?thesis
        by (simp add: rotate_age age_rotate_def invar_rotate window_rotate)
    next
      case False
      with Rotate Cons.prems have "age (rot d) h = None"
        by (simp add: rotate_age age_rotate_def)
      with Rotate Cons.prems run_stays_unknown [of "rot d" h ops] show ?thesis
        by (simp add: invar_rotate)
    qed
  qed
qed

end

section \<open>Both versions keep the promise\<close>

lemma wheel_check:
  assumes "wheel_ok d"
  shows "(fst (check_and_insert_with_hash h d), hash_age (snd (check_and_insert_with_hash h d)))
      = age_check h (hash_age d)"
    and "wheel_ok (snd (check_and_insert_with_hash h d))"
proof -
  have "\<not> is_zero (dedup_period d)" using assms by (simp add: wheel_ok_def)
  then show "(fst (check_and_insert_with_hash h d), hash_age (snd (check_and_insert_with_hash h d)))
      = age_check h (hash_age d)" "wheel_ok (snd (check_and_insert_with_hash h d))"
    using assms hash_age_None [OF assms, of h] hash_age_insert [OF assms, of h]
    by (auto simp: check_and_insert_with_hash_def age_check_def split: option.splits)
qed

lemma check_and_insert_with_hash_fields [simp]:
  "num_buckets (snd (check_and_insert_with_hash h d)) = num_buckets d"
  "dedup_period (snd (check_and_insert_with_hash h d)) = dedup_period d"
  by (simp_all add: check_and_insert_with_hash_def)

interpretation wheel: dedup_filter check_and_insert_with_hash rotate_bucket hash_age wheel_ok num_buckets
  by unfold_locales
    (auto simp: wheel_check wheel_ok_rotate hash_age_rotate age_rotate_def fun_eq_iff)

lemma wheel_ok_new:
  assumes "\<not> is_zero p"
  shows "wheel_ok (dedup_new p)" "hash_age (dedup_new p) = (\<lambda>_. None)"
proof -
  from assms wheel_shape_new [of p] show "wheel_ok (dedup_new p)"
    by (auto simp: wheel_ok_def dedup_new_def Let_def)
  then show "hash_age (dedup_new p) = (\<lambda>_. None)"
    using assms by (intro ext) (auto simp: hash_age_None any_bucket_contains_def dedup_new_def Let_def)
qed

definition cd_age :: "concurrent_dedup \<Rightarrow> u64 \<Rightarrow> nat option" where
  "cd_age cd h = hash_age (shards cd ! dedup_shard_idx h) h"

definition cd_window :: "concurrent_dedup \<Rightarrow> nat" where
  "cd_window cd = num_buckets (shards cd ! 0)"

definition cd_ok :: "concurrent_dedup \<Rightarrow> bool" where
  "cd_ok cd \<longleftrightarrow> length (shards cd) = NUM_SHARDS \<and> \<not> is_zero (cd_dedup_period cd) \<and>
     (\<forall>i < NUM_SHARDS. wheel_ok (shards cd ! i) \<and> num_buckets (shards cd ! i) = cd_window cd)"

lemma dedup_shard_idx_mod: "dedup_shard_idx h = unat h mod 16"
  by (simp add: dedup_shard_idx_def NUM_SHARDS_def and_15_nat)

lemma dedup_shard_idx_less: "dedup_shard_idx h < NUM_SHARDS"
  by (simp add: dedup_shard_idx_mod NUM_SHARDS_def)

lemma cd_check_hash_eq:
  assumes "cd_ok cd"
  shows "fst (cd_check_hash h cd) = fst (check_and_insert_with_hash h (shards cd ! dedup_shard_idx h))"
    and "snd (cd_check_hash h cd) = cd\<lparr>shards := (shards cd)[dedup_shard_idx h :=
      snd (check_and_insert_with_hash h (shards cd ! dedup_shard_idx h))]\<rparr>"
  using assms by (simp_all add: cd_check_hash_def cd_ok_def Let_def split_beta)

lemma cd_check:
  assumes "cd_ok cd"
  shows "(fst (cd_check_hash h cd), cd_age (snd (cd_check_hash h cd))) = age_check h (cd_age cd)"
    and "cd_ok (snd (cd_check_hash h cd))" "cd_window (snd (cd_check_hash h cd)) = cd_window cd"
proof -
  let ?i = "dedup_shard_idx h"
  let ?s = "shards cd ! ?i"
  have len: "length (shards cd) = NUM_SHARDS" and ok: "wheel_ok ?s"
    using assms dedup_shard_idx_less [of h] by (auto simp: cd_ok_def)
  note chk = wheel_check [OF ok, of h]
  have nth: "shards (snd (cd_check_hash h cd)) ! j =
      (if j = ?i then snd (check_and_insert_with_hash h ?s) else shards cd ! j)" for j
    using dedup_shard_idx_less [of h] len by (auto simp: cd_check_hash_eq [OF assms] nth_list_update_if)
  have "cd_age (snd (cd_check_hash h cd)) = snd (age_check h (cd_age cd))"
  proof
    fix h'
    show "cd_age (snd (cd_check_hash h cd)) h' = snd (age_check h (cd_age cd)) h'"
      using chk(1) by (auto simp: cd_age_def nth age_check_def split: option.splits)
  qed
  moreover have "fst (cd_check_hash h cd) = fst (age_check h (cd_age cd))"
    using chk(1) by (auto simp: cd_check_hash_eq [OF assms] cd_age_def age_check_def split: option.splits)
  ultimately show "(fst (cd_check_hash h cd), cd_age (snd (cd_check_hash h cd))) = age_check h (cd_age cd)"
    by (simp add: prod_eq_iff)
  show w: "cd_window (snd (cd_check_hash h cd)) = cd_window cd"
    by (simp add: cd_window_def nth)
  show "cd_ok (snd (cd_check_hash h cd))"
    using assms chk(2) w nth unfolding cd_ok_def by (simp add: cd_check_hash_eq [OF assms])
qed

lemma cd_rotate:
  assumes "cd_ok cd"
  shows "cd_age (rotate_buckets cd) = age_rotate (cd_window cd) (cd_age cd)"
    and "cd_ok (rotate_buckets cd)" "cd_window (rotate_buckets cd) = cd_window cd"
proof -
  have nth: "shards (rotate_buckets cd) ! j = rotate_bucket (shards cd ! j)" if "j < NUM_SHARDS" for j
    using assms that by (simp add: rotate_buckets_def cd_ok_def)
  show w: "cd_window (rotate_buckets cd) = cd_window cd"
    by (simp add: cd_window_def nth NUM_SHARDS_def)
  show "cd_ok (rotate_buckets cd)"
    using assms nth w unfolding cd_ok_def by (simp add: rotate_buckets_def wheel_ok_rotate)
  show "cd_age (rotate_buckets cd) = age_rotate (cd_window cd) (cd_age cd)"
  proof
    fix h
    show "cd_age (rotate_buckets cd) h = age_rotate (cd_window cd) (cd_age cd) h"
      using assms dedup_shard_idx_less [of h]
      by (auto simp: cd_age_def nth cd_ok_def hash_age_rotate age_rotate_def split: option.splits)
  qed
qed

interpretation sharded: dedup_filter cd_check_hash rotate_buckets cd_age cd_ok cd_window
  by unfold_locales (simp_all add: cd_check cd_rotate)

lemma cd_ok_new:
  assumes "\<not> is_zero p"
  shows "cd_ok (concurrent_dedup_new p)" "cd_age (concurrent_dedup_new p) = (\<lambda>_. None)"
    "cd_window (concurrent_dedup_new p) = num_buckets (dedup_new p)"
  using wheel_ok_new [OF assms] assms dedup_shard_idx_less
  by (auto simp: cd_ok_def cd_age_def cd_window_def concurrent_dedup_new_def NUM_SHARDS_def fun_eq_iff
      simp del: upt_Suc)

section \<open>Runs on payloads\<close>

lemma run_ops_payload:
  "run_ops (\<lambda>p. chk (ahash p)) rot ops d = run_ops chk rot (map (map_dedup_op ahash) ops) d"
proof (induction ops arbitrary: d)
  case (Cons op ops)
  then show ?case by (cases op) (auto simp: split_beta)
qed simp

lemma Check_in_map: "Check h \<in> set (map (map_dedup_op f) ops) \<longleftrightarrow> (\<exists>q. Check q \<in> set ops \<and> f q = h)"
proof -
  have "map_dedup_op f op = Check h \<longleftrightarrow> (\<exists>q. op = Check q \<and> f q = h)" for op
    by (cases op) auto
  then show ?thesis by (simp only: set_map image_iff) metis
qed

lemma rotations_map [simp]: "rotations (map (map_dedup_op f) ops) = rotations ops"
proof (induction ops)
  case (Cons op ops)
  then show ?case by (cases op) auto
qed simp

lemma run_disabled:
  assumes "\<And>h d. invar d \<Longrightarrow> chk h d = (False, d)" "\<And>d. invar d \<Longrightarrow> rot d = d" "invar d"
  shows "run_ops chk rot ops d = (replicate (length (filter (\<lambda>x. x \<noteq> Rotate) ops)) False, d)"
proof (induction ops)
  case (Cons op ops)
  then show ?case by (cases op) (auto simp: assms)
qed simp

section \<open>Properties\<close>

abbreviation run_single :: "(byte list \<Rightarrow> u64) \<Rightarrow> byte list dedup_op list \<Rightarrow> dedup \<Rightarrow> bool list \<times> dedup" where
  "run_single ahash \<equiv> run_ops (check_and_insert ahash) rotate_bucket"

abbreviation run_concurrent ::
    "(byte list \<Rightarrow> u64) \<Rightarrow> byte list dedup_op list \<Rightarrow> concurrent_dedup \<Rightarrow> bool list \<times> concurrent_dedup" where
  "run_concurrent ahash \<equiv> run_ops (cd_check_and_insert ahash) rotate_buckets"

lemma run_single_hashes:
  "run_single ahash ops d = run_ops check_and_insert_with_hash rotate_bucket (map (map_dedup_op ahash) ops) d"
  using run_ops_payload [of check_and_insert_with_hash ahash rotate_bucket ops d]
  by (simp add: check_and_insert_hash [abs_def])

lemma run_concurrent_hashes:
  "run_concurrent ahash ops cd = run_ops cd_check_hash rotate_buckets (map (map_dedup_op ahash) ops) cd"
  using run_ops_payload [of cd_check_hash ahash rotate_buckets ops cd]
  by (simp add: cd_check_and_insert_def [abs_def])

text \<open>
  C8. Sharding is unobservable: on every sequence of checks and rotations, the concurrent
  deduplicator answers exactly as the single time wheel of the same period does, for every
  hash function and also when deduplication is switched off.
\<close>

theorem concurrent_equals_single:
  "fst (run_concurrent ahash ops (concurrent_dedup_new p)) = fst (run_single ahash ops (dedup_new p))"
proof (cases "is_zero p")
  case True
  have "run_ops cd_check_hash rotate_buckets os (concurrent_dedup_new p)
      = (replicate (length (filter (\<lambda>x. x \<noteq> Rotate) os)) False, concurrent_dedup_new p)" for os
    by (rule run_disabled [where invar = "\<lambda>d. d = concurrent_dedup_new p"])
      (use True in \<open>auto simp: cd_check_hash_def rotate_buckets_def concurrent_dedup_new_def\<close>)
  moreover have "run_ops check_and_insert_with_hash rotate_bucket os (dedup_new p)
      = (replicate (length (filter (\<lambda>x. x \<noteq> Rotate) os)) False, dedup_new p)" for os
    by (rule run_disabled [where invar = "\<lambda>d. d = dedup_new p"])
      (use True in \<open>auto simp: check_and_insert_with_hash_def rotate_bucket_def dedup_new_def\<close>)
  ultimately show ?thesis by (simp add: run_single_hashes run_concurrent_hashes)
next
  case False
  then show ?thesis
    by (simp add: run_single_hashes run_concurrent_hashes sharded.run_results wheel.run_results
        cd_ok_new wheel_ok_new)
qed

lemma window_exact:
  assumes "\<not> is_zero p"
    and "d = snd (run_single ahash before (dedup_new p))"
    and "(known, d') = check_and_insert ahash payload d"
    and "\<forall>q. Check q \<in> set between \<longrightarrow> ahash q \<noteq> ahash payload"
    and "d'' = snd (run_single ahash between d')"
  shows "fst (check_and_insert ahash payload d'') \<longleftrightarrow>
    (case hash_age d (ahash payload) of None \<Rightarrow> 0 | Some a \<Rightarrow> a) + rotations between
      < max (usize_try_from_or_max (as_millis p div 100)) 2"
proof -
  let ?h = "ahash payload" and ?ops = "map (map_dedup_op ahash) between"
  let ?a = "case hash_age d ?h of None \<Rightarrow> 0 | Some a \<Rightarrow> a"
  note new = wheel_ok_new [OF assms(1)]
  have ok: "wheel_ok d" "num_buckets d = num_buckets (dedup_new p)"
    using wheel.run_refines [OF new(1)] assms(2) by (simp_all add: run_single_hashes)
  have w: "num_buckets d = max (usize_try_from_or_max (as_millis p div 100)) 2"
    using ok(2) assms(1) by (simp add: num_buckets_new)
  have d': "d' = snd (check_and_insert_with_hash ?h d)"
    using assms(3) by (metis check_and_insert_hash snd_conv)
  have ok': "wheel_ok d'" "num_buckets d' = num_buckets d" using ok d' by (simp_all add: wheel_check)
  have "hash_age d' = snd (age_check ?h (hash_age d))" using wheel_check(1) [OF ok(1)] d' by (metis snd_conv)
  then have age: "hash_age d' ?h = Some ?a"
    by (auto simp: age_check_def split: option.splits)
  have lt: "?a < num_buckets d"
    using w by (auto simp: hash_age_Some [OF ok(1)] split: option.splits)
  have notin: "Check ?h \<notin> set ?ops"
    using assms(4) by (simp only: Check_in_map) blast
  have d'': "d'' = snd (run_ops check_and_insert_with_hash rotate_bucket ?ops d')"
    using assms(5) by (simp add: run_single_hashes)
  have "hash_age d'' ?h \<noteq> None \<longleftrightarrow> ?a + rotations between < num_buckets d"
  proof (cases "?a + rotations between < num_buckets d")
    case True
    with wheel.run_remembers [OF ok'(1) age, of ?ops] ok'(2) show ?thesis by (simp add: d'')
  next
    case False
    with wheel.run_forgets [OF ok'(1) age notin] lt ok'(2) show ?thesis by (simp add: d'')
  qed
  moreover have "fst (check_and_insert ahash payload d'') \<longleftrightarrow> hash_age d'' ?h \<noteq> None"
    using wheel_check(1) [OF wheel.run_invar [OF ok'(1)], of ?h ?ops] d''
    by (auto simp: check_and_insert_hash age_check_def split: option.splits)
  ultimately show ?thesis using w by simp
qed

text \<open>
  C9. The detection window is exact. Start a wheel, run any operations, check a payload,
  and run any further operations that do not check a payload of the same hash. A second check
  then reports a duplicate if the age the payload had at the first check (0 for a payload that
  was new) plus the rotations since is still below the number of buckets,
  \<open>max (period / 100ms) 2\<close>; and otherwise it does not. In particular a check of a known
  payload does not extend its window.
\<close>

theorem dedup_window_exact:
  assumes "\<not> is_zero p"
    and "d = snd (run_single ahash before (dedup_new p))"
    and "(known, d') = check_and_insert ahash payload d"
    and "\<forall>q. Check q \<in> set between \<longrightarrow> ahash q \<noteq> ahash payload"
    and "d'' = snd (run_single ahash between d')"
  shows "fst (check_and_insert ahash payload d'') \<longleftrightarrow>
    (case hash_age d (ahash payload) of None \<Rightarrow> 0 | Some a \<Rightarrow> a) + rotations between
      < max (usize_try_from_or_max (as_millis p div 100)) 2"
  using assms by (rule window_exact)

theorem dedup_window_exact_witness:
  "let ahash = (\<lambda>xs. of_nat (length xs));
       d = snd (run_single ahash [Check [1], Rotate] (dedup_new (from_millis 300)));
       d' = snd (check_and_insert ahash [1] d);
       d'' = snd (run_single ahash [Rotate, Check [1, 2]] d')
   in \<not> fst (check_and_insert ahash [7] (snd (run_single ahash [Rotate, Check [1, 2], Rotate] d')))
      \<and> fst (check_and_insert ahash [1] d'')"
proof -
  define ahash :: "byte list \<Rightarrow> u64" where "ahash = (\<lambda>xs. of_nat (length xs))"
  have p: "\<not> is_zero (from_millis 300)" by (simp add: is_zero_def time_simps)
  define d where "d = snd (run_single ahash [Check [1], Rotate] (dedup_new (from_millis 300)))"
  define d' where "d' = snd (check_and_insert ahash [1] d)"
  have c: "(fst (check_and_insert ahash [1] d), d') = check_and_insert ahash [1] d" by (simp add: d'_def)
  have no: "\<forall>q. Check q \<in> set [Rotate, Check [1, 2]] \<longrightarrow> ahash q \<noteq> ahash [1]"
    and no': "\<forall>q. Check q \<in> set [Rotate, Check [1, 2], Rotate] \<longrightarrow> ahash q \<noteq> ahash [1]"
    by (simp_all add: ahash_def)
  have h: "ahash [7] = ahash [1]" by (simp add: ahash_def)
  have age: "hash_age d (ahash [1]) = Some 1"
    unfolding d_def run_single_hashes wheel.run_age [OF wheel_ok_new(1) [OF p]]
    by (simp add: wheel_ok_new p age_check_def age_rotate_def num_buckets_new)
  note w = dedup_window_exact [OF p d_def c no refl] dedup_window_exact [OF p d_def c no' refl]
  have eq: "check_and_insert ahash [7] x = check_and_insert ahash [1] x" for x
    by (simp add: check_and_insert_def h)
  show ?thesis
    using w unfolding Let_def ahash_def [symmetric] d_def [symmetric] d'_def [symmetric] eq
    by (simp add: age usize_try_from_or_max_def USIZE_MAX_def)
qed

text \<open>The rotator task ticks at every multiple of the rotation interval.\<close>

definition ticks_between :: "instant \<Rightarrow> instant \<Rightarrow> nat" where
  "ticks_between t t' = t' div from_millis 100 - t div from_millis 100"

text \<open>
  C39. The window in wall-clock time. With the rotator ticking every 100 ms, a payload that is
  checked twice within \<open>(n - 1) * 100 ms\<close>, for the \<open>n\<close> buckets of the period, is always
  recognised, and one that is checked again after \<open>n * 100 ms\<close> or later never is, when
  nothing else of the same hash was checked and it was new at first. For a period of a
  whole number \<open>m\<close> of intervals, the guarantee is therefore \<open>(m - 1) * 100 ms\<close>, not the
  period itself.
\<close>

theorem dedup_window_time:
  assumes "\<not> is_zero p"
    and "n = max (usize_try_from_or_max (as_millis p div 100)) 2"
    and "d = snd (run_single ahash before (dedup_new p))"
    and "(False, d') = check_and_insert ahash payload d"
    and "\<forall>q. Check q \<in> set between \<longrightarrow> ahash q \<noteq> ahash payload"
    and "rotations between = ticks_between t (t + delay)"
    and "d'' = snd (run_single ahash between d')"
  shows "(fst (check_and_insert ahash payload d'') \<longleftrightarrow> ticks_between t (t + delay) < n)
    \<and> (delay < (n - 1) * from_millis 100 \<longrightarrow> fst (check_and_insert ahash payload d''))
    \<and> (n * from_millis 100 \<le> delay \<longrightarrow> \<not> fst (check_and_insert ahash payload d''))"
proof -
  let ?I = "from_millis 100" and ?k = "ticks_between t (t + delay)"
  have I: "0 < ?I" by (simp add: time_simps)
  have ok: "wheel_ok d"
    using wheel.run_invar [OF wheel_ok_new(1) [OF assms(1)]] assms(3) by (simp add: run_single_hashes)
  have "hash_age d (ahash payload) = None"
    using wheel_check(1) [OF ok, of "ahash payload"] assms(4)
    by (auto simp: check_and_insert_hash age_check_def split: option.splits dest!: arg_cong [where f = fst])
  then have iff: "fst (check_and_insert ahash payload d'') \<longleftrightarrow> ?k < n"
    using window_exact [OF assms(1,3,4,5,7)] assms(2,6) by simp
  have lower: "delay div ?I \<le> ?k" and upper: "?k \<le> delay div ?I + 1"
    using div_span [OF I] by (simp_all add: ticks_between_def)
  have n: "2 \<le> n" using assms(2) by simp
  show ?thesis
  proof (intro conjI impI)
    show "fst (check_and_insert ahash payload d'') \<longleftrightarrow> ?k < n" by (rule iff)
  next
    assume "delay < (n - 1) * ?I"
    then have "delay div ?I < n - 1" by (simp add: div_less_iff_less_mult [OF I])
    with upper n iff show "fst (check_and_insert ahash payload d'')" by simp
  next
    assume "n * ?I \<le> delay"
    then have "n \<le> delay div ?I" by (simp add: less_eq_div_iff_mult_less_eq [OF I])
    with lower iff show "\<not> fst (check_and_insert ahash payload d'')" by simp
  qed
qed

text \<open>
  A period of 300 ms: a payload checked again after 250 ms is let through, because the
  rotator ticked three times in between. After 150 ms it is always recognised.
\<close>

theorem dedup_window_time_witness:
  "let ahash = (\<lambda>xs. of_nat (length xs)); d = dedup_new (from_millis 300);
       d' = snd (check_and_insert ahash [1] d)
   in fst (check_and_insert ahash [1] (snd (run_single ahash [Rotate, Rotate] d')))
      \<and> \<not> fst (check_and_insert ahash [1] (snd (run_single ahash [Rotate, Rotate, Rotate] d')))
      \<and> ticks_between (from_millis 90) (from_millis 90 + from_millis 250) = 3"
proof -
  define ahash :: "byte list \<Rightarrow> u64" where "ahash = (\<lambda>xs. of_nat (length xs))"
  define d where "d = dedup_new (from_millis 300)"
  define d' where "d' = snd (check_and_insert ahash [1] d)"
  have p: "\<not> is_zero (from_millis 300)" by (simp add: is_zero_def time_simps)
  have d: "d = snd (run_single ahash [] (dedup_new (from_millis 300)))" by (simp add: d_def)
  have n: "3 = max (usize_try_from_or_max (as_millis (from_millis 300) div 100)) 2"
    by (simp add: usize_try_from_or_max_def USIZE_MAX_def)
  have c: "(False, d') = check_and_insert ahash [1] d"
    using wheel_check(1) [OF wheel_ok_new(1) [OF p], of "ahash [1]"]
    by (simp add: d'_def d_def check_and_insert_hash prod_eq_iff wheel_ok_new p age_check_def)
  have no: "\<forall>q. Check q \<in> set [Rotate, Rotate] \<longrightarrow> ahash q \<noteq> ahash [1]"
    and no': "\<forall>q. Check q \<in> set [Rotate, Rotate, Rotate] \<longrightarrow> ahash q \<noteq> ahash [1]" by simp_all
  have r: "rotations [Rotate, Rotate] = ticks_between (from_millis 90) (from_millis 90 + from_millis 150)"
    and r': "rotations [Rotate, Rotate, Rotate] = ticks_between (from_millis 90) (from_millis 90 + from_millis 250)"
    by (simp_all add: ticks_between_def time_simps)
  show ?thesis
    using dedup_window_time [OF p n d c no r refl] dedup_window_time [OF p n d c no' r' refl]
    unfolding Let_def ahash_def [symmetric] d_def [symmetric] d'_def [symmetric]
    by (simp add: ticks_between_def time_simps)
qed

end
