(* ===== verification/Messages.thy ===== *)
theory Messages
  imports Prelude
begin

text \<open>
  The message data of the router: the header and version that the \<open>mavlink\<close> crate hands
  over, \<open>EndpointId\<close> and \<open>RoutedMessage\<close> (\<open>src/router.rs\<close>), and the target
  extraction of \<open>src/mavlink_utils.rs\<close>. Of each MAVLink message the model keeps the
  fields that \<open>extract_target\<close> reads; every message that the function does not name is
  \<open>OTHER_MESSAGE\<close> with its id.
\<close>

section \<open>Identifiers and headers\<close>

datatype endpoint_id = EndpointId nat

instantiation endpoint_id :: linorder
begin

fun less_eq_endpoint_id :: "endpoint_id \<Rightarrow> endpoint_id \<Rightarrow> bool" where
  "less_eq_endpoint_id (EndpointId a) (EndpointId b) \<longleftrightarrow> a \<le> b"

fun less_endpoint_id :: "endpoint_id \<Rightarrow> endpoint_id \<Rightarrow> bool" where
  "less_endpoint_id (EndpointId a) (EndpointId b) \<longleftrightarrow> a < b"

instance
proof
  fix x y z :: endpoint_id
  show "x < y \<longleftrightarrow> x \<le> y \<and> \<not> y \<le> x" by (cases x; cases y) auto
  show "x \<le> x" by (cases x) auto
  show "x \<le> y \<Longrightarrow> y \<le> z \<Longrightarrow> x \<le> z" by (cases x; cases y; cases z) auto
  show "x \<le> y \<Longrightarrow> y \<le> x \<Longrightarrow> x = y" by (cases x; cases y) auto
  show "x \<le> y \<or> y \<le> x" by (cases x; cases y) auto
qed

end

definition show_endpoint_id :: "endpoint_id \<Rightarrow> string" where
  "show_endpoint_id e = (case e of EndpointId n \<Rightarrow> ''Endpoint('' @ show_nat n @ '')'')"

record mav_header =
  system_id :: u8
  component_id :: u8
  sequence :: u8

datatype mavlink_version = V1 | V2

record message_target =
  target_system_id :: u8
  target_component_id :: u8

section \<open>Target extraction\<close>

text \<open>
  A constructor carries the fields that are read: \<open>target_system\<close> and
  \<open>target_component\<close>, only \<open>target_system\<close>, or \<open>gcs_system_id\<close>.
\<close>

datatype (plugins only: size) mav_message =
    COMMAND_INT u8 u8 | COMMAND_LONG u8 u8 | COMMAND_ACK | COMMAND_CANCEL u8 u8
  | MISSION_REQUEST_LIST u8 u8 | MISSION_COUNT u8 u8 | MISSION_REQUEST u8 u8
  | MISSION_REQUEST_INT u8 u8 | MISSION_ITEM u8 u8 | MISSION_ITEM_INT u8 u8
  | MISSION_ACK u8 u8 | MISSION_CLEAR_ALL u8 u8 | MISSION_ITEM_REACHED | MISSION_CURRENT
  | MISSION_SET_CURRENT u8 u8
  | PARAM_REQUEST_READ u8 u8 | PARAM_REQUEST_LIST u8 u8 | PARAM_SET u8 u8 | PARAM_VALUE
  | SET_MODE u8 | SET_POSITION_TARGET_LOCAL_NED u8 | SET_POSITION_TARGET_GLOBAL_INT u8
  | SET_ATTITUDE_TARGET u8
  | REQUEST_DATA_STREAM u8 u8
  | PING u8 u8
  | CHANGE_OPERATOR_CONTROL u8 | CHANGE_OPERATOR_CONTROL_ACK u8
  | LOG_REQUEST_LIST u8 u8 | LOG_REQUEST_DATA u8 u8 | LOG_ERASE u8 u8 | LOG_REQUEST_END u8 u8
  | FILE_TRANSFER_PROTOCOL u8 u8
  | MISSION_REQUEST_PARTIAL_LIST u8 u8 | MISSION_WRITE_PARTIAL_LIST u8 u8
  | PARAM_MAP_RC u8 u8
  | SAFETY_SET_ALLOWED_AREA u8 u8
  | RC_CHANNELS_OVERRIDE u8 u8
  | GPS_INJECT_DATA u8 u8 | SET_GPS_GLOBAL_ORIGIN u8
  | PARAM_EXT_SET u8 u8 | PARAM_EXT_REQUEST_READ u8 u8 | PARAM_EXT_REQUEST_LIST u8 u8
  | LOGGING_DATA u8 u8 | LOGGING_DATA_ACKED u8 u8
  | PLAY_TUNE u8 u8 | PLAY_TUNE_V2 u8 u8
  | TUNNEL u8 u8
  | SETUP_SIGNING u8 u8
  | GIMBAL_MANAGER_SET_ATTITUDE u8 u8 | GIMBAL_MANAGER_SET_PITCHYAW u8 u8
  | OTHER_MESSAGE u32

abbreviation target_of :: "u8 \<times> u8 \<Rightarrow> message_target" where
  "target_of p \<equiv> \<lparr>target_system_id = fst p, target_component_id = snd p\<rparr>"

definition extract_target :: "mav_message \<Rightarrow> message_target" where
  "extract_target msg = target_of (case msg of
      COMMAND_INT s c \<Rightarrow> (s, c)
    | COMMAND_LONG s c \<Rightarrow> (s, c)
    | COMMAND_ACK \<Rightarrow> (0, 0)
    | COMMAND_CANCEL s c \<Rightarrow> (s, c)
    | MISSION_REQUEST_LIST s c \<Rightarrow> (s, c)
    | MISSION_COUNT s c \<Rightarrow> (s, c)
    | MISSION_REQUEST s c \<Rightarrow> (s, c)
    | MISSION_REQUEST_INT s c \<Rightarrow> (s, c)
    | MISSION_ITEM s c \<Rightarrow> (s, c)
    | MISSION_ITEM_INT s c \<Rightarrow> (s, c)
    | MISSION_ACK s c \<Rightarrow> (s, c)
    | MISSION_CLEAR_ALL s c \<Rightarrow> (s, c)
    | MISSION_ITEM_REACHED \<Rightarrow> (0, 0)
    | MISSION_CURRENT \<Rightarrow> (0, 0)
    | MISSION_SET_CURRENT s c \<Rightarrow> (s, c)
    | PARAM_REQUEST_READ s c \<Rightarrow> (s, c)
    | PARAM_REQUEST_LIST s c \<Rightarrow> (s, c)
    | PARAM_SET s c \<Rightarrow> (s, c)
    | PARAM_VALUE \<Rightarrow> (0, 0)
    | SET_MODE s \<Rightarrow> (s, 0)
    | SET_POSITION_TARGET_LOCAL_NED s \<Rightarrow> (s, 0)
    | SET_POSITION_TARGET_GLOBAL_INT s \<Rightarrow> (s, 0)
    | SET_ATTITUDE_TARGET s \<Rightarrow> (s, 0)
    | REQUEST_DATA_STREAM s c \<Rightarrow> (s, c)
    | PING s c \<Rightarrow> (s, c)
    | CHANGE_OPERATOR_CONTROL s \<Rightarrow> (s, 0)
    | CHANGE_OPERATOR_CONTROL_ACK g \<Rightarrow> (g, 0)
    | LOG_REQUEST_LIST s c \<Rightarrow> (s, c)
    | LOG_REQUEST_DATA s c \<Rightarrow> (s, c)
    | LOG_ERASE s c \<Rightarrow> (s, c)
    | LOG_REQUEST_END s c \<Rightarrow> (s, c)
    | FILE_TRANSFER_PROTOCOL s c \<Rightarrow> (s, c)
    | MISSION_REQUEST_PARTIAL_LIST s c \<Rightarrow> (s, c)
    | MISSION_WRITE_PARTIAL_LIST s c \<Rightarrow> (s, c)
    | PARAM_MAP_RC s c \<Rightarrow> (s, c)
    | SAFETY_SET_ALLOWED_AREA s c \<Rightarrow> (s, c)
    | RC_CHANNELS_OVERRIDE s c \<Rightarrow> (s, c)
    | GPS_INJECT_DATA s c \<Rightarrow> (s, c)
    | SET_GPS_GLOBAL_ORIGIN s \<Rightarrow> (s, 0)
    | PARAM_EXT_SET s c \<Rightarrow> (s, c)
    | PARAM_EXT_REQUEST_READ s c \<Rightarrow> (s, c)
    | PARAM_EXT_REQUEST_LIST s c \<Rightarrow> (s, c)
    | LOGGING_DATA s c \<Rightarrow> (s, c)
    | LOGGING_DATA_ACKED s c \<Rightarrow> (s, c)
    | PLAY_TUNE s c \<Rightarrow> (s, c)
    | PLAY_TUNE_V2 s c \<Rightarrow> (s, c)
    | TUNNEL s c \<Rightarrow> (s, c)
    | SETUP_SIGNING s c \<Rightarrow> (s, c)
    | GIMBAL_MANAGER_SET_ATTITUDE s c \<Rightarrow> (s, c)
    | GIMBAL_MANAGER_SET_PITCHYAW s c \<Rightarrow> (s, c)
    | OTHER_MESSAGE _ \<Rightarrow> (0, 0))"

section \<open>Routed messages\<close>

record routed_message =
  source_id :: endpoint_id
  header :: mav_header
  message_id :: u32
  version :: mavlink_version
  timestamp_us :: u64
  serialized_bytes :: "byte list"
  target :: message_target

end
