(* ===== verification/Msg_Filter.thy ===== *)
theory Msg_Filter
  imports Messages
begin

text \<open>
  Per-endpoint message filters (\<open>src/filter.rs\<close>). A \<open>HashSet\<close> of ids is the list of its
  elements: the filter code only asks whether it is empty and whether it contains an id.
\<close>

record endpoint_filters =
  allow_msg_id_out :: "u32 list"
  block_msg_id_out :: "u32 list"
  allow_src_comp_out :: "u8 list"
  block_src_comp_out :: "u8 list"
  allow_src_sys_out :: "u8 list"
  block_src_sys_out :: "u8 list"
  allow_msg_id_in :: "u32 list"
  block_msg_id_in :: "u32 list"
  allow_src_comp_in :: "u8 list"
  block_src_comp_in :: "u8 list"
  allow_src_sys_in :: "u8 list"
  block_src_sys_in :: "u8 list"

definition default_filters :: endpoint_filters where
  "default_filters =
     \<lparr>allow_msg_id_out = [], block_msg_id_out = [], allow_src_comp_out = [], block_src_comp_out = [],
      allow_src_sys_out = [], block_src_sys_out = [],
      allow_msg_id_in = [], block_msg_id_in = [], allow_src_comp_in = [], block_src_comp_in = [],
      allow_src_sys_in = [], block_src_sys_in = []\<rparr>"

text \<open>The early returns of the source are the \<open>if\<close> chain, in its order.\<close>

definition filter_check ::
    "mav_header \<Rightarrow> u32 \<Rightarrow> u32 list \<Rightarrow> u32 list \<Rightarrow> u8 list \<Rightarrow> u8 list \<Rightarrow> u8 list \<Rightarrow> u8 list \<Rightarrow> bool" where
  "filter_check hdr msg_id allow_msg block_msg allow_comp block_comp allow_sys block_sys =
     (if allow_msg \<noteq> [] \<and> msg_id \<notin> set allow_msg then False
      else if msg_id \<in> set block_msg then False
      else if allow_comp \<noteq> [] \<and> component_id hdr \<notin> set allow_comp then False
      else if component_id hdr \<in> set block_comp then False
      else if allow_sys \<noteq> [] \<and> system_id hdr \<notin> set allow_sys then False
      else if system_id hdr \<in> set block_sys then False
      else True)"

definition check_incoming :: "endpoint_filters \<Rightarrow> mav_header \<Rightarrow> u32 \<Rightarrow> bool" where
  "check_incoming f hdr msg_id =
     filter_check hdr msg_id (allow_msg_id_in f) (block_msg_id_in f) (allow_src_comp_in f)
       (block_src_comp_in f) (allow_src_sys_in f) (block_src_sys_in f)"

definition filters_check_outgoing :: "endpoint_filters \<Rightarrow> mav_header \<Rightarrow> u32 \<Rightarrow> bool" where
  "filters_check_outgoing f hdr msg_id =
     filter_check hdr msg_id (allow_msg_id_out f) (block_msg_id_out f) (allow_src_comp_out f)
       (block_src_comp_out f) (allow_src_sys_out f) (block_src_sys_out f)"

text \<open>What one pair of lists lets pass: an empty allow list is no restriction, and block wins.\<close>

definition criterion :: "'a list \<Rightarrow> 'a list \<Rightarrow> 'a \<Rightarrow> bool" where
  "criterion allow block x \<longleftrightarrow> (allow = [] \<or> x \<in> set allow) \<and> x \<notin> set block"

lemma filter_check_criteria:
  "filter_check hdr msg_id am bm ac bc asys bsys \<longleftrightarrow>
     criterion am bm msg_id \<and> criterion ac bc (component_id hdr) \<and> criterion asys bsys (system_id hdr)"
  by (auto simp: filter_check_def criterion_def)

text \<open>The code's order of the six tests does not matter, only the three criteria do.\<close>

lemma incoming_criteria:
  "check_incoming f hdr msg_id \<longleftrightarrow>
     criterion (allow_msg_id_in f) (block_msg_id_in f) msg_id \<and>
     criterion (allow_src_comp_in f) (block_src_comp_in f) (component_id hdr) \<and>
     criterion (allow_src_sys_in f) (block_src_sys_in f) (system_id hdr)"
  by (simp add: check_incoming_def filter_check_criteria)

lemma outgoing_criteria:
  "filters_check_outgoing f hdr msg_id \<longleftrightarrow>
     criterion (allow_msg_id_out f) (block_msg_id_out f) msg_id \<and>
     criterion (allow_src_comp_out f) (block_src_comp_out f) (component_id hdr) \<and>
     criterion (allow_src_sys_out f) (block_src_sys_out f) (system_id hdr)"
  by (simp add: filters_check_outgoing_def filter_check_criteria)

lemma default_filters_pass [simp]:
  "check_incoming default_filters hdr msg_id" "filters_check_outgoing default_filters hdr msg_id"
  by (simp_all add: incoming_criteria outgoing_criteria criterion_def default_filters_def)

end
