(* ===== verification/Framing.thy ===== *)
theory Framing
  imports Messages "HOL-Library.Sublist"
begin

text \<open>
  The stream parser (\<open>src/framing.rs\<close>): finding MAVLink frames in a byte stream. The buffer
  (\<open>BytesMut\<close>) is its byte list; \<open>advance\<close> and \<open>split_to\<close> panic past the end.

  Code from other crates is a parameter, bundled in \<open>mavlink_lib\<close>: \<open>memchr2\<close>, the two message
  readers of the \<open>mavlink\<close> crate and its \<open>message_id\<close>. A reader is applied to the bytes after
  the cursor and returns the header, the message and the number of bytes consumed, or an error.
  What the parser relies on is stated by \<open>memchr2_ok\<close>, \<open>reader_ok\<close> (a frame is not empty
  and lies within the bytes given) and, only for the result on chunked input,
  \<open>reader_sequential\<close> (a result other than an end of input does not depend on later bytes).
\<close>

section \<open>Readers\<close>

datatype io_kind = UnexpectedEof | OtherIoKind

datatype message_read_error = Io io_kind | ParseError

type_synonym mav_reader = "byte list \<Rightarrow> message_read_error + (mav_header \<times> mav_message \<times> nat)"

record mavlink_lib =
  memchr2 :: "byte \<Rightarrow> byte \<Rightarrow> byte list \<Rightarrow> nat option"
  read_v2_msg :: mav_reader
  read_v1_msg :: mav_reader
  msg_id_of :: "mav_message \<Rightarrow> u32"

definition is_eof :: "message_read_error \<Rightarrow> bool" where
  "is_eof e = (case e of Io kind \<Rightarrow> kind = UnexpectedEof | _ \<Rightarrow> False)"

record mavlink_frame =
  frame_header :: mav_header
  frame_message :: mav_message
  frame_version :: mavlink_version
  raw_bytes :: "byte list"

section \<open>The buffer\<close>

definition MAX_BUFFER_SIZE :: nat where
  "MAX_BUFFER_SIZE = 1024 * 1024"

definition buf_advance :: "nat \<Rightarrow> byte list \<Rightarrow> byte list outcome" where
  "buf_advance n b = (if n \<le> length b then Returns (drop n b) else Panics)"

definition buf_split_to :: "nat \<Rightarrow> byte list \<Rightarrow> (byte list \<times> byte list) outcome" where
  "buf_split_to n b = (if n \<le> length b then Returns (take n b, drop n b) else Panics)"

definition parser_new :: "byte list" where
  "parser_new = []"

definition push :: "byte list \<Rightarrow> byte list \<Rightarrow> byte list" where
  "push buffer data =
     (let new_len = saturating_add (length buffer) (length data) in
      (if new_len > MAX_BUFFER_SIZE
       then let overflow = saturating_sub new_len MAX_BUFFER_SIZE in
         if overflow \<le> length buffer then drop overflow buffer else []
       else buffer) @ data)"

section \<open>Parsing the next frame\<close>

definition take_frame ::
    "mavlink_version \<Rightarrow> mav_header \<times> mav_message \<times> nat \<Rightarrow> byte list \<Rightarrow>
     (mavlink_frame option \<times> byte list) outcome" where
  "take_frame v hmn b = (case hmn of (h, m, n) \<Rightarrow>
     (case buf_split_to n b of
        Panics \<Rightarrow> Panics
      | Returns (raw, rest) \<Rightarrow>
          Returns (Some \<lparr>frame_header = h, frame_message = m, frame_version = v, raw_bytes = raw\<rparr>, rest)))"

text \<open>One round of the loop either ends the call or continues with a shorter buffer.\<close>

datatype step_result = Done "(mavlink_frame option \<times> byte list) outcome" | Continue "byte list"

definition parse_step :: "mavlink_lib \<Rightarrow> byte list \<Rightarrow> step_result" where
  "parse_step L buffer =
     (if buffer = [] then Done (Returns (None, buffer))
      else case memchr2 L 0xFD 0xFE buffer of
        None \<Rightarrow> Done (Returns (None, []))
      | Some idx \<Rightarrow>
          (case (if idx > 0 then buf_advance idx buffer else Returns buffer) of
             Panics \<Rightarrow> Done Panics
           | Returns b \<Rightarrow>
               (case read_v2_msg L b of
                  Inr hmn \<Rightarrow> Done (take_frame V2 hmn b)
                | Inl e \<Rightarrow>
                    (case read_v1_msg L b of
                       Inr hmn \<Rightarrow> Done (take_frame V1 hmn b)
                     | Inl e_v1 \<Rightarrow>
                         if is_eof e \<or> is_eof e_v1 then Done (Returns (None, b))
                         else (case buf_advance 1 b of Panics \<Rightarrow> Done Panics | Returns b' \<Rightarrow> Continue b')))))"

lemma parse_step_Continue: "parse_step L buffer = Continue b' \<Longrightarrow> length b' < length buffer"
  by (auto simp: parse_step_def buf_advance_def split: if_splits option.splits sum.splits outcome.splits)

function parse_next :: "mavlink_lib \<Rightarrow> byte list \<Rightarrow> (mavlink_frame option \<times> byte list) outcome" where
  "parse_next L buffer = (case parse_step L buffer of Done r \<Rightarrow> r | Continue b \<Rightarrow> parse_next L b)"
  by pat_completeness auto
termination
  by (relation "measure (\<lambda>(L, b). length b)") (auto dest: parse_step_Continue)

declare parse_next.simps [simp del]

text \<open>The readers' loop \<open>while let Some(frame) = parser.parse_next()\<close>.\<close>

partial_function (option) drain ::
    "mavlink_lib \<Rightarrow> byte list \<Rightarrow> (mavlink_frame list \<times> byte list) outcome option" where
  "drain L buffer =
     (case parse_next L buffer of
        Panics \<Rightarrow> Some Panics
      | Returns (None, b) \<Rightarrow> Some (Returns ([], b))
      | Returns (Some f, b) \<Rightarrow>
          Option.bind (drain L b) (\<lambda>r. Some (case r of Panics \<Rightarrow> Panics | Returns (fs, b') \<Rightarrow> Returns (f # fs, b'))))"

section \<open>What the parser relies on\<close>

abbreviation STX :: "byte set" where
  "STX \<equiv> {0xFD, 0xFE}"

definition memchr2_ok :: "(byte \<Rightarrow> byte \<Rightarrow> byte list \<Rightarrow> nat option) \<Rightarrow> bool" where
  "memchr2_ok f \<longleftrightarrow> (\<forall>x y b. (f x y b = None \<longleftrightarrow> x \<notin> set b \<and> y \<notin> set b) \<and>
     (\<forall>i. f x y b = Some i \<longrightarrow> i < length b \<and> b ! i \<in> {x, y} \<and> (\<forall>j < i. b ! j \<notin> {x, y})))"

definition reader_ok :: "mav_reader \<Rightarrow> bool" where
  "reader_ok rd \<longleftrightarrow> (\<forall>b h m n. rd b = Inr (h, m, n) \<longrightarrow> 0 < n \<and> n \<le> length b)"

definition eof_result :: "message_read_error + 'a \<Rightarrow> bool" where
  "eof_result r = (case r of Inl e \<Rightarrow> is_eof e | Inr _ \<Rightarrow> False)"

definition reader_sequential :: "mav_reader \<Rightarrow> bool" where
  "reader_sequential rd \<longleftrightarrow> (\<forall>b ext. \<not> eof_result (rd b) \<longrightarrow> rd (b @ ext) = rd b)"

definition lib_ok :: "mavlink_lib \<Rightarrow> bool" where
  "lib_ok L \<longleftrightarrow> memchr2_ok (memchr2 L) \<and> reader_ok (read_v2_msg L) \<and> reader_ok (read_v1_msg L)"

lemma lib_okD:
  assumes "lib_ok L"
  shows "memchr2 L 0xFD 0xFE b = None \<longleftrightarrow> set b \<inter> STX = {}"
    and "memchr2 L 0xFD 0xFE b = Some i \<Longrightarrow> i < length b \<and> b ! i \<in> STX \<and> (\<forall>j < i. b ! j \<notin> STX)"
    and "read_v2_msg L b = Inr (h, m, n) \<Longrightarrow> 0 < n \<and> n \<le> length b"
    and "read_v1_msg L b = Inr (h, m, n) \<Longrightarrow> 0 < n \<and> n \<le> length b"
  using assms unfolding lib_ok_def memchr2_ok_def reader_ok_def by blast+

text \<open>Both readers reject the bytes, and neither for want of more input.\<close>

definition rejected :: "mavlink_lib \<Rightarrow> byte list \<Rightarrow> bool" where
  "rejected L b = (case (read_v2_msg L b, read_v1_msg L b) of
      (Inl e, Inl e') \<Rightarrow> \<not> is_eof e \<and> \<not> is_eof e' | _ \<Rightarrow> False)"

text \<open>The candidate frame at the start of the bytes: version 2 is tried first.\<close>

definition frame_at :: "mavlink_lib \<Rightarrow> byte list \<Rightarrow> mavlink_frame option" where
  "frame_at L b = (case read_v2_msg L b of
      Inr (h, m, n) \<Rightarrow> Some \<lparr>frame_header = h, frame_message = m, frame_version = V2, raw_bytes = take n b\<rparr>
    | Inl _ \<Rightarrow> (case read_v1_msg L b of
        Inr (h, m, n) \<Rightarrow> Some \<lparr>frame_header = h, frame_message = m, frame_version = V1, raw_bytes = take n b\<rparr>
      | Inl _ \<Rightarrow> None))"

text \<open>Bytes that the parser may skip before \<open>rest\<close>: no start byte, or a rejected candidate.\<close>

definition skippable :: "mavlink_lib \<Rightarrow> byte list \<Rightarrow> byte list \<Rightarrow> bool" where
  "skippable L skipped rest \<longleftrightarrow>
     (\<forall>i < length skipped. skipped ! i \<in> STX \<longrightarrow> rejected L (drop i skipped @ rest))"

lemma skippable_Nil [simp]: "skippable L [] rest"
  by (simp add: skippable_def)

lemma skippable_append:
  "skippable L (xs @ ys) rest \<longleftrightarrow> skippable L xs (ys @ rest) \<and> skippable L ys rest"
proof
  assume s: "skippable L (xs @ ys) rest"
  have "skippable L xs (ys @ rest)" unfolding skippable_def
  proof (intro allI impI)
    fix i assume "i < length xs" "xs ! i \<in> STX"
    then have "i < length (xs @ ys)" "(xs @ ys) ! i \<in> STX" by (simp_all add: nth_append)
    with s have "rejected L (drop i (xs @ ys) @ rest)" unfolding skippable_def by blast
    with \<open>i < length xs\<close> show "rejected L (drop i xs @ ys @ rest)" by simp
  qed
  moreover have "skippable L ys rest" unfolding skippable_def
  proof (intro allI impI)
    fix i assume "i < length ys" "ys ! i \<in> STX"
    then have "length xs + i < length (xs @ ys)" "(xs @ ys) ! (length xs + i) \<in> STX" by simp_all
    with s have "rejected L (drop (length xs + i) (xs @ ys) @ rest)" unfolding skippable_def by blast
    then show "rejected L (drop i ys @ rest)" by simp
  qed
  ultimately show "skippable L xs (ys @ rest) \<and> skippable L ys rest" ..
next
  assume "skippable L xs (ys @ rest) \<and> skippable L ys rest"
  then show "skippable L (xs @ ys) rest"
    unfolding skippable_def by (auto simp: nth_append not_less)
qed

section \<open>Correctness of one call\<close>

text \<open>
  The contract of \<open>parse_next\<close>: the buffer is some skippable bytes followed by \<open>rest\<close>; the
  call returns the frame at the start of \<open>rest\<close> and keeps what follows it, or returns none
  and keeps \<open>rest\<close>, which is empty or starts a frame that is not complete yet.
\<close>

definition result_at :: "mavlink_lib \<Rightarrow> mavlink_frame option \<Rightarrow> byte list \<Rightarrow> byte list \<Rightarrow> bool" where
  "result_at L r b' rest \<longleftrightarrow>
     (case r of
        Some f \<Rightarrow> rest = raw_bytes f @ b' \<and> rest \<noteq> [] \<and> hd rest \<in> STX \<and> frame_at L rest = Some f
      | None \<Rightarrow> rest = b' \<and> (rest = [] \<or> hd rest \<in> STX \<and> frame_at L rest = None \<and> \<not> rejected L rest))"

definition parse_post :: "mavlink_lib \<Rightarrow> byte list \<Rightarrow> mavlink_frame option \<Rightarrow> byte list \<Rightarrow> bool" where
  "parse_post L buffer r b' \<longleftrightarrow>
     (\<exists>skipped rest. buffer = skipped @ rest \<and> skippable L skipped rest \<and> result_at L r b' rest)"

lemma frame_at_raw:
  assumes "lib_ok L" "frame_at L b = Some f"
  shows "\<exists>n. raw_bytes f = take n b \<and> 0 < n \<and> n \<le> length b"
proof (cases "read_v2_msg L b")
  case (Inr x)
  then show ?thesis using assms by (cases x) (auto simp: frame_at_def dest: lib_okD(3))
next
  case (Inl e)
  then show ?thesis using assms
    by (cases "read_v1_msg L b") (auto simp: frame_at_def split: prod.splits dest: lib_okD(4))
qed

lemma parse_step_frame:
  assumes "lib_ok L" "memchr2 L 0xFD 0xFE buffer = Some i" "frame_at L (drop i buffer) = Some f"
  shows "parse_step L buffer = Done (Returns (Some f, drop (length (raw_bytes f)) (drop i buffer)))"
proof -
  have i: "i < length buffer" using lib_okD(2) [OF assms(1,2)] by simp
  then have ne: "buffer \<noteq> []" by auto
  have adv: "(if i > 0 then buf_advance i buffer else Returns buffer) = Returns (drop i buffer)"
    using i by (simp add: buf_advance_def)
  show ?thesis
  proof (cases "read_v2_msg L (drop i buffer)")
    case (Inr x)
    obtain h m k where x: "x = (h, m, k)" by (cases x)
    from assms(1) Inr x have "k \<le> length (drop i buffer)" by (blast dest: lib_okD(3))
    moreover from this assms(3) Inr x have "length (raw_bytes f) = k" by (auto simp: frame_at_def)
    ultimately show ?thesis
      using assms(2,3) ne adv Inr x by (auto simp: parse_step_def frame_at_def take_frame_def buf_split_to_def)
  next
    case (Inl e)
    with assms(3) obtain h m k where x: "read_v1_msg L (drop i buffer) = Inr (h, m, k)"
      by (auto simp: frame_at_def split: sum.splits prod.splits)
    from assms(1) x have "k \<le> length (drop i buffer)" by (blast dest: lib_okD(4))
    moreover from this assms(3) Inl x have "length (raw_bytes f) = k" by (auto simp: frame_at_def)
    ultimately show ?thesis
      using assms(2,3) ne adv Inl x by (auto simp: parse_step_def frame_at_def take_frame_def buf_split_to_def)
  qed
qed

lemma parse_step_no_frame:
  assumes "lib_ok L" "memchr2 L 0xFD 0xFE buffer = Some i" "frame_at L (drop i buffer) = None"
  shows "parse_step L buffer = (if rejected L (drop i buffer) then Continue (drop (Suc i) buffer)
    else Done (Returns (None, drop i buffer)))"
proof -
  have i: "i < length buffer" using lib_okD(2) [OF assms(1,2)] by simp
  then have ne: "buffer \<noteq> []" by auto
  have adv: "(if i > 0 then buf_advance i buffer else Returns buffer) = Returns (drop i buffer)"
    using i by (simp add: buf_advance_def)
  from assms(3) obtain e e' where "read_v2_msg L (drop i buffer) = Inl e" "read_v1_msg L (drop i buffer) = Inl e'"
    by (auto simp: frame_at_def split: sum.splits prod.splits)
  with assms(2) ne adv i show ?thesis
    by (auto simp: parse_step_def rejected_def buf_advance_def)
qed

lemma parse_step_no_start:
  "memchr2 L 0xFD 0xFE buffer = None \<Longrightarrow> parse_step L buffer = Done (Returns (None, []))"
  by (simp add: parse_step_def)

lemma skippable_prefix:
  assumes "lib_ok L" "memchr2 L 0xFD 0xFE buffer = Some i"
  shows "skippable L (take i buffer) rest"
  using lib_okD(2) [OF assms] by (auto simp: skippable_def)

lemma parse_post_skip:
  assumes "skippable L xs buffer" "parse_post L buffer r b'"
  shows "parse_post L (xs @ buffer) r b'"
proof -
  from assms(2) obtain skipped rest where s: "buffer = skipped @ rest" "skippable L skipped rest" "result_at L r b' rest"
    unfolding parse_post_def by blast
  from s(1,2) assms(1) have "xs @ buffer = (xs @ skipped) @ rest" "skippable L (xs @ skipped) rest"
    by (simp_all add: skippable_append)
  with s(3) show ?thesis unfolding parse_post_def by blast
qed

lemma parse_next_post:
  assumes "lib_ok L"
  shows "\<exists>r b'. parse_next L buffer = Returns (r, b') \<and> parse_post L buffer r b'"
proof (induction buffer rule: length_induct)
  case (1 buffer)
  show ?case
  proof (cases "memchr2 L 0xFD 0xFE buffer")
    case None
    then have "set buffer \<inter> STX = {}" using lib_okD(1) [OF assms] by simp
    then have "skippable L buffer []" by (auto simp: skippable_def dest: nth_mem)
    then have "parse_post L buffer None []" by (auto simp: parse_post_def result_at_def)
    with None show ?thesis by (subst parse_next.simps) (simp add: parse_step_no_start)
  next
    case (Some i)
    let ?b = "drop i buffer"
    from lib_okD(2) [OF assms Some] have i: "i < length buffer" "hd ?b \<in> STX" "?b \<noteq> []"
      by (simp_all add: hd_drop_conv_nth)
    have skip: "skippable L (take i buffer) rest" for rest by (rule skippable_prefix [OF assms Some])
    show ?thesis
    proof (cases "frame_at L ?b")
      case (Some f)
      obtain n where n: "raw_bytes f = take n ?b" "n \<le> length ?b"
        using frame_at_raw [OF assms Some] by blast
      then have "length (raw_bytes f) = n" by simp
      with n(1) have "?b = raw_bytes f @ drop (length (raw_bytes f)) ?b" by (metis append_take_drop_id)
      with Some i have "parse_post L ?b (Some f) (drop (length (raw_bytes f)) ?b)"
        unfolding parse_post_def result_at_def by (intro exI [of _ "[]"] exI [of _ ?b]) simp
      from parse_post_skip [OF skip this] have "parse_post L buffer (Some f) (drop (length (raw_bytes f)) ?b)"
        by simp
      then show ?thesis
        using parse_step_frame [OF assms \<open>memchr2 L 0xFD 0xFE buffer = Some i\<close> Some]
        by (subst parse_next.simps) simp
    next
      case None
      note step = parse_step_no_frame [OF assms \<open>memchr2 L 0xFD 0xFE buffer = Some i\<close> None]
      show ?thesis
      proof (cases "rejected L ?b")
        case True
        let ?t = "drop (Suc i) buffer"
        from i have "length ?t < length buffer" by simp
        with 1 obtain r b' where r: "parse_next L ?t = Returns (r, b')" "parse_post L ?t r b'" by blast
        have b: "?b = [buffer ! i] @ ?t" using i by (simp add: Cons_nth_drop_Suc)
        with True have "skippable L [buffer ! i] ?t" by (simp add: skippable_def)
        from parse_post_skip [OF this r(2)] b have "parse_post L ?b r b'" by simp
        from parse_post_skip [OF skip this] have "parse_post L buffer r b'" by simp
        with r(1) step True show ?thesis by (subst parse_next.simps) simp
      next
        case False
        with None i have "parse_post L ?b None ?b"
          unfolding parse_post_def result_at_def by (intro exI [of _ "[]"] exI [of _ ?b]) simp
        from parse_post_skip [OF skip this] have "parse_post L buffer None ?b" by simp
        with step False show ?thesis by (subst parse_next.simps) simp
      qed
    qed
  qed
qed

text \<open>The contract determines the result: no two decompositions of the buffer satisfy it.\<close>

lemma result_not_skipped:
  assumes "skippable L xs ys" "xs @ ys = zs @ rest" "result_at L r b' rest" "length zs < length xs"
  shows False
proof -
  have "rest = drop (length zs) (zs @ rest)" by simp
  also have "\<dots> = drop (length zs) xs @ ys" using assms(4) unfolding assms(2) [symmetric] by simp
  finally have rest: "rest = drop (length zs) xs @ ys" .
  with assms(4) have "rest \<noteq> []" "hd rest = xs ! length zs" by (simp_all add: hd_drop_conv_nth)
  moreover from this assms(3) have "hd rest \<in> STX" "\<not> rejected L rest"
    by (auto simp: result_at_def frame_at_def rejected_def split: option.splits sum.splits prod.splits)
  ultimately show False using assms(1,4) rest unfolding skippable_def by metis
qed

lemma parse_post_unique:
  assumes "parse_post L buffer r b'" "parse_post L buffer r2 b2'"
  shows "r = r2 \<and> b' = b2'"
proof -
  from assms obtain s1 r1 s2 rr2 where d: "buffer = s1 @ r1" "skippable L s1 r1" "result_at L r b' r1"
      "buffer = s2 @ rr2" "skippable L s2 rr2" "result_at L r2 b2' rr2"
    unfolding parse_post_def by blast
  have eq: "s1 @ r1 = s2 @ rr2" using d(1,4) by simp
  have "\<not> length s2 < length s1" using result_not_skipped [OF d(2) eq d(6)] by blast
  moreover have "\<not> length s1 < length s2" using result_not_skipped [OF d(5) eq [symmetric] d(3)] by blast
  ultimately have "r1 = rr2" using eq by simp
  with d(3,6) show ?thesis by (cases r; cases r2) (auto simp: result_at_def)
qed

lemma parse_next_iff:
  assumes "lib_ok L"
  shows "parse_next L buffer = Returns (r, b') \<longleftrightarrow> parse_post L buffer r b'"
  using parse_next_post [OF assms, of buffer] parse_post_unique by (metis outcome.inject prod.inject)

section \<open>Draining the buffer\<close>

lemma parse_post_Some_length:
  assumes "lib_ok L" "parse_post L buffer (Some f) b'"
  shows "length b' < length buffer" "raw_bytes f \<noteq> []"
proof -
  from assms(2) obtain skipped where d: "buffer = skipped @ raw_bytes f @ b'"
      "frame_at L (raw_bytes f @ b') = Some f" unfolding parse_post_def result_at_def by auto
  from frame_at_raw [OF assms(1) d(2)] show "raw_bytes f \<noteq> []" by auto
  with d(1) show "length b' < length buffer" by simp
qed

lemma drain_None:
  "parse_next L buffer = Returns (None, b) \<Longrightarrow> drain L buffer = Some (Returns ([], b))"
  by (simp add: drain.simps)

lemma drain_Some:
  "parse_next L buffer = Returns (Some f, b) \<Longrightarrow> drain L b = Some (Returns (fs, b')) \<Longrightarrow>
   drain L buffer = Some (Returns (f # fs, b'))"
  by (simp add: drain.simps)

text \<open>The run of the loop as a relation, for inductions over its frames.\<close>

inductive drained :: "mavlink_lib \<Rightarrow> byte list \<Rightarrow> mavlink_frame list \<Rightarrow> byte list \<Rightarrow> bool" for L where
  stop: "parse_post L buffer None b \<Longrightarrow> drained L buffer [] b"
| more: "parse_post L buffer (Some f) b \<Longrightarrow> drained L b fs b' \<Longrightarrow> drained L buffer (f # fs) b'"

inductive_cases drained_NilE: "drained L buffer [] b"
inductive_cases drained_ConsE: "drained L buffer (f # fs) b"

lemma drained_exists:
  assumes "lib_ok L"
  shows "\<exists>fs b'. drained L buffer fs b'"
proof (induction buffer rule: length_induct)
  case (1 buffer)
  obtain r b where r: "parse_post L buffer r b" using parse_next_post [OF assms, of buffer] by blast
  show ?case
  proof (cases r)
    case None
    with r show ?thesis by (blast intro: drained.stop)
  next
    case (Some f)
    with r parse_post_Some_length [OF assms] have "length b < length buffer" by blast
    with 1 obtain fs b' where "drained L b fs b'" by blast
    with r Some show ?thesis by (blast intro: drained.more)
  qed
qed

lemma drained_drain:
  assumes "lib_ok L"
  shows "drained L buffer fs b' \<Longrightarrow> drain L buffer = Some (Returns (fs, b'))"
  by (induction rule: drained.induct) (simp_all add: drain_None drain_Some parse_next_iff [OF assms])

lemma drain_iff:
  assumes "lib_ok L"
  shows "drain L buffer = Some (Returns (fs, b')) \<longleftrightarrow> drained L buffer fs b'"
  using drained_exists [OF assms, of buffer] drained_drain [OF assms]
  by (metis option.inject outcome.inject prod.inject)

lemma drained_bytes:
  assumes "lib_ok L"
  shows "drained L buffer fs b' \<Longrightarrow> subseq (concat (map raw_bytes fs) @ b') buffer"
proof (induction rule: drained.induct)
  case (stop buffer b)
  then obtain skipped where "buffer = skipped @ b" by (auto simp: parse_post_def result_at_def)
  then show ?case by (simp add: list_emb_append2)
next
  case (more buffer f b fs b')
  then obtain skipped where "buffer = skipped @ raw_bytes f @ b" by (auto simp: parse_post_def result_at_def)
  moreover have "subseq (raw_bytes f @ concat (map raw_bytes fs) @ b') (raw_bytes f @ b)"
    using more.IH by (intro list_emb_append_mono) simp_all
  ultimately show ?case by (simp add: list_emb_append2)
qed

section \<open>Chunked input\<close>

lemma sequential_frame:
  assumes "lib_ok L" "reader_sequential (read_v2_msg L)"
    "frame_at L b = Some f" "frame_version f = V2"
  shows "frame_at L (b @ ext) = Some f"
proof -
  from assms(3,4) obtain h m n where r: "read_v2_msg L b = Inr (h, m, n)"
      "f = \<lparr>frame_header = h, frame_message = m, frame_version = V2, raw_bytes = take n b\<rparr>"
    by (auto simp: frame_at_def split: sum.splits prod.splits)
  then have "\<not> eof_result (read_v2_msg L b)" by (simp add: eof_result_def)
  with assms(2) r(1) have "read_v2_msg L (b @ ext) = Inr (h, m, n)" unfolding reader_sequential_def by metis
  moreover from lib_okD(3) [OF assms(1) r(1)] have "n \<le> length b" by simp
  ultimately show ?thesis using r(2) by (simp add: frame_at_def)
qed

lemma sequential_rejected:
  assumes "reader_sequential (read_v2_msg L)" "reader_sequential (read_v1_msg L)" "rejected L b"
  shows "rejected L (b @ ext)"
proof -
  from assms(3) have "\<not> eof_result (read_v2_msg L b)" "\<not> eof_result (read_v1_msg L b)"
    by (auto simp: rejected_def eof_result_def split: sum.splits)
  with assms(1,2) have "read_v2_msg L (b @ ext) = read_v2_msg L b" "read_v1_msg L (b @ ext) = read_v1_msg L b"
    unfolding reader_sequential_def by blast+
  with assms(3) show ?thesis by (simp add: rejected_def)
qed

lemma sequential_skippable:
  assumes "reader_sequential (read_v2_msg L)" "reader_sequential (read_v1_msg L)" "skippable L xs rest"
  shows "skippable L xs (rest @ ext)"
  using assms(3) sequential_rejected [OF assms(1,2)] unfolding skippable_def
  by (metis append.assoc)

lemma drained_append:
  assumes "lib_ok L" "reader_sequential (read_v2_msg L)" "reader_sequential (read_v1_msg L)"
  shows "drained L buffer fs b \<Longrightarrow> \<forall>f \<in> set fs. frame_version f = V2 \<Longrightarrow>
    drained L (b @ ext) fs' b' \<Longrightarrow> drained L (buffer @ ext) (fs @ fs') b'"
proof (induction rule: drained.induct)
  case (stop buffer b)
  from stop.hyps obtain skipped where s: "buffer = skipped @ b" "skippable L skipped b"
    by (auto simp: parse_post_def result_at_def)
  have skip: "skippable L skipped (b @ ext)" by (rule sequential_skippable [OF assms(2,3) s(2)])
  have post: "parse_post L (b @ ext) r b'' \<Longrightarrow> parse_post L (buffer @ ext) r b''" for r b''
    using parse_post_skip [OF skip] s(1) by simp
  from stop.prems(2) show ?case
    by (cases rule: drained.cases) (auto intro: post drained.intros)
next
  case (more buffer f b fs b1)
  from more.hyps(1) obtain skipped where s: "buffer = skipped @ raw_bytes f @ b"
      "skippable L skipped (raw_bytes f @ b)" "raw_bytes f @ b \<noteq> []" "hd (raw_bytes f @ b) \<in> STX"
      "frame_at L (raw_bytes f @ b) = Some f"
    by (auto simp: parse_post_def result_at_def)
  have skip: "skippable L skipped (raw_bytes f @ b @ ext)"
    using sequential_skippable [OF assms(2,3) s(2), of ext] by simp
  have "frame_at L (raw_bytes f @ b @ ext) = Some f"
    using sequential_frame [OF assms(1,2) s(5)] more.prems(1) by simp
  moreover have "hd (raw_bytes f @ b @ ext) \<in> STX"
    using s(3,4) by (metis append.assoc hd_append2)
  moreover have "raw_bytes f @ b @ ext \<noteq> []" using s(3) by auto
  ultimately have "result_at L (Some f) (b @ ext) (raw_bytes f @ b @ ext)"
    unfolding result_at_def option.case by (intro conjI refl)
  then have "parse_post L (raw_bytes f @ b @ ext) (Some f) (b @ ext)"
    unfolding parse_post_def by (intro exI [of _ "[]"] exI [of _ "raw_bytes f @ b @ ext"]) simp
  from parse_post_skip [OF skip this] s(1) have "parse_post L (buffer @ ext) (Some f) (b @ ext)" by simp
  moreover have "drained L (b @ ext) (fs @ fs') b'" using more.IH more.prems by simp
  ultimately show ?case by (simp add: drained.more)
qed

section \<open>Properties\<close>

text \<open>
  C10. \<open>parse_next\<close> returns on every buffer without panicking, and it loses nothing: the
  buffer is a skipped part followed by \<open>rest\<close>, where every possible start of a frame in
  the skipped part was rejected by both readers for a reason other than missing input. A returned
  frame is the one at the start of \<open>rest\<close>, carries exactly the bytes consumed, and what follows it
  stays in the buffer. When nothing is returned, the buffer keeps all of \<open>rest\<close>, which is
  empty or begins with a start byte and still waits for input.
\<close>

theorem parse_next_correct:
  assumes "lib_ok L"
  shows "\<exists>r b' skipped rest. parse_next L buffer = Returns (r, b') \<and> buffer = skipped @ rest \<and>
    (\<forall>i < length skipped. skipped ! i \<in> {0xFD, 0xFE} \<longrightarrow> rejected L (drop i buffer)) \<and>
    (case r of
       Some f \<Rightarrow> frame_at L rest = Some f \<and> rest = raw_bytes f @ b' \<and> raw_bytes f \<noteq> [] \<and> hd rest \<in> {0xFD, 0xFE}
     | None \<Rightarrow> rest = b' \<and> (b' = [] \<or> hd b' \<in> {0xFD, 0xFE} \<and> frame_at L b' = None \<and> \<not> rejected L b'))"
proof -
  obtain r b' where r: "parse_next L buffer = Returns (r, b')" "parse_post L buffer r b'"
    using parse_next_post [OF assms, of buffer] by blast
  then obtain skipped rest where d: "buffer = skipped @ rest" "skippable L skipped rest" "result_at L r b' rest"
    unfolding parse_post_def by blast
  have "\<forall>i < length skipped. skipped ! i \<in> {0xFD, 0xFE} \<longrightarrow> rejected L (drop i buffer)"
    using d(1,2) by (simp add: skippable_def)
  moreover have "r = Some f \<Longrightarrow> raw_bytes f \<noteq> []" for f
    using parse_post_Some_length(2) [OF assms] r(2) by blast
  then have "case r of
       Some f \<Rightarrow> frame_at L rest = Some f \<and> rest = raw_bytes f @ b' \<and> raw_bytes f \<noteq> [] \<and> hd rest \<in> {0xFD, 0xFE}
     | None \<Rightarrow> rest = b' \<and> (b' = [] \<or> hd b' \<in> {0xFD, 0xFE} \<and> frame_at L b' = None \<and> \<not> rejected L b')"
    using d(3) unfolding result_at_def by (cases r; simp only: option.case; blast)
  ultimately show ?thesis using r(1) d(1) by blast
qed

text \<open>
  C21. The loop that empties the parser after each read terminates, and the frames' bytes
  followed by the bytes kept are a subsequence of the buffer: no byte is invented, duplicated
  or reordered, and each frame is a contiguous, non-empty piece of the input.
\<close>

theorem drain_terminates:
  assumes "lib_ok L"
  shows "\<exists>fs b'. drain L buffer = Some (Returns (fs, b')) \<and>
    subseq (concat (map raw_bytes fs) @ b') buffer \<and>
    (\<forall>f \<in> set fs. raw_bytes f \<noteq> [] \<and> sublist (raw_bytes f) buffer)"
proof -
  have frames: "drained L buffer fs b' \<Longrightarrow> f \<in> set fs \<Longrightarrow> raw_bytes f \<noteq> [] \<and> sublist (raw_bytes f) buffer"
    for buffer fs b' f
  proof (induction rule: drained.induct)
    case (more buffer g b fs b')
    from more.hyps(1) obtain skipped where s: "buffer = skipped @ raw_bytes g @ b"
      by (auto simp: parse_post_def result_at_def)
    show ?case
    proof (cases "f = g")
      case True
      with s parse_post_Some_length(2) [OF assms more.hyps(1)] show ?thesis
        unfolding sublist_def by blast
    next
      case False
      with more.IH more.prems have f: "raw_bytes f \<noteq> []" "sublist (raw_bytes f) b" by simp_all
      moreover have "sublist b buffer" unfolding sublist_def s
        by (intro exI [of _ "skipped @ raw_bytes g"] exI [of _ "[]"]) simp
      ultimately show ?thesis using sublist_order.order.trans by blast
    qed
  qed simp
  obtain fs b' where "drained L buffer fs b'" using drained_exists [OF assms] by blast
  with drained_drain [OF assms] drained_bytes [OF assms] frames show ?thesis by blast
qed

text \<open>
  Cutting the stream into reads does not change the result: if the frames found in the first
  part are all version 2, then draining the first part, appending the second and draining again
  gives the frames and the remaining bytes of draining both parts at once. A version 1 frame is
  excluded because it is also returned while the version 2 reader still waits for input.
\<close>

lemma drain_chunks:
  assumes "lib_ok L" "reader_sequential (read_v2_msg L)" "reader_sequential (read_v1_msg L)"
    and "drain L first = Some (Returns (fs, b))" "\<forall>f \<in> set fs. frame_version f = V2"
    and "drain L (b @ second) = Some (Returns (fs', b'))"
  shows "drain L (first @ second) = Some (Returns (fs @ fs', b'))"
  using drained_append [OF assms(1-3), of first fs b second fs' b'] assms(4-6)
  by (simp add: drain_iff [OF assms(1)])

text \<open>
  \<open>push\<close> keeps the newest bytes. A chunk no longer than the limit leaves at most
  \<open>MAX_BUFFER_SIZE\<close> bytes, the last ones of the old contents followed by the chunk; and
  while the limit is not exceeded nothing is dropped.
\<close>

lemma push_bounded:
  assumes "length buffer + length data \<le> USIZE_MAX" "length data \<le> MAX_BUFFER_SIZE"
  shows "length (push buffer data) \<le> MAX_BUFFER_SIZE \<and>
    push buffer data = drop (length buffer + length data - MAX_BUFFER_SIZE) (buffer @ data)"
  using assms by (auto simp: push_def saturating_add_exact saturating_sub_def Let_def)

section \<open>A concrete instance of the parameters\<close>

text \<open>
  The hypotheses above can hold: a first-occurrence search and a reader of four-byte frames
  (start byte, system, component, sequence) satisfy all of them. The instance serves the
  examples below only.
\<close>

definition sample_memchr2 :: "byte \<Rightarrow> byte \<Rightarrow> byte list \<Rightarrow> nat option" where
  "sample_memchr2 x y b = find (\<lambda>i. b ! i = x \<or> b ! i = y) [0..<length b]"

definition sample_reader :: "byte \<Rightarrow> mav_reader" where
  "sample_reader stx b =
     (if b = [] then Inl (Io UnexpectedEof)
      else if hd b \<noteq> stx then Inl ParseError
      else if length b < 4 then Inl (Io UnexpectedEof)
      else Inr (\<lparr>system_id = b ! 1, component_id = b ! 2, sequence = b ! 3\<rparr>, OTHER_MESSAGE 0, 4))"

definition sample_lib :: mavlink_lib where
  "sample_lib = \<lparr>memchr2 = sample_memchr2, read_v2_msg = sample_reader 0xFD,
     read_v1_msg = sample_reader 0xFE, msg_id_of = (\<lambda>_. 0)\<rparr>"

lemma sample_memchr2_ok: "memchr2_ok sample_memchr2"
proof -
  have none: "sample_memchr2 x y b = None \<longleftrightarrow> x \<notin> set b \<and> y \<notin> set b" for x y b
    by (auto simp: sample_memchr2_def find_None_iff in_set_conv_nth)
  have some: "sample_memchr2 x y b = Some i \<Longrightarrow> i < length b \<and> b ! i \<in> {x, y} \<and> (\<forall>j < i. b ! j \<notin> {x, y})" for x y b i
    by (auto simp: sample_memchr2_def find_Some_iff)
  from none some show ?thesis unfolding memchr2_ok_def by blast
qed

lemma sample_reader_ok: "reader_ok (sample_reader stx)" "reader_sequential (sample_reader stx)"
proof -
  show "reader_ok (sample_reader stx)"
    by (auto simp: reader_ok_def sample_reader_def split: if_splits)
  show "reader_sequential (sample_reader stx)"
    by (auto simp: reader_sequential_def sample_reader_def eof_result_def is_eof_def nth_append hd_append
        split: if_splits)
qed

lemma sample_lib_ok: "lib_ok sample_lib"
  "reader_sequential (read_v2_msg sample_lib)" "reader_sequential (read_v1_msg sample_lib)"
  by (simp_all add: lib_ok_def sample_lib_def sample_memchr2_ok sample_reader_ok)

lemmas sample_eval = drain.simps parse_next.simps parse_step_def sample_lib_def sample_memchr2_def
  sample_reader_def take_frame_def buf_advance_def buf_split_to_def is_eof_def Let_def

theorem parse_next_correct_witness:
  "\<exists>r b'. parse_next sample_lib [7, 0xFE, 1, 0xFD, 1, 2, 3, 0xFD] = Returns (r, b') \<and> r \<noteq> None"
  using parse_next_correct [OF sample_lib_ok(1), of "[7, 0xFE, 1, 0xFD, 1, 2, 3, 0xFD]"]
  by (auto simp: sample_eval)

theorem drain_terminates_witness:
  "\<exists>fs b'. drain sample_lib [7, 0xFD, 1, 2, 3, 9, 0xFE, 5, 6, 7, 0xFD] = Some (Returns (fs, b')) \<and>
    length fs = 2 \<and> b' = [0xFD] \<and>
    subseq (concat (map raw_bytes fs) @ b') [7, 0xFD, 1, 2, 3, 9, 0xFE, 5, 6, 7, 0xFD]"
proof -
  obtain fs b' where d: "drain sample_lib [7, 0xFD, 1, 2, 3, 9, 0xFE, 5, 6, 7, 0xFD] = Some (Returns (fs, b'))"
      "subseq (concat (map raw_bytes fs) @ b') [7, 0xFD, 1, 2, 3, 9, 0xFE, 5, 6, 7, 0xFD]"
    using drain_terminates [OF sample_lib_ok(1)] by metis
  then have "length fs = 2 \<and> b' = [0xFD]" by (auto simp: sample_eval)
  with d show ?thesis by blast
qed

end
