(* ===== verification/Hash_Tables.thy ===== *)
theory Hash_Tables
  imports Prelude "HOL-Library.AList"
begin

text \<open>
  \<open>HashMap\<close> and \<open>HashSet\<close> of the Rust standard library (the \<open>ahash\<close> aliases only change
  the hash function): a map is the list of its entries with distinct keys and a set is the list of
  its elements without repetition. The order of the list stands for the unspecified iteration
  order. Also the interface \<open>ttl_table\<close> of tables whose entries carry a time stamp and
  expire, which the routing table and the UDP client table share.
\<close>

section \<open>Sets\<close>

text \<open>\<open>insert\<close> reports whether the element was new.\<close>

definition hset_insert :: "'a \<Rightarrow> 'a list \<Rightarrow> bool \<times> 'a list" where
  "hset_insert x s = (if x \<in> set s then (False, s) else (True, s @ [x]))"

lemma set_hset_insert [simp, table_simps]: "set (snd (hset_insert x s)) = insert x (set s)"
  by (auto simp: hset_insert_def)

lemma fst_hset_insert [simp, table_simps]: "fst (hset_insert x s) \<longleftrightarrow> x \<notin> set s"
  by (simp add: hset_insert_def)

lemma distinct_hset_insert [simp]: "distinct (snd (hset_insert x s)) \<longleftrightarrow> distinct s"
  by (simp add: hset_insert_def)

section \<open>Maps\<close>

type_synonym ('k, 'v) hmap = "('k \<times> 'v) list"

abbreviation hmap_get :: "('k, 'v) hmap \<Rightarrow> 'k \<Rightarrow> 'v option" where
  "hmap_get \<equiv> map_of"

definition hmap_insert :: "'k \<Rightarrow> 'v \<Rightarrow> ('k, 'v) hmap \<Rightarrow> ('k, 'v) hmap" where
  "hmap_insert = AList.update"

definition hmap_remove :: "'k \<Rightarrow> ('k, 'v) hmap \<Rightarrow> ('k, 'v) hmap" where
  "hmap_remove = AList.delete"

definition hmap_retain :: "('k \<Rightarrow> 'v \<Rightarrow> bool) \<Rightarrow> ('k, 'v) hmap \<Rightarrow> ('k, 'v) hmap" where
  "hmap_retain P m = filter (\<lambda>(k, v). P k v) m"

definition hmap_ok :: "('k, 'v) hmap \<Rightarrow> bool" where
  "hmap_ok m \<longleftrightarrow> distinct (map fst m)"

lemma hmap_ok_Nil [simp, invar_intros]: "hmap_ok []"
  by (simp add: hmap_ok_def)

lemma hmap_ok_insert [simp, invar_intros]: "hmap_ok m \<Longrightarrow> hmap_ok (hmap_insert k v m)"
  by (simp add: hmap_ok_def hmap_insert_def distinct_update)

lemma hmap_ok_remove [simp, invar_intros]: "hmap_ok m \<Longrightarrow> hmap_ok (hmap_remove k m)"
  by (simp add: hmap_ok_def hmap_remove_def distinct_delete)

lemma hmap_ok_retain [simp, invar_intros]: "hmap_ok m \<Longrightarrow> hmap_ok (hmap_retain P m)"
  by (simp add: hmap_ok_def hmap_retain_def distinct_map_fst_filter)

lemma hmap_get_insert [simp, table_simps]: "hmap_get (hmap_insert k v m) = (hmap_get m)(k \<mapsto> v)"
  by (simp add: hmap_insert_def update_conv' fun_eq_iff)

lemma hmap_get_remove [simp, table_simps]: "hmap_get (hmap_remove k m) = (hmap_get m)(k := None)"
  by (simp add: hmap_remove_def delete_conv' fun_eq_iff)

lemma hmap_get_retain [table_simps]:
  "hmap_ok m \<Longrightarrow> hmap_get (hmap_retain P m) k =
     (case hmap_get m k of None \<Rightarrow> None | Some v \<Rightarrow> if P k v then Some v else None)"
  by (simp add: hmap_retain_def hmap_ok_def map_of_filter_distinct split: option.splits)

lemma keys_hmap_insert [simp]: "fst ` set (hmap_insert k v m) = insert k (fst ` set m)"
  by (simp add: hmap_insert_def dom_update)

lemma keys_hmap_remove [simp]: "fst ` set (hmap_remove k m) = fst ` set m - {k}"
  by (auto simp: hmap_remove_def AList.delete_eq)

lemma set_hmap_insert:
  "hmap_ok m \<Longrightarrow> set (hmap_insert k v m) = insert (k, v) {(k', v') \<in> set m. k' \<noteq> k}"
  by (induction m) (auto simp: hmap_insert_def hmap_ok_def image_iff)

lemma set_hmap_retain: "set (hmap_retain P m) = {(k, v) \<in> set m. P k v}"
  by (auto simp: hmap_retain_def)

lemma hmap_get_set: "hmap_ok m \<Longrightarrow> (k, v) \<in> set m \<longleftrightarrow> hmap_get m k = Some v"
  by (simp add: hmap_ok_def map_of_eq_Some_iff)

lemma hmap_length: "hmap_ok m \<Longrightarrow> length m = card (dom (hmap_get m))"
  using distinct_card [of "map fst m"] by (simp add: hmap_ok_def dom_map_of_conv_image_fst)

section \<open>Counting entries\<close>

definition count_entries :: "('v \<Rightarrow> bool) \<Rightarrow> ('k, 'v) hmap \<Rightarrow> nat" where
  "count_entries P m = length (filter (\<lambda>kv. P (snd kv)) m)"

lemma count_entries_le: "count_entries P m \<le> length m"
  by (simp add: count_entries_def)

lemma count_entries_Nil [simp]: "count_entries P [] = 0"
  by (simp add: count_entries_def)

lemma count_entries_Cons [simp]:
  "count_entries P (kv # m) = (if P (snd kv) then 1 else 0) + count_entries P m"
  by (simp add: count_entries_def)

lemma count_entries_insert:
  "hmap_ok m \<Longrightarrow> count_entries P (hmap_insert k v m) + (case hmap_get m k of None \<Rightarrow> 0 | Some w \<Rightarrow> if P w then 1 else 0)
     = count_entries P m + (if P v then 1 else 0)"
proof (induction m)
  case Nil
  then show ?case by (simp add: hmap_insert_def)
next
  case (Cons kw m)
  then have "hmap_ok m" by (simp add: hmap_ok_def)
  with Cons show ?case
    by (cases kw) (auto simp: hmap_insert_def hmap_ok_def map_of_eq_None_iff split: option.splits)
qed

lemma count_entries_remove:
  "hmap_ok m \<Longrightarrow> count_entries P (hmap_remove k m) + (case hmap_get m k of None \<Rightarrow> 0 | Some w \<Rightarrow> if P w then 1 else 0)
     = count_entries P m"
proof (induction m)
  case Nil
  then show ?case by (simp add: hmap_remove_def)
next
  case (Cons kw m)
  then have ok: "hmap_ok m" by (simp add: hmap_ok_def)
  show ?case
  proof (cases "fst kw = k")
    case True
    with Cons.prems have "k \<notin> fst ` set m" by (auto simp: hmap_ok_def)
    then have "hmap_remove k m = m" "hmap_get m k = None"
      by (simp_all add: hmap_remove_def map_of_eq_None_iff)
    with True show ?thesis by (cases kw) (simp add: hmap_remove_def)
  next
    case False
    with Cons.IH [OF ok] show ?thesis by (cases kw) (auto simp: hmap_remove_def)
  qed
qed

lemma count_entries_split:
  "count_entries P (hmap_retain Q m) + count_entries P (hmap_retain (\<lambda>k v. \<not> Q k v) m) = count_entries P m"
  by (induction m) (auto simp: hmap_retain_def)

section \<open>Tables with a time to live\<close>

text \<open>
  \<open>expire now ttl\<close> drops the entries whose age \<open>now - stamp\<close> does not satisfy
  \<open>young age ttl\<close>. The routing table keeps an age of exactly the limit, the UDP client table
  drops it, so the comparison is a parameter.
\<close>

locale ttl_table =
  fixes stamp :: "'m \<Rightarrow> 'k \<Rightarrow> instant option"
    and expire :: "instant \<Rightarrow> duration \<Rightarrow> 'm \<Rightarrow> 'm"
    and young :: "duration \<Rightarrow> duration \<Rightarrow> bool"
    and invar :: "'m \<Rightarrow> bool"
  assumes stamp_expire: "invar m \<Longrightarrow> stamp (expire now ttl m) k =
      (case stamp m k of None \<Rightarrow> None | Some t \<Rightarrow> if young (duration_since now t) ttl then Some t else None)"
    and invar_expire: "invar m \<Longrightarrow> invar (expire now ttl m)"
    and young_antimono: "a \<le> b \<Longrightarrow> young b ttl \<Longrightarrow> young a ttl"
begin

lemma expire_idem: "invar m \<Longrightarrow> stamp (expire now ttl (expire now ttl m)) = stamp (expire now ttl m)"
  by (auto simp: stamp_expire invar_expire fun_eq_iff split: option.splits)

text \<open>Expiring early and again later is the same as expiring later only.\<close>

lemma expire_absorb:
  assumes "invar m" "now \<le> later"
  shows "stamp (expire later ttl (expire now ttl m)) = stamp (expire later ttl m)"
proof
  fix k
  have "young (duration_since later t) ttl \<Longrightarrow> young (duration_since now t) ttl" for t
    using assms(2) young_antimono [of "duration_since now t" "duration_since later t"]
    by (simp add: duration_since_def diff_le_mono)
  then show "stamp (expire later ttl (expire now ttl m)) k = stamp (expire later ttl m) k"
    using assms(1) by (auto simp: stamp_expire invar_expire split: option.splits)
qed

lemma expire_fresh:
  "invar m \<Longrightarrow> stamp m k = Some t \<Longrightarrow> young (duration_since now t) ttl \<Longrightarrow> stamp (expire now ttl m) k = Some t"
  by (simp add: stamp_expire)

lemma expire_only_young:
  "invar m \<Longrightarrow> stamp (expire now ttl m) k = Some t \<Longrightarrow> stamp m k = Some t \<and> young (duration_since now t) ttl"
  by (auto simp: stamp_expire split: option.splits if_splits)

end

end
