(* ===== verification/Routing_Shard.thy ===== *)
theory Routing_Shard
  imports Messages Hash_Tables
begin

text \<open>
  One shard of the routing table (\<open>src/routing/shard.rs\<close>, and the body of
  \<open>RoutingTable::update\<close> in \<open>src/routing/table.rs\<close>, which works on one shard under its write
  lock). The main results: the incremental per-endpoint counts are exactly the number of entries an
  endpoint occurs in, and the capacity limits are never reached because a shard can hold at
  most 16 systems and 4096 routes.

  \<open>Instant::now()\<close> inside \<open>shard_prune\<close> is the argument \<open>clock\<close>.
\<close>

section \<open>State\<close>

definition SHARD_COUNT :: nat where "SHARD_COUNT = 16"
definition SHARD_MASK :: nat where "SHARD_MASK = SHARD_COUNT - 1"
definition MAX_ROUTES_PER_SHARD :: nat where "MAX_ROUTES_PER_SHARD = 100000 div SHARD_COUNT"
definition MAX_SYSTEMS_PER_SHARD :: nat where "MAX_SYSTEMS_PER_SHARD = 1000 div SHARD_COUNT"

record route_entry =
  endpoints :: "endpoint_id list"
  last_seen :: instant

record shard =
  routes :: "(u8 \<times> u8, route_entry) hmap"
  sys_routes :: "(u8, route_entry) hmap"
  endpoint_counts :: "(endpoint_id, nat) hmap"

definition empty_shard :: shard where
  "empty_shard = \<lparr>routes = [], sys_routes = [], endpoint_counts = []\<rparr>"

section \<open>Counts\<close>

text \<open>\<open>entry(ep).or_insert(0)\<close> followed by a saturating increment.\<close>

definition incr_count :: "endpoint_id \<Rightarrow> (endpoint_id, nat) hmap \<Rightarrow> (endpoint_id, nat) hmap" where
  "incr_count ep m =
     hmap_insert ep (saturating_add (case hmap_get m ep of None \<Rightarrow> 0 | Some c \<Rightarrow> c) 1) m"

text \<open>Decrement an occupied entry and remove it when it reaches zero.\<close>

definition sub_count :: "nat \<Rightarrow> endpoint_id \<Rightarrow> (endpoint_id, nat) hmap \<Rightarrow> (endpoint_id, nat) hmap" where
  "sub_count n ep m =
     (case hmap_get m ep of
        None \<Rightarrow> m
      | Some c \<Rightarrow> let current = saturating_sub c n in
          if current = 0 then hmap_remove ep m else hmap_insert ep current m)"

section \<open>Pruning\<close>

definition entry_expired :: "instant \<Rightarrow> duration \<Rightarrow> route_entry \<Rightarrow> bool" where
  "entry_expired now max_age e \<longleftrightarrow> duration_since now (last_seen e) > max_age"

text \<open>\<open>retain\<close> with a closure that counts the endpoints of the expired entries in \<open>removed\<close>.\<close>

fun retain_live ::
    "instant \<Rightarrow> duration \<Rightarrow> ('k, route_entry) hmap \<Rightarrow> (endpoint_id, nat) hmap \<Rightarrow>
     ('k, route_entry) hmap \<times> (endpoint_id, nat) hmap" where
  "retain_live now max_age [] removed = ([], removed)"
| "retain_live now max_age ((k, e) # m) removed =
     (if entry_expired now max_age e
      then retain_live now max_age m (fold incr_count (endpoints e) removed)
      else (let (m', removed') = retain_live now max_age m removed in ((k, e) # m', removed')))"

definition shard_prune :: "instant \<Rightarrow> duration \<Rightarrow> shard \<Rightarrow> shard" where
  "shard_prune now max_age s =
     (let (routes', removed1) = retain_live now max_age (routes s) [];
          (sys_routes', removed2) = retain_live now max_age (sys_routes s) removed1
      in s\<lparr>routes := routes', sys_routes := sys_routes',
           endpoint_counts := fold (\<lambda>(ep, n). sub_count n ep) removed2 (endpoint_counts s)\<rparr>)"

section \<open>Removing the oldest system\<close>

text \<open>\<open>min_by_key\<close> returns the first of several minimal elements.\<close>

fun oldest_entry :: "(u8, route_entry) hmap \<Rightarrow> (u8 \<times> route_entry) option" where
  "oldest_entry [] = None"
| "oldest_entry (x # xs) =
     (case oldest_entry xs of
        None \<Rightarrow> Some x
      | Some y \<Rightarrow> if last_seen (snd x) \<le> last_seen (snd y) then Some x else Some y)"

fun retain_other_systems ::
    "u8 \<Rightarrow> (u8 \<times> u8, route_entry) hmap \<Rightarrow> (endpoint_id, nat) hmap \<Rightarrow>
     (u8 \<times> u8, route_entry) hmap \<times> (endpoint_id, nat) hmap" where
  "retain_other_systems oldest [] counts = ([], counts)"
| "retain_other_systems oldest ((k, e) # m) counts =
     (if fst k = oldest
      then retain_other_systems oldest m (fold (sub_count 1) (endpoints e) counts)
      else (let (m', counts') = retain_other_systems oldest m counts in ((k, e) # m', counts')))"

definition shard_remove_oldest_system :: "shard \<Rightarrow> shard" where
  "shard_remove_oldest_system s =
     (case oldest_entry (sys_routes s) of
        None \<Rightarrow> s
      | Some (oldest, _) \<Rightarrow>
          let counts1 = (case hmap_get (sys_routes s) oldest of
                None \<Rightarrow> endpoint_counts s
              | Some e \<Rightarrow> fold (sub_count 1) (endpoints e) (endpoint_counts s));
              (routes', counts2) = retain_other_systems oldest (routes s) counts1
          in s\<lparr>routes := routes', sys_routes := hmap_remove oldest (sys_routes s), endpoint_counts := counts2\<rparr>)"

section \<open>Recording an observation\<close>

text \<open>
  \<open>entry(k).and_modify(..).or_insert_with(..)\<close>: the new entry, and whether the endpoint is new
  in it.
\<close>

definition observe_entry :: "endpoint_id \<Rightarrow> instant \<Rightarrow> route_entry option \<Rightarrow> bool \<times> route_entry" where
  "observe_entry ep now old =
     (case old of
        Some e \<Rightarrow> let (is_new, eps) = hset_insert ep (endpoints e) in (is_new, e\<lparr>endpoints := eps, last_seen := now\<rparr>)
      | None \<Rightarrow> (True, \<lparr>endpoints = [ep], last_seen = now\<rparr>))"

definition enforce_capacity :: "instant \<Rightarrow> shard \<Rightarrow> shard" where
  "enforce_capacity clock s =
     (let s1 = (if length (routes s) \<ge> MAX_ROUTES_PER_SHARD then shard_prune clock (from_secs 60) s else s)
      in if length (sys_routes s1) \<ge> MAX_SYSTEMS_PER_SHARD then shard_remove_oldest_system s1 else s1)"

definition observe_route :: "endpoint_id \<Rightarrow> u8 \<Rightarrow> u8 \<Rightarrow> instant \<Rightarrow> shard \<Rightarrow> shard" where
  "observe_route ep sysid compid now s =
     (let (increment, e) = observe_entry ep now (hmap_get (routes s) (sysid, compid));
          s1 = s\<lparr>routes := hmap_insert (sysid, compid) e (routes s)\<rparr>
      in if increment then s1\<lparr>endpoint_counts := incr_count ep (endpoint_counts s1)\<rparr> else s1)"

definition observe_system :: "endpoint_id \<Rightarrow> u8 \<Rightarrow> instant \<Rightarrow> shard \<Rightarrow> shard" where
  "observe_system ep sysid now s =
     (let (increment, e) = observe_entry ep now (hmap_get (sys_routes s) sysid);
          s1 = s\<lparr>sys_routes := hmap_insert sysid e (sys_routes s)\<rparr>
      in if increment then s1\<lparr>endpoint_counts := incr_count ep (endpoint_counts s1)\<rparr> else s1)"

definition shard_update :: "instant \<Rightarrow> endpoint_id \<Rightarrow> u8 \<Rightarrow> u8 \<Rightarrow> instant \<Rightarrow> shard \<Rightarrow> shard" where
  "shard_update clock ep sysid compid now s =
     observe_system ep sysid now (observe_route ep sysid compid now (enforce_capacity clock s))"

section \<open>Well-formed shards\<close>

definition entry_ok :: "route_entry \<Rightarrow> bool" where
  "entry_ok e \<longleftrightarrow> distinct (endpoints e) \<and> endpoints e \<noteq> []"

definition sys_in_shard :: "nat \<Rightarrow> u8 \<Rightarrow> bool" where
  "sys_in_shard i sysid \<longleftrightarrow> unat sysid mod SHARD_COUNT = i"

definition uses :: "endpoint_id \<Rightarrow> route_entry \<Rightarrow> bool" where
  "uses ep e \<longleftrightarrow> ep \<in> set (endpoints e)"

text \<open>In how many entries an endpoint occurs, and that the counts say exactly that.\<close>

definition presence :: "shard \<Rightarrow> endpoint_id \<Rightarrow> nat" where
  "presence s ep = count_entries (uses ep) (routes s) + count_entries (uses ep) (sys_routes s)"

definition positive :: "nat \<Rightarrow> nat option" where
  "positive n = (if n = 0 then None else Some n)"

definition counts_exact :: "shard \<Rightarrow> bool" where
  "counts_exact s \<longleftrightarrow> (\<forall>ep. hmap_get (endpoint_counts s) ep = positive (presence s ep))"

definition shard_ok :: "nat \<Rightarrow> shard \<Rightarrow> bool" where
  "shard_ok i s \<longleftrightarrow> hmap_ok (routes s) \<and> hmap_ok (sys_routes s) \<and> hmap_ok (endpoint_counts s) \<and>
     (\<forall>(k, e) \<in> set (routes s). sys_in_shard i (fst k) \<and> entry_ok e) \<and>
     (\<forall>(k, e) \<in> set (sys_routes s). sys_in_shard i k \<and> entry_ok e) \<and>
     counts_exact s"

lemma shard_ok_empty: "shard_ok i empty_shard"
  by (simp add: shard_ok_def empty_shard_def counts_exact_def presence_def positive_def)

section \<open>Capacity\<close>

lemma card_sys_in_shard: "card {s :: u8. sys_in_shard i s} \<le> 16"
proof -
  have inj: "inj_on (\<lambda>s. unat s div 16) {s :: u8. sys_in_shard i s}"
  proof (rule inj_onI)
    fix x y :: u8
    assume "x \<in> {s. sys_in_shard i s}" "y \<in> {s. sys_in_shard i s}" and d: "unat x div 16 = unat y div 16"
    then have "unat x mod 16 = unat y mod 16" by (simp add: sys_in_shard_def SHARD_COUNT_def)
    with d have "unat x = unat y" by (metis div_mult_mod_eq)
    then show "x = y" by (simp add: word_unat_eq_iff)
  qed
  have "(\<lambda>s. unat s div 16) ` {s :: u8. sys_in_shard i s} \<subseteq> {..<16}"
  proof
    fix n assume "n \<in> (\<lambda>s. unat s div 16) ` {s :: u8. sys_in_shard i s}"
    then obtain s :: u8 where "n = unat s div 16" by blast
    moreover have "unat s < 256" by (rule unat_u8_less)
    ultimately show "n \<in> {..<16}" by (simp add: div_less_iff_less_mult)
  qed
  from card_inj_on_le [OF inj this] show ?thesis by simp
qed

lemma shard_size:
  assumes "shard_ok i s"
  shows "length (sys_routes s) \<le> 16" "length (routes s) \<le> 4096"
proof -
  have fin: "finite A" for A :: "'a::finite set" by simp
  have "length (sys_routes s) = card (fst ` set (sys_routes s))"
    using assms distinct_card [of "map fst (sys_routes s)"] by (simp add: shard_ok_def hmap_ok_def)
  also have "\<dots> \<le> card {s :: u8. sys_in_shard i s}"
    using assms by (intro card_mono) (auto simp: shard_ok_def)
  finally show "length (sys_routes s) \<le> 16" using card_sys_in_shard le_trans by blast
  have "length (routes s) = card (fst ` set (routes s))"
    using assms distinct_card [of "map fst (routes s)"] by (simp add: shard_ok_def hmap_ok_def)
  also have "\<dots> \<le> card ({s :: u8. sys_in_shard i s} \<times> (UNIV :: u8 set))"
    using assms by (intro card_mono) (auto simp: shard_ok_def)
  also have "\<dots> \<le> 16 * 256" using card_sys_in_shard [of i] by (simp add: card_cartesian_product card_word)
  finally show "length (routes s) \<le> 4096" by simp
qed

lemma below_capacity:
  assumes "shard_ok i s"
  shows "length (routes s) < MAX_ROUTES_PER_SHARD" "length (sys_routes s) < MAX_SYSTEMS_PER_SHARD"
  using shard_size [OF assms]
  by (simp_all add: MAX_ROUTES_PER_SHARD_def MAX_SYSTEMS_PER_SHARD_def SHARD_COUNT_def)

lemma enforce_capacity_idle: "shard_ok i s \<Longrightarrow> enforce_capacity clock s = s"
  using below_capacity [of i s] by (simp add: enforce_capacity_def Let_def)

lemma presence_bound: "shard_ok i s \<Longrightarrow> presence s ep \<le> 4112"
  using shard_size [of i s] count_entries_le [of "uses ep" "routes s"] count_entries_le [of "uses ep" "sys_routes s"]
  by (simp add: presence_def)

section \<open>Counting operations\<close>

lemma hmap_ok_incr_count [simp]: "hmap_ok m \<Longrightarrow> hmap_ok (incr_count ep m)"
  by (simp add: incr_count_def)

lemma hmap_ok_sub_count [simp]: "hmap_ok m \<Longrightarrow> hmap_ok (sub_count n ep m)"
  by (simp add: sub_count_def Let_def split: option.splits)

lemma hmap_ok_fold_incr [simp]: "hmap_ok m \<Longrightarrow> hmap_ok (fold incr_count eps m)"
  by (induction eps arbitrary: m) simp_all

lemma hmap_ok_fold_sub [simp]: "hmap_ok m \<Longrightarrow> hmap_ok (fold (sub_count n) eps m)"
  by (induction eps arbitrary: m) simp_all

definition count_of :: "(endpoint_id, nat) hmap \<Rightarrow> endpoint_id \<Rightarrow> nat" where
  "count_of m ep = (case hmap_get m ep of None \<Rightarrow> 0 | Some c \<Rightarrow> c)"

lemma count_of_positive: "hmap_get m ep = positive p \<Longrightarrow> count_of m ep = p"
  by (simp add: count_of_def positive_def split: if_splits)

lemma count_of_incr:
  "count_of m ep' < USIZE_MAX \<Longrightarrow> count_of (incr_count ep m) ep' = count_of m ep' + (if ep' = ep then 1 else 0)"
  by (auto simp: count_of_def incr_count_def saturating_add_def split: option.splits)

lemma get_incr_positive:
  "hmap_get m ep' = positive p \<Longrightarrow> p < USIZE_MAX \<Longrightarrow>
   hmap_get (incr_count ep m) ep' = positive (p + (if ep' = ep then 1 else 0))"
  by (auto simp: incr_count_def positive_def saturating_add_def split: option.splits if_splits)

lemma get_sub_positive:
  "hmap_get m ep' = positive p \<Longrightarrow>
   hmap_get (sub_count n ep m) ep' = positive (p - (if ep' = ep then n else 0))"
  by (auto simp: sub_count_def positive_def saturating_sub_def Let_def split: option.splits if_splits)

lemma count_of_fold_incr:
  "distinct eps \<Longrightarrow> count_of m ep < USIZE_MAX \<Longrightarrow>
   count_of (fold incr_count eps m) ep = count_of m ep + (if ep \<in> set eps then 1 else 0)"
proof (induction eps arbitrary: m)
  case (Cons e eps)
  show ?case
  proof (cases "e = ep")
    case True
    have other: "x \<notin> set xs \<Longrightarrow> count_of (fold incr_count xs n) x = count_of n x" for x xs n
      by (induction xs arbitrary: n) (auto simp: count_of_def incr_count_def)
    from True Cons.prems show ?thesis by (simp add: other count_of_incr)
  next
    case False
    with Cons show ?thesis by (simp add: count_of_incr)
  qed
qed simp

lemma get_fold_sub_one:
  "distinct eps \<Longrightarrow> hmap_get m ep = positive p \<Longrightarrow>
   hmap_get (fold (sub_count 1) eps m) ep = positive (p - (if ep \<in> set eps then 1 else 0))"
proof (induction eps arbitrary: m p)
  case (Cons e eps)
  from Cons.prems(2) have "hmap_get (sub_count 1 e m) ep = positive (p - (if ep = e then 1 else 0))"
    by (rule get_sub_positive)
  from Cons.IH [OF _ this] Cons.prems(1) show ?case by (auto split: if_splits)
qed simp

lemma get_fold_sub_removed:
  assumes "hmap_ok removed" "hmap_get m ep = positive p"
  shows "hmap_get (fold (\<lambda>(ep, n). sub_count n ep) removed m) ep = positive (p - count_of removed ep)"
  using assms
proof (induction removed arbitrary: m p)
  case Nil
  then show ?case by (simp add: count_of_def)
next
  case (Cons en removed)
  obtain e n where en: "en = (e, n)" by force
  from Cons.prems en have "hmap_ok removed" "e \<notin> fst ` set removed" by (auto simp: hmap_ok_def)
  then have e: "hmap_get removed e = None" by (simp add: map_of_eq_None_iff)
  from Cons.prems(2) have "hmap_get (sub_count n e m) ep = positive (p - (if ep = e then n else 0))"
    by (rule get_sub_positive)
  from Cons.IH [OF \<open>hmap_ok removed\<close> this] e show ?case by (auto simp: en count_of_def)
qed

lemma hmap_ok_fold_sub_removed [simp]:
  "hmap_ok m \<Longrightarrow> hmap_ok (fold (\<lambda>(ep, n). sub_count n ep) removed m)"
  by (induction removed arbitrary: m) (auto simp: split_beta)

section \<open>The prune passes\<close>

lemma retain_live_fst: "fst (retain_live now age m removed) = hmap_retain (\<lambda>_ e. \<not> entry_expired now age e) m"
  by (induction now age m removed rule: retain_live.induct) (auto simp: hmap_retain_def split_beta)

lemma retain_live_ok: "hmap_ok removed \<Longrightarrow> hmap_ok (snd (retain_live now age m removed))"
  by (induction now age m removed rule: retain_live.induct) (auto simp: split_beta)

lemma retain_live_count:
  assumes "\<forall>(k, e) \<in> set m. entry_ok e" "count_of removed ep + length m \<le> USIZE_MAX"
  shows "count_of (snd (retain_live now age m removed)) ep
    = count_of removed ep + count_entries (uses ep) (hmap_retain (\<lambda>_ e. entry_expired now age e) m)"
  using assms
proof (induction now age m removed rule: retain_live.induct)
  case (2 now age k e m removed)
  have "count_of (fold incr_count (endpoints e) removed) ep = count_of removed ep + (if uses ep e then 1 else 0)"
    using 2(3,4) by (simp add: count_of_fold_incr entry_ok_def uses_def)
  with 2 show ?case by (auto simp: hmap_retain_def split_beta)
qed (simp add: hmap_retain_def)

lemma shard_prune_simps:
  "routes (shard_prune now age s) = hmap_retain (\<lambda>_ e. \<not> entry_expired now age e) (routes s)"
  "sys_routes (shard_prune now age s) = hmap_retain (\<lambda>_ e. \<not> entry_expired now age e) (sys_routes s)"
  by (simp_all add: shard_prune_def split_beta retain_live_fst)

lemma shard_ok_prune [invar_intros]:
  assumes "shard_ok i s"
  shows "shard_ok i (shard_prune now age s)"
proof -
  let ?rem = "snd (retain_live now age (sys_routes s) (snd (retain_live now age (routes s) [])))"
  have ok: "hmap_ok (routes s)" "hmap_ok (sys_routes s)" "hmap_ok (endpoint_counts s)"
    "\<forall>(k, e) \<in> set (routes s). entry_ok e" "\<forall>(k, e) \<in> set (sys_routes s). entry_ok e" "counts_exact s"
    using assms by (auto simp: shard_ok_def)
  have counts: "endpoint_counts (shard_prune now age s) = fold (\<lambda>(ep, n). sub_count n ep) ?rem (endpoint_counts s)"
    by (simp add: shard_prune_def split_beta)
  have removed: "count_of ?rem ep + presence (shard_prune now age s) ep = presence s ep" for ep
  proof -
    have "count_of (snd (retain_live now age (routes s) [])) ep
        = count_entries (uses ep) (hmap_retain (\<lambda>_ e. entry_expired now age e) (routes s))"
      using retain_live_count [OF ok(4), of "[]" ep] shard_size [OF assms]
      by (simp add: count_of_def USIZE_MAX_def)
    moreover have "count_entries (uses ep) (hmap_retain (\<lambda>_ e. entry_expired now age e) (routes s)) \<le> length (routes s)"
      by (rule le_trans [OF count_entries_le]) (simp add: hmap_retain_def)
    ultimately have "count_of ?rem ep = count_entries (uses ep) (hmap_retain (\<lambda>_ e. entry_expired now age e) (routes s))
        + count_entries (uses ep) (hmap_retain (\<lambda>_ e. entry_expired now age e) (sys_routes s))"
      using retain_live_count [OF ok(5), of "snd (retain_live now age (routes s) [])" ep] shard_size [OF assms]
      by (simp add: USIZE_MAX_def)
    then show ?thesis
      using count_entries_split [of "uses ep" "\<lambda>_ e. entry_expired now age e" "routes s"]
        count_entries_split [of "uses ep" "\<lambda>_ e. entry_expired now age e" "sys_routes s"]
      by (simp add: presence_def shard_prune_simps)
  qed
  have "counts_exact (shard_prune now age s)" unfolding counts_exact_def
  proof
    fix ep
    have "hmap_get (endpoint_counts s) ep = positive (presence s ep)" using ok(6) by (simp add: counts_exact_def)
    moreover have "hmap_ok ?rem" by (simp add: retain_live_ok)
    ultimately have "hmap_get (endpoint_counts (shard_prune now age s)) ep = positive (presence s ep - count_of ?rem ep)"
      unfolding counts by (intro get_fold_sub_removed)
    with removed [of ep] show "hmap_get (endpoint_counts (shard_prune now age s)) ep
        = positive (presence (shard_prune now age s) ep)" by (metis diff_add_inverse)
  qed
  with assms show ?thesis
    by (auto simp: shard_ok_def shard_prune_simps counts set_hmap_retain)
qed

section \<open>Evicting the oldest system\<close>

lemma oldest_entry_None: "oldest_entry m = None \<longleftrightarrow> m = []"
  by (cases m) (auto split: option.splits)

lemma oldest_entry_least:
  "oldest_entry m = Some (k, e) \<Longrightarrow> (k, e) \<in> set m \<and> (\<forall>(k', e') \<in> set m. last_seen e \<le> last_seen e')"
proof (induction m arbitrary: k e)
  case (Cons x m)
  show ?case
  proof (cases "oldest_entry m")
    case None
    with Cons.prems show ?thesis by (simp add: oldest_entry_None)
  next
    case (Some y)
    obtain k' e' where y: "y = (k', e')" by force
    from Cons.IH Some y have "(k', e') \<in> set m" "\<forall>(k'', e'') \<in> set m. last_seen e' \<le> last_seen e''" by blast+
    with Cons.prems Some y show ?thesis by (auto split: if_splits intro: le_trans)
  qed
qed simp

lemma retain_other_fst:
  "fst (retain_other_systems old m counts) = hmap_retain (\<lambda>k _. fst k \<noteq> old) m"
  by (induction old m counts rule: retain_other_systems.induct) (auto simp: hmap_retain_def split_beta)

lemma retain_other_ok: "hmap_ok counts \<Longrightarrow> hmap_ok (snd (retain_other_systems old m counts))"
  by (induction old m counts rule: retain_other_systems.induct) (auto simp: split_beta)

lemma retain_other_get:
  assumes "\<forall>(k, e) \<in> set m. entry_ok e" "hmap_get counts ep = positive p"
  shows "hmap_get (snd (retain_other_systems old m counts)) ep
    = positive (p - count_entries (uses ep) (hmap_retain (\<lambda>k _. fst k = old) m))"
  using assms
proof (induction old m counts arbitrary: p rule: retain_other_systems.induct)
  case (2 old k e m counts)
  show ?case
  proof (cases "fst k = old")
    case True
    have "hmap_get (fold (sub_count 1) (endpoints e) counts) ep = positive (p - (if uses ep e then 1 else 0))"
      unfolding uses_def by (rule get_fold_sub_one) (use 2(3,4) in \<open>simp_all add: entry_ok_def\<close>)
    with 2(1) [OF True _ this] 2(3) True show ?thesis by (simp add: hmap_retain_def)
  next
    case False
    with 2 show ?thesis by (simp add: hmap_retain_def split_beta)
  qed
qed (simp add: hmap_retain_def)

lemma shard_remove_oldest_simps:
  assumes "oldest_entry (sys_routes s) = Some (old, e)"
  shows "routes (shard_remove_oldest_system s) = hmap_retain (\<lambda>k _. fst k \<noteq> old) (routes s)"
    "sys_routes (shard_remove_oldest_system s) = hmap_remove old (sys_routes s)"
  using assms by (simp_all add: shard_remove_oldest_system_def split_beta retain_other_fst Let_def)

lemma set_hmap_remove: "set (hmap_remove k m) = {(k', v) \<in> set m. k' \<noteq> k}"
  by (auto simp: hmap_remove_def AList.delete_eq)

lemma shard_ok_remove_oldest [invar_intros]:
  assumes "shard_ok i s"
  shows "shard_ok i (shard_remove_oldest_system s)"
proof (cases "oldest_entry (sys_routes s)")
  case None
  with assms show ?thesis by (simp add: shard_remove_oldest_system_def)
next
  case (Some oe)
  obtain old e where oe: "oe = (old, e)" by force
  let ?t = "shard_remove_oldest_system s"
  have ok: "hmap_ok (routes s)" "hmap_ok (sys_routes s)" "hmap_ok (endpoint_counts s)"
    "\<forall>(k, e) \<in> set (routes s). entry_ok e" "\<forall>(k, e) \<in> set (sys_routes s). entry_ok e" "counts_exact s"
    using assms by (auto simp: shard_ok_def)
  have get: "hmap_get (sys_routes s) old = Some e" "entry_ok e"
    using oldest_entry_least [OF Some [unfolded oe]] ok(2,5) by (auto simp: hmap_get_set [symmetric])
  note simps = shard_remove_oldest_simps [OF Some [unfolded oe]]
  have counts: "endpoint_counts ?t
      = snd (retain_other_systems old (routes s) (fold (sub_count 1) (endpoints e) (endpoint_counts s)))"
    using Some oe get(1) by (simp add: shard_remove_oldest_system_def split_beta Let_def)
  have "counts_exact ?t" unfolding counts_exact_def
  proof
    fix ep
    let ?u = "if uses ep e then 1 else 0"
    let ?r = "count_entries (uses ep) (hmap_retain (\<lambda>k _. fst k = old) (routes s))"
    have "hmap_get (endpoint_counts s) ep = positive (presence s ep)" using ok(6) by (simp add: counts_exact_def)
    then have "hmap_get (fold (sub_count 1) (endpoints e) (endpoint_counts s)) ep = positive (presence s ep - ?u)"
      unfolding uses_def by (rule get_fold_sub_one [rotated]) (use get(2) in \<open>simp add: entry_ok_def\<close>)
    then have "hmap_get (endpoint_counts ?t) ep = positive (presence s ep - ?u - ?r)"
      unfolding counts by (rule retain_other_get [OF ok(4)])
    moreover have "presence ?t ep + ?u + ?r = presence s ep"
      using count_entries_remove [OF ok(2), of "uses ep" old]
        count_entries_split [of "uses ep" "\<lambda>k _. fst k = old" "routes s"] get(1)
      by (simp add: presence_def simps)
    then have "presence s ep - ?u - ?r = presence ?t ep" by linarith
    ultimately show "hmap_get (endpoint_counts ?t) ep = positive (presence ?t ep)" by (simp only:)
  qed
  with assms show ?thesis
    by (auto simp: shard_ok_def simps counts retain_other_ok set_hmap_retain set_hmap_remove)
qed

section \<open>Recording keeps the shard well formed\<close>

lemma observe_entry_simps:
  "fst (observe_entry ep now old) \<longleftrightarrow> (case old of None \<Rightarrow> True | Some e \<Rightarrow> \<not> uses ep e)"
  "set (endpoints (snd (observe_entry ep now old)))
     = insert ep (case old of None \<Rightarrow> {} | Some e \<Rightarrow> set (endpoints e))"
  "last_seen (snd (observe_entry ep now old)) = now"
  by (auto simp: observe_entry_def uses_def split_beta split: option.splits)

lemma entry_ok_observe: "(\<And>e. old = Some e \<Longrightarrow> entry_ok e) \<Longrightarrow> entry_ok (snd (observe_entry ep now old))"
  by (auto simp: observe_entry_def entry_ok_def hset_insert_def split: option.splits)

lemma uses_observe:
  "uses x (snd (observe_entry ep now old)) \<longleftrightarrow> x = ep \<or> (case old of None \<Rightarrow> False | Some e \<Rightarrow> uses x e)"
  by (auto simp: uses_def observe_entry_simps split: option.splits)

lemma count_entries_observe:
  assumes "hmap_ok m"
  shows "count_entries (uses x) (hmap_insert k (snd (observe_entry ep now (hmap_get m k))) m)
    = count_entries (uses x) m + (if x = ep \<and> fst (observe_entry ep now (hmap_get m k)) then 1 else 0)"
  using count_entries_insert [OF assms, of "uses x" k "snd (observe_entry ep now (hmap_get m k))"]
  by (auto simp: uses_observe observe_entry_simps split: option.splits if_splits)

lemma observe_route_simps [simp]:
  "routes (observe_route ep sysid compid now s) =
     hmap_insert (sysid, compid) (snd (observe_entry ep now (hmap_get (routes s) (sysid, compid)))) (routes s)"
  "sys_routes (observe_route ep sysid compid now s) = sys_routes s"
  "endpoint_counts (observe_route ep sysid compid now s) =
     (if fst (observe_entry ep now (hmap_get (routes s) (sysid, compid)))
      then incr_count ep (endpoint_counts s) else endpoint_counts s)"
  by (simp_all add: observe_route_def split_beta Let_def)

lemma observe_system_simps [simp]:
  "sys_routes (observe_system ep sysid now s) =
     hmap_insert sysid (snd (observe_entry ep now (hmap_get (sys_routes s) sysid))) (sys_routes s)"
  "routes (observe_system ep sysid now s) = routes s"
  "endpoint_counts (observe_system ep sysid now s) =
     (if fst (observe_entry ep now (hmap_get (sys_routes s) sysid))
      then incr_count ep (endpoint_counts s) else endpoint_counts s)"
  by (simp_all add: observe_system_def split_beta Let_def)

lemma incr_exact:
  assumes "shard_ok i s" "\<And>x. presence t x = presence s x + (if x = ep \<and> new then 1 else 0)"
    "endpoint_counts t = (if new then incr_count ep (endpoint_counts s) else endpoint_counts s)"
  shows "counts_exact t" "hmap_ok (endpoint_counts t)"
proof -
  have "hmap_get (endpoint_counts s) x = positive (presence s x)" for x
    using assms(1) by (simp add: shard_ok_def counts_exact_def)
  moreover have "presence s x < USIZE_MAX" for x
    using presence_bound [OF assms(1), of x] by (simp add: USIZE_MAX_def)
  ultimately show "counts_exact t"
    by (auto simp: counts_exact_def assms(2,3) get_incr_positive split: if_splits)
  show "hmap_ok (endpoint_counts t)" using assms(1,3) by (simp add: shard_ok_def)
qed

lemma shard_ok_observe_route [invar_intros]:
  assumes "shard_ok i s" "sys_in_shard i sysid"
  shows "shard_ok i (observe_route ep sysid compid now s)"
proof -
  let ?t = "observe_route ep sysid compid now s"
  let ?new = "fst (observe_entry ep now (hmap_get (routes s) (sysid, compid)))"
  have ok: "hmap_ok (routes s)" using assms(1) by (simp add: shard_ok_def)
  have "entry_ok (snd (observe_entry ep now (hmap_get (routes s) (sysid, compid))))"
    using assms(1) by (intro entry_ok_observe) (auto simp: shard_ok_def hmap_get_set [symmetric])
  moreover have "presence ?t x = presence s x + (if x = ep \<and> ?new then 1 else 0)" for x
    by (simp add: presence_def count_entries_observe [OF ok])
  from incr_exact [OF assms(1) this] have "counts_exact ?t" "hmap_ok (endpoint_counts ?t)" by simp_all
  ultimately show ?thesis
    using assms ok unfolding shard_ok_def by (auto simp: set_hmap_insert simp del: observe_route_simps(3))
qed

lemma shard_ok_observe_system [invar_intros]:
  assumes "shard_ok i s" "sys_in_shard i sysid"
  shows "shard_ok i (observe_system ep sysid now s)"
proof -
  let ?t = "observe_system ep sysid now s"
  let ?new = "fst (observe_entry ep now (hmap_get (sys_routes s) sysid))"
  have ok: "hmap_ok (sys_routes s)" using assms(1) by (simp add: shard_ok_def)
  have "entry_ok (snd (observe_entry ep now (hmap_get (sys_routes s) sysid)))"
    using assms(1) by (intro entry_ok_observe) (auto simp: shard_ok_def hmap_get_set [symmetric])
  moreover have "presence ?t x = presence s x + (if x = ep \<and> ?new then 1 else 0)" for x
    by (simp add: presence_def count_entries_observe [OF ok])
  from incr_exact [OF assms(1) this] have "counts_exact ?t" "hmap_ok (endpoint_counts ?t)" by simp_all
  ultimately show ?thesis
    using assms ok unfolding shard_ok_def by (auto simp: set_hmap_insert simp del: observe_system_simps(3))
qed

lemma shard_ok_enforce [invar_intros]: "shard_ok i s \<Longrightarrow> shard_ok i (enforce_capacity clock s)"
  by (simp add: enforce_capacity_idle)

lemma shard_ok_update [invar_intros]:
  "shard_ok i s \<Longrightarrow> sys_in_shard i sysid \<Longrightarrow> shard_ok i (shard_update clock ep sysid compid now s)"
  by (simp add: shard_update_def invar_intros)

end
