(* ===== verification/Routing_Table.thy ===== *)
theory Routing_Table
  imports Routing_Shard
begin

text \<open>
  The routing table (\<open>src/routing/table.rs\<close>, \<open>groups.rs\<close>, \<open>stats.rs\<close>, \<open>update.rs\<close>): sixteen
  shards selected by \<open>system_id & SHARD_MASK\<close> and the group configuration. A method that takes a
  shard's lock is one atomic step on that shard; the \<open>ArcSwap\<close> snapshot of the configuration
  is its current value. \<open>Instant::now()\<close> is read once per shard in \<open>prune\<close>, so its
  argument is a clock reading for each shard.
\<close>

section \<open>Groups\<close>

record group_config =
  endpoint_groups :: "(endpoint_id, string) hmap"
  group_members :: "(string, endpoint_id list) hmap"
  sniffer_sysids :: "u8 list"

definition empty_config :: group_config where
  "empty_config = \<lparr>endpoint_groups = [], group_members = [], sniffer_sysids = []\<rparr>"

definition any_in_same_group :: "group_config \<Rightarrow> endpoint_id list \<Rightarrow> endpoint_id \<Rightarrow> bool" where
  "any_in_same_group cfg eps ep =
     (case hmap_get (endpoint_groups cfg) ep of
        None \<Rightarrow> False
      | Some grp \<Rightarrow>
          (case hmap_get (group_members cfg) grp of
             None \<Rightarrow> False
           | Some members \<Rightarrow> \<exists>e \<in> set eps. e \<in> set members))"

section \<open>The table\<close>

record routing_table =
  rt_shards :: "shard list"
  rt_config :: group_config

definition routing_table_new :: routing_table where
  "routing_table_new = \<lparr>rt_shards = map (\<lambda>_. empty_shard) [0..<SHARD_COUNT], rt_config = empty_config\<rparr>"

definition shard_index :: "u8 \<Rightarrow> nat" where
  "shard_index sysid = Bit_Operations.and (unat sysid) SHARD_MASK"

definition shard_for :: "routing_table \<Rightarrow> u8 \<Rightarrow> shard" where
  "shard_for t sysid = rt_shards t ! shard_index sysid"

definition rcu_config :: "(group_config \<Rightarrow> group_config) \<Rightarrow> routing_table \<Rightarrow> routing_table" where
  "rcu_config edit t = t\<lparr>rt_config := edit (rt_config t)\<rparr>"

definition set_endpoint_group :: "endpoint_id \<Rightarrow> string \<Rightarrow> routing_table \<Rightarrow> routing_table" where
  "set_endpoint_group ep grp = rcu_config (\<lambda>cfg. cfg\<lparr>
     endpoint_groups := hmap_insert ep grp (endpoint_groups cfg),
     group_members := hmap_insert grp
       (snd (hset_insert ep (case hmap_get (group_members cfg) grp of None \<Rightarrow> [] | Some ms \<Rightarrow> ms)))
       (group_members cfg)\<rparr>)"

definition set_sniffer_sysids :: "u8 list \<Rightarrow> routing_table \<Rightarrow> routing_table" where
  "set_sniffer_sysids sysids =
     rcu_config (\<lambda>cfg. cfg\<lparr>sniffer_sysids := fold (\<lambda>x s. snd (hset_insert x s)) sysids []\<rparr>)"

definition is_sniffer_endpoint :: "routing_table \<Rightarrow> endpoint_id \<Rightarrow> bool" where
  "is_sniffer_endpoint t ep =
     (if sniffer_sysids (rt_config t) = [] then False
      else \<exists>sysid \<in> set (sniffer_sysids (rt_config t)).
        (case hmap_get (sys_routes (shard_for t sysid)) sysid of
           None \<Rightarrow> False
         | Some e \<Rightarrow> ep \<in> set (endpoints e)))"

definition rt_update :: "instant \<Rightarrow> endpoint_id \<Rightarrow> u8 \<Rightarrow> u8 \<Rightarrow> instant \<Rightarrow> routing_table \<Rightarrow> routing_table" where
  "rt_update clock ep sysid compid now t =
     t\<lparr>rt_shards := (rt_shards t)[shard_index sysid :=
        shard_update clock ep sysid compid now (shard_for t sysid)]\<rparr>"

definition entry_needs_update :: "endpoint_id \<Rightarrow> instant \<Rightarrow> route_entry option \<Rightarrow> bool" where
  "entry_needs_update ep now old =
     (case old of
        None \<Rightarrow> True
      | Some e \<Rightarrow> ep \<notin> set (endpoints e) \<or> duration_since now (last_seen e) \<ge> from_secs 1)"

definition needs_update_for_endpoint :: "routing_table \<Rightarrow> endpoint_id \<Rightarrow> u8 \<Rightarrow> u8 \<Rightarrow> instant \<Rightarrow> bool" where
  "needs_update_for_endpoint t ep sysid compid now =
     (let s = shard_for t sysid;
          comp_needs_update = entry_needs_update ep now (hmap_get (routes s) (sysid, compid));
          sys_needs_update = entry_needs_update ep now (hmap_get (sys_routes s) sysid)
      in comp_needs_update \<or> sys_needs_update)"

definition should_send :: "routing_table \<Rightarrow> endpoint_id \<Rightarrow> u8 \<Rightarrow> u8 \<Rightarrow> bool" where
  "should_send t ep target_sysid target_compid =
     (if is_sniffer_endpoint t ep then True
      else if target_sysid = 0 then True
      else let cfg = rt_config t; s = shard_for t target_sysid in
        (case hmap_get (sys_routes s) target_sysid of
           None \<Rightarrow> False
         | Some e \<Rightarrow>
             if target_compid = 0
             then ep \<in> set (endpoints e) \<or> any_in_same_group cfg (endpoints e) ep
             else (case hmap_get (routes s) (target_sysid, target_compid) of
                 Some ce \<Rightarrow> ep \<in> set (endpoints ce) \<or> any_in_same_group cfg (endpoints ce) ep
               | None \<Rightarrow> ep \<in> set (endpoints e) \<or> any_in_same_group cfg (endpoints e) ep)))"

definition rt_prune :: "(nat \<Rightarrow> instant) \<Rightarrow> duration \<Rightarrow> routing_table \<Rightarrow> routing_table" where
  "rt_prune clock max_age t =
     t\<lparr>rt_shards := map (\<lambda>i. shard_prune (clock i) max_age (rt_shards t ! i)) [0..<length (rt_shards t)]\<rparr>"

record routing_stats =
  total_systems :: nat
  total_routes :: nat
  total_endpoints :: nat
  timestamp :: nat

definition rt_stats :: "nat \<Rightarrow> routing_table \<Rightarrow> routing_stats" where
  "rt_stats epoch_secs t =
     \<lparr>total_systems = foldl (\<lambda>n s. saturating_add n (length (sys_routes s))) 0 (rt_shards t),
      total_routes = foldl (\<lambda>n s. saturating_add n (length (routes s))) 0 (rt_shards t),
      total_endpoints = length (foldl (\<lambda>ids s. fold (\<lambda>ep ids. snd (hset_insert ep ids)) (map fst (endpoint_counts s)) ids)
        [] (rt_shards t)),
      timestamp = epoch_secs\<rparr>"

record route_update =
  ru_endpoint_id :: endpoint_id
  ru_sys_id :: u8
  ru_comp_id :: u8
  ru_now :: instant

section \<open>The flat view\<close>

text \<open>
  What the table promises, without shards: for every system and every component, the set of
  endpoints that have seen it and when it was seen last.
\<close>

type_synonym known = "(endpoint_id set \<times> instant) option"

record flat_table =
  known_sys :: "u8 \<Rightarrow> known"
  known_comp :: "u8 \<times> u8 \<Rightarrow> known"

definition learn :: "endpoint_id \<Rightarrow> instant \<Rightarrow> known \<Rightarrow> known" where
  "learn ep now k = (case k of None \<Rightarrow> Some ({ep}, now) | Some (eps, _) \<Rightarrow> Some (insert ep eps, now))"

definition forget :: "instant \<Rightarrow> duration \<Rightarrow> known \<Rightarrow> known" where
  "forget now max_age k =
     (case k of None \<Rightarrow> None | Some (eps, t) \<Rightarrow> if duration_since now t > max_age then None else Some (eps, t))"

definition flat_observe :: "endpoint_id \<Rightarrow> u8 \<Rightarrow> u8 \<Rightarrow> instant \<Rightarrow> flat_table \<Rightarrow> flat_table" where
  "flat_observe ep sysid compid now f =
     \<lparr>known_sys = (known_sys f)(sysid := learn ep now (known_sys f sysid)),
      known_comp = (known_comp f)((sysid, compid) := learn ep now (known_comp f (sysid, compid)))\<rparr>"

definition flat_prune :: "(nat \<Rightarrow> instant) \<Rightarrow> duration \<Rightarrow> flat_table \<Rightarrow> flat_table" where
  "flat_prune clock max_age f =
     \<lparr>known_sys = (\<lambda>s. forget (clock (unat s mod 16)) max_age (known_sys f s)),
      known_comp = (\<lambda>(s, c). forget (clock (unat s mod 16)) max_age (known_comp f (s, c)))\<rparr>"

definition entry_view :: "route_entry \<Rightarrow> endpoint_id set \<times> instant" where
  "entry_view e = (set (endpoints e), last_seen e)"

definition view :: "routing_table \<Rightarrow> flat_table" where
  "view t =
     \<lparr>known_sys = (\<lambda>s. map_option entry_view (hmap_get (sys_routes (shard_for t s)) s)),
      known_comp = (\<lambda>(s, c). map_option entry_view (hmap_get (routes (shard_for t s)) (s, c)))\<rparr>"

definition rt_ok :: "routing_table \<Rightarrow> bool" where
  "rt_ok t \<longleftrightarrow> length (rt_shards t) = SHARD_COUNT \<and> (\<forall>i < SHARD_COUNT. shard_ok i (rt_shards t ! i))"

lemma shard_index_mod: "shard_index s = unat s mod 16"
  by (simp add: shard_index_def SHARD_MASK_def SHARD_COUNT_def and_15_nat)

lemma shard_index_less [simp]: "shard_index s < SHARD_COUNT"
  by (simp add: shard_index_mod SHARD_COUNT_def)

lemma sys_in_shard_index: "sys_in_shard (shard_index s) s"
  by (simp add: sys_in_shard_def shard_index_mod SHARD_COUNT_def)

lemma rt_ok_shard_for: "rt_ok t \<Longrightarrow> shard_ok (shard_index s) (shard_for t s)"
  by (simp add: rt_ok_def shard_for_def)

lemma rt_ok_new: "rt_ok routing_table_new"
  by (simp add: rt_ok_def routing_table_new_def shard_ok_empty SHARD_COUNT_def del: upt_Suc)

lemma view_new: "view routing_table_new = \<lparr>known_sys = (\<lambda>_. None), known_comp = (\<lambda>_. None)\<rparr>"
  by (auto simp: view_def shard_for_def routing_table_new_def empty_shard_def fun_eq_iff simp del: upt_Suc)

lemma rt_config_simps [simp]:
  "rt_config (rt_update clock ep sysid compid now t) = rt_config t"
  "rt_config (rt_prune clk age t) = rt_config t"
  "rt_shards (rcu_config edit t) = rt_shards t"
  "rt_config (rcu_config edit t) = edit (rt_config t)"
  by (simp_all add: rt_update_def rt_prune_def rcu_config_def)

lemma rt_ok_rcu [invar_intros]: "rt_ok t \<Longrightarrow> rt_ok (rcu_config edit t)"
  by (simp add: rt_ok_def)

lemma view_rcu [simp]: "view (rcu_config edit t) = view t"
  by (simp add: view_def shard_for_def)

lemma rt_ok_update [invar_intros]:
  assumes "rt_ok t"
  shows "rt_ok (rt_update clock ep sysid compid now t)"
  using assms sys_in_shard_index [of sysid]
  by (auto simp: rt_ok_def rt_update_def nth_list_update_if shard_for_def intro: shard_ok_update)

lemma rt_ok_prune [invar_intros]: "rt_ok t \<Longrightarrow> rt_ok (rt_prune clk age t)"
  by (simp add: rt_ok_def rt_prune_def shard_ok_prune)

lemma shard_for_update:
  assumes "rt_ok t"
  shows "shard_for (rt_update clock ep sysid compid now t) s =
    (if shard_index s = shard_index sysid
     then observe_system ep sysid now (observe_route ep sysid compid now (shard_for t s)) else shard_for t s)"
  using assms enforce_capacity_idle [OF rt_ok_shard_for [OF assms, of sysid]] shard_index_less [of sysid]
  by (auto simp: shard_for_def rt_update_def nth_list_update_if shard_update_def rt_ok_def)

lemma shard_for_prune:
  "rt_ok t \<Longrightarrow> shard_for (rt_prune clk age t) s = shard_prune (clk (shard_index s)) age (shard_for t s)"
  using shard_index_less [of s] by (simp add: shard_for_def rt_prune_def rt_ok_def)

lemma observe_learn:
  "map_option entry_view (Some (snd (observe_entry ep now old))) = learn ep now (map_option entry_view old)"
  by (cases old) (auto simp: entry_view_def learn_def observe_entry_simps)

lemma view_update:
  assumes "rt_ok t"
  shows "view (rt_update clock ep sysid compid now t) = flat_observe ep sysid compid now (view t)"
proof -
  have "map_option entry_view (hmap_get (sys_routes (shard_for (rt_update clock ep sysid compid now t) s)) s)
      = (if s = sysid then learn ep now (known_sys (view t) sysid) else known_sys (view t) s)" for s
    using observe_learn [of ep now "hmap_get (sys_routes (shard_for t sysid)) sysid"]
    by (auto simp: shard_for_update [OF assms] view_def)
  moreover have "map_option entry_view (hmap_get (routes (shard_for (rt_update clock ep sysid compid now t) s)) (s, c))
      = (if (s, c) = (sysid, compid) then learn ep now (known_comp (view t) (sysid, compid)) else known_comp (view t) (s, c))" for s c
    using observe_learn [of ep now "hmap_get (routes (shard_for t sysid)) (sysid, compid)"]
    by (auto simp: shard_for_update [OF assms] view_def)
  ultimately show ?thesis
    by (auto simp: view_def [of "rt_update clock ep sysid compid now t"] flat_observe_def fun_eq_iff)
qed

lemma retain_forget:
  "hmap_ok m \<Longrightarrow> map_option entry_view (hmap_get (hmap_retain (\<lambda>_ e. \<not> entry_expired now age e) m) k)
     = forget now age (map_option entry_view (hmap_get m k))"
  by (auto simp: hmap_get_retain forget_def entry_view_def entry_expired_def split: option.splits)

lemma view_prune:
  assumes "rt_ok t"
  shows "view (rt_prune clk age t) = flat_prune clk age (view t)"
proof -
  have "hmap_ok (routes (shard_for t s))" "hmap_ok (sys_routes (shard_for t s))" for s
    using rt_ok_shard_for [OF assms, of s] by (simp_all add: shard_ok_def)
  then show ?thesis
    by (auto simp: view_def [of "rt_prune clk age t"] shard_for_prune [OF assms] shard_prune_simps retain_forget
        flat_prune_def view_def [of t] shard_index_mod fun_eq_iff)
qed

end
