(* ===== verification/Routing.thy ===== *)
theory Routing
  imports Routing_Table
begin

text \<open>
  What the routing table promises to its clients (the ingress path, the egress filter, the
  updater, the pruner and the statistics reporter). The interface \<open>route_store\<close> states the laws
  of learning and forgetting over the flat view; the sharded table is an instance of it, and
  the two halves of the table are instances of \<open>ttl_table\<close>. The properties are stated over
  histories of table operations, in the order in which they took the locks.
\<close>

section \<open>The interface\<close>

locale route_store =
  fixes view :: "'t \<Rightarrow> flat_table"
    and observe :: "endpoint_id \<Rightarrow> u8 \<Rightarrow> u8 \<Rightarrow> instant \<Rightarrow> 't \<Rightarrow> 't"
    and prune :: "(nat \<Rightarrow> instant) \<Rightarrow> duration \<Rightarrow> 't \<Rightarrow> 't"
    and invar :: "'t \<Rightarrow> bool"
  assumes view_observe: "invar t \<Longrightarrow> view (observe ep s c now t) = flat_observe ep s c now (view t)"
    and view_prune: "invar t \<Longrightarrow> view (prune clk age t) = flat_prune clk age (view t)"
    and invar_observe: "invar t \<Longrightarrow> invar (observe ep s c now t)"
    and invar_prune: "invar t \<Longrightarrow> invar (prune clk age t)"
begin

lemma knows_observed:
  assumes "invar t"
  shows "\<exists>eps. known_sys (view (observe ep s c now t)) s = Some (eps, now) \<and> ep \<in> eps"
    and "\<exists>eps. known_comp (view (observe ep s c now t)) (s, c) = Some (eps, now) \<and> ep \<in> eps"
  using assms by (auto simp: view_observe flat_observe_def learn_def split: option.splits)

lemma observe_other:
  assumes "invar t" "s' \<noteq> s"
  shows "known_sys (view (observe ep s c now t)) s' = known_sys (view t) s'"
    and "known_comp (view (observe ep s c now t)) (s', c') = known_comp (view t) (s', c')"
  using assms by (simp_all add: view_observe flat_observe_def)

lemma prune_forgets:
  assumes "invar t" "known_sys (view t) s = Some (eps, seen)" "duration_since (clk (unat s mod 16)) seen > age"
  shows "known_sys (view (prune clk age t)) s = None"
  using assms by (simp add: view_prune flat_prune_def forget_def)

lemma prune_keeps:
  assumes "invar t" "known_sys (view t) s = Some (eps, seen)" "duration_since (clk (unat s mod 16)) seen \<le> age"
  shows "known_sys (view (prune clk age t)) s = Some (eps, seen)"
  using assms by (simp add: view_prune flat_prune_def forget_def)

lemma observed_survives_prune:
  assumes "invar t" "duration_since (clk (unat s mod 16)) now \<le> age"
  shows "\<exists>eps. known_sys (view (prune clk age (observe ep s c now t))) s = Some (eps, now) \<and> ep \<in> eps"
proof -
  from knows_observed(1) [OF assms(1), of ep s c now] obtain eps where
    "known_sys (view (observe ep s c now t)) s = Some (eps, now)" "ep \<in> eps" by blast
  with prune_keeps [of "observe ep s c now t" s eps now clk age] show ?thesis
    using assms invar_observe by blast
qed

lemma prune_creates_nothing:
  assumes "invar t" "known_sys (view t) s = None"
  shows "known_sys (view (prune clk age t)) s = None"
  using assms by (simp add: view_prune flat_prune_def forget_def)

end

interpretation table: route_store view "rt_update clock" rt_prune rt_ok
  by unfold_locales (simp_all add: view_update view_prune rt_ok_update rt_ok_prune)

definition sys_stamp :: "routing_table \<Rightarrow> u8 \<Rightarrow> instant option" where
  "sys_stamp t s = map_option snd (known_sys (view t) s)"

definition comp_stamp :: "routing_table \<Rightarrow> u8 \<times> u8 \<Rightarrow> instant option" where
  "comp_stamp t k = map_option snd (known_comp (view t) k)"

interpretation sys_ttl: ttl_table sys_stamp "\<lambda>now. rt_prune (\<lambda>_. now)" "\<lambda>a ttl. a \<le> ttl" rt_ok
  by unfold_locales
    (auto simp: sys_stamp_def view_prune rt_ok_prune flat_prune_def forget_def split: option.splits)

interpretation comp_ttl: ttl_table comp_stamp "\<lambda>now. rt_prune (\<lambda>_. now)" "\<lambda>a ttl. a \<le> ttl" rt_ok
  by unfold_locales
    (auto simp: comp_stamp_def view_prune rt_ok_prune flat_prune_def forget_def split: option.splits prod.splits)

section \<open>Histories\<close>

text \<open>
  The operations that change the table, with the clock readings they make. \<open>Observe\<close> carries
  the reading for a capacity prune and the observation's own time stamp.
\<close>

datatype table_event =
    Observe instant endpoint_id u8 u8 instant
  | Prune "nat \<Rightarrow> instant" duration
  | Set_Group endpoint_id string
  | Set_Sniffers "u8 list"

fun table_step :: "table_event \<Rightarrow> routing_table \<Rightarrow> routing_table" where
  "table_step (Observe clock ep s c now) t = rt_update clock ep s c now t"
| "table_step (Prune clk age) t = rt_prune clk age t"
| "table_step (Set_Group ep grp) t = set_endpoint_group ep grp t"
| "table_step (Set_Sniffers ss) t = set_sniffer_sysids ss t"

definition table_run :: "table_event list \<Rightarrow> routing_table" where
  "table_run evs = fold table_step evs routing_table_new"

fun flat_step :: "table_event \<Rightarrow> flat_table \<Rightarrow> flat_table" where
  "flat_step (Observe clock ep s c now) f = flat_observe ep s c now f"
| "flat_step (Prune clk age) f = flat_prune clk age f"
| "flat_step (Set_Group ep grp) f = f"
| "flat_step (Set_Sniffers ss) f = f"

definition flat_empty :: flat_table where
  "flat_empty = \<lparr>known_sys = (\<lambda>_. None), known_comp = (\<lambda>_. None)\<rparr>"

definition flat_run :: "table_event list \<Rightarrow> flat_table" where
  "flat_run evs = fold flat_step evs flat_empty"

lemma rt_ok_step [invar_intros]: "rt_ok t \<Longrightarrow> rt_ok (table_step ev t)"
  by (cases ev) (simp_all add: invar_intros set_endpoint_group_def set_sniffer_sysids_def)

lemma rt_ok_fold: "rt_ok t \<Longrightarrow> rt_ok (fold table_step evs t)"
  by (induction evs arbitrary: t) (simp_all add: invar_intros)

lemma rt_ok_run [simp]: "rt_ok (table_run evs)"
  by (simp add: table_run_def rt_ok_fold rt_ok_new)

lemma view_step: "rt_ok t \<Longrightarrow> view (table_step ev t) = flat_step ev (view t)"
  by (cases ev) (simp_all add: view_update view_prune set_endpoint_group_def set_sniffer_sysids_def)

lemma view_fold: "rt_ok t \<Longrightarrow> view (fold table_step evs t) = fold flat_step evs (view t)"
  by (induction evs arbitrary: t) (simp_all add: view_step invar_intros)

lemma view_run: "view (table_run evs) = flat_run evs"
  by (simp add: table_run_def flat_run_def view_fold rt_ok_new view_new flat_empty_def)

text \<open>
  C5. The sharded table with its locks, counters and capacity checks implements the flat table:
  after any history of observations, prunes and configuration changes, looking systems and
  components up gives exactly what two plain maps without shards and without limits would give.
\<close>
theorem routing_refinement: "view (fold table_step evs routing_table_new) = fold flat_step evs flat_empty"
  using view_run [of evs] by (simp add: table_run_def flat_run_def)

text \<open>
  C29. The capacity limits of a shard are never reached. After any history every shard holds fewer routes
  and systems than its limits, so the capacity check of an update removes nothing; and so an update
  loses no route: it records the observation for its component and its system, leaves what is known of
  all others as it was, and does not touch the configuration.
\<close>
theorem capacity_never_reached:
  "(\<forall>i < SHARD_COUNT. length (routes (rt_shards (table_run evs) ! i)) < MAX_ROUTES_PER_SHARD \<and>
      length (sys_routes (rt_shards (table_run evs) ! i)) < MAX_SYSTEMS_PER_SHARD \<and>
      enforce_capacity clock (rt_shards (table_run evs) ! i) = rt_shards (table_run evs) ! i) \<and>
   (let t = table_run evs; t' = rt_update clock ep s c now t in
      known_sys (view t') = (known_sys (view t))(s := learn ep now (known_sys (view t) s)) \<and>
      known_comp (view t') = (known_comp (view t))((s, c) := learn ep now (known_comp (view t) (s, c))) \<and>
      rt_config t' = rt_config t)"
proof -
  have "length (routes (rt_shards (table_run evs) ! i)) < MAX_ROUTES_PER_SHARD \<and>
      length (sys_routes (rt_shards (table_run evs) ! i)) < MAX_SYSTEMS_PER_SHARD \<and>
      enforce_capacity clock (rt_shards (table_run evs) ! i) = rt_shards (table_run evs) ! i" if "i < SHARD_COUNT" for i
  proof -
    from that have "shard_ok i (rt_shards (table_run evs) ! i)" using rt_ok_run [of evs] by (simp add: rt_ok_def)
    from below_capacity [OF this] enforce_capacity_idle [OF this] show ?thesis by simp
  qed
  moreover have "rt_config (rt_update clock ep s c now (table_run evs)) = rt_config (table_run evs)" by (simp add: rt_update_def)
  ultimately show ?thesis by (simp add: view_update flat_observe_def Let_def)
qed

theorem capacity_never_reached_witness:
  "length (routes (rt_shards (table_run [Observe 0 (EndpointId 1) 17 1 5]) ! 1)) < MAX_ROUTES_PER_SHARD \<and>
   known_sys (view (rt_update 0 (EndpointId 2) 17 1 6 (table_run [Observe 0 (EndpointId 1) 17 1 5]))) 17 =
     learn (EndpointId 2) 6 (known_sys (view (table_run [Observe 0 (EndpointId 1) 17 1 5])) 17)"
  using capacity_never_reached [of "[Observe 0 (EndpointId 1) 17 1 5]" 0 "EndpointId 2" 17 1 6] by (simp add: SHARD_COUNT_def Let_def)

section \<open>Where a message goes\<close>

text \<open>What a history says of the configuration.\<close>

definition group_of :: "table_event list \<Rightarrow> endpoint_id \<Rightarrow> string option" where
  "group_of evs ep =
     fold (\<lambda>ev g. case ev of Set_Group e grp \<Rightarrow> (if e = ep then Some grp else g) | _ \<Rightarrow> g) evs None"

definition sniffers :: "table_event list \<Rightarrow> u8 set" where
  "sniffers evs = fold (\<lambda>ev s. case ev of Set_Sniffers ss \<Rightarrow> set ss | _ \<Rightarrow> s) evs {}"

definition shares_group :: "table_event list \<Rightarrow> endpoint_id \<Rightarrow> endpoint_id \<Rightarrow> bool" where
  "shares_group evs ep e \<longleftrightarrow> (\<exists>grp. group_of evs ep = Some grp \<and> Set_Group e grp \<in> set evs)"

definition seen_on :: "known \<Rightarrow> endpoint_id set" where
  "seen_on k = (case k of None \<Rightarrow> {} | Some (eps, _) \<Rightarrow> eps)"

definition members_of :: "group_config \<Rightarrow> string \<Rightarrow> endpoint_id set" where
  "members_of cfg grp = (case hmap_get (group_members cfg) grp of None \<Rightarrow> {} | Some ms \<Rightarrow> set ms)"

lemma table_run_snoc: "table_run (evs @ [ev]) = table_step ev (table_run evs)"
  by (simp add: table_run_def)

lemma flat_run_snoc: "flat_run (evs @ [ev]) = flat_step ev (flat_run evs)"
  by (simp add: flat_run_def)

lemma set_fold_insert: "set (fold (\<lambda>x s. snd (hset_insert x s)) xs s) = set xs \<union> set s"
  by (induction xs arbitrary: s) auto

lemma config_history:
  shows "hmap_get (endpoint_groups (rt_config (table_run evs))) ep = group_of evs ep"
    and "members_of (rt_config (table_run evs)) grp = {e. Set_Group e grp \<in> set evs}"
    and "set (sniffer_sysids (rt_config (table_run evs))) = sniffers evs"
proof (induction evs rule: rev_induct)
  case Nil
  {
    case 1 show ?case by (simp add: table_run_def routing_table_new_def empty_config_def group_of_def)
  next
    case 2 show ?case by (simp add: table_run_def routing_table_new_def empty_config_def members_of_def)
  next
    case 3 show ?case by (simp add: table_run_def routing_table_new_def empty_config_def sniffers_def)
  }
next
  case (snoc ev evs)
  {
    case 1 then show ?case
      using snoc by (cases ev) (auto simp: table_run_snoc group_of_def set_endpoint_group_def set_sniffer_sysids_def)
  next
    case 2 then show ?case
      using snoc by (cases ev)
        (auto simp: table_run_snoc members_of_def set_endpoint_group_def set_sniffer_sysids_def split: option.splits)
  next
    case 3 then show ?case
      using snoc by (cases ev)
        (auto simp: table_run_snoc sniffers_def set_endpoint_group_def set_sniffer_sysids_def set_fold_insert)
  }
qed

lemma same_group_history:
  "any_in_same_group (rt_config (table_run evs)) eps ep \<longleftrightarrow> (\<exists>e \<in> set eps. shares_group evs ep e)"
proof (cases "group_of evs ep")
  case None
  then show ?thesis by (simp add: any_in_same_group_def config_history shares_group_def)
next
  case (Some grp)
  then have "any_in_same_group (rt_config (table_run evs)) eps ep \<longleftrightarrow>
      (\<exists>e \<in> set eps. e \<in> members_of (rt_config (table_run evs)) grp)"
    by (auto simp: any_in_same_group_def config_history members_of_def split: option.splits)
  with Some show ?thesis by (auto simp: config_history shares_group_def)
qed

lemma view_sys: "known_sys (view t) s = map_option entry_view (hmap_get (sys_routes (shard_for t s)) s)"
  and view_comp: "known_comp (view t) (s, c) = map_option entry_view (hmap_get (routes (shard_for t s)) (s, c))"
  by (simp_all add: view_def)

lemma sniffer_iff:
  "is_sniffer_endpoint t ep \<longleftrightarrow>
     (\<exists>x \<in> set (sniffer_sysids (rt_config t)). ep \<in> seen_on (known_sys (view t) x))"
  by (auto simp: is_sniffer_endpoint_def seen_on_def view_sys entry_view_def split: option.splits)

lemma sniffer_history:
  "is_sniffer_endpoint (table_run evs) ep \<longleftrightarrow> (\<exists>x \<in> sniffers evs. ep \<in> seen_on (known_sys (flat_run evs) x))"
  unfolding sniffer_iff config_history view_run ..

text \<open>The endpoints through which the addressed system or component has been heard.\<close>

definition paths_to :: "flat_table \<Rightarrow> u8 \<Rightarrow> u8 \<Rightarrow> endpoint_id set" where
  "paths_to f s c =
     (if c = 0 \<or> known_comp f (s, c) = None \<or> known_sys f s = None then seen_on (known_sys f s)
      else seen_on (known_comp f (s, c)))"

lemma should_send_paths:
  "should_send t ep s c \<longleftrightarrow> is_sniffer_endpoint t ep \<or> s = 0 \<or>
     (\<exists>eps. set eps = paths_to (view t) s c \<and> (ep \<in> set eps \<or> any_in_same_group (rt_config t) eps ep))"
proof -
  have grp: "any_in_same_group cfg eps ep = any_in_same_group cfg eps' ep" if "set eps = set eps'" for cfg eps eps'
    using that by (simp add: any_in_same_group_def split: option.split)
  have grp_set: "(\<exists>eps'. set eps' = set eps \<and> (ep \<in> set eps' \<or> any_in_same_group cfg eps' ep))
      \<longleftrightarrow> ep \<in> set eps \<or> any_in_same_group cfg eps ep" for cfg eps
    using grp [of _ eps cfg] by metis
  have grp_empty: "\<not> (\<exists>eps'. set eps' = {} \<and> (ep \<in> set eps' \<or> any_in_same_group cfg eps' ep))" for cfg
    by (auto simp: any_in_same_group_def split: option.splits)
  show ?thesis
  proof (cases "hmap_get (sys_routes (shard_for t s)) s")
    case None
    then have "paths_to (view t) s c = {}" by (simp add: paths_to_def view_sys seen_on_def)
    with None grp_empty show ?thesis by (simp add: should_send_def Let_def)
  next
    case sys: (Some e)
    show ?thesis
    proof (cases "c = 0 \<or> hmap_get (routes (shard_for t s)) (s, c) = None")
      case True
      with sys have "paths_to (view t) s c = set (endpoints e)"
        by (auto simp: paths_to_def view_sys view_comp seen_on_def entry_view_def)
      with sys True grp_set [of "endpoints e"] show ?thesis by (auto simp: should_send_def Let_def)
    next
      case False
      then obtain ce where ce: "hmap_get (routes (shard_for t s)) (s, c) = Some ce" "c \<noteq> 0" by auto
      with sys have "paths_to (view t) s c = set (endpoints ce)"
        by (simp add: paths_to_def view_sys view_comp seen_on_def entry_view_def)
      with sys ce grp_set [of "endpoints ce"] show ?thesis by (simp add: should_send_def Let_def)
    qed
  qed
qed

text \<open>
  The egress decision, as a policy over the history: a message goes out of an endpoint
  exactly when a sniffer system has been heard on the endpoint, or the message is a broadcast,
  or the endpoint, or an endpoint that was put into its current group, is a path on which the
  addressed component (or, when the component is unaddressed or unknown, the system) was heard
  and not forgotten. Unknown systems are never sent to.
\<close>

lemma should_send_history:
  "should_send (table_run evs) ep s c \<longleftrightarrow>
     (\<exists>x \<in> sniffers evs. ep \<in> seen_on (known_sys (flat_run evs) x)) \<or> s = 0 \<or>
     (\<exists>e \<in> paths_to (flat_run evs) s c. e = ep \<or> shares_group evs ep e)"
proof -
  have "finite (paths_to (view (table_run evs)) s c)"
    by (auto simp: paths_to_def seen_on_def view_sys view_comp entry_view_def split: option.splits)
  then obtain eps where eps: "set eps = paths_to (view (table_run evs)) s c" using finite_list by blast
  show ?thesis
    unfolding should_send_paths sniffer_history same_group_history view_run
    using eps by (auto simp: view_run)
qed

section \<open>Statistics\<close>

lemma foldl_saturating:
  "a + sum_list (map f xs) \<le> USIZE_MAX \<Longrightarrow> foldl (\<lambda>n x. saturating_add n (f x)) a xs = a + sum_list (map f xs)"
  by (induction xs arbitrary: a) (simp_all add: saturating_add_exact)

text \<open>The entries of the sixteen shards, taken together, are those of one map.\<close>

lemma card_sharded:
  fixes m :: "shard \<Rightarrow> ('k, 'v) hmap" and idx :: "'k \<Rightarrow> nat"
  assumes len: "length ss = SHARD_COUNT" and idx: "\<And>k. idx k < SHARD_COUNT"
    and ok: "\<And>i. i < SHARD_COUNT \<Longrightarrow> hmap_ok (m (ss ! i))"
    and own: "\<And>i k. i < SHARD_COUNT \<Longrightarrow> k \<in> fst ` set (m (ss ! i)) \<Longrightarrow> idx k = i"
    and small: "\<And>i. i < SHARD_COUNT \<Longrightarrow> length (m (ss ! i)) \<le> 4096"
  shows "foldl (\<lambda>n s. saturating_add n (length (m s))) 0 ss = card {k. hmap_get (m (ss ! idx k)) k \<noteq> None}"
proof -
  let ?D = "\<lambda>i. dom (hmap_get (m (ss ! i)))"
  have D: "k \<in> ?D i \<Longrightarrow> idx k = i" if "i < SHARD_COUNT" for i k
    using own [OF that] by (auto simp: dom_map_of_conv_image_fst)
  then have disj: "\<forall>i \<in> {..<SHARD_COUNT}. \<forall>j \<in> {..<SHARD_COUNT}. i \<noteq> j \<longrightarrow> ?D i \<inter> ?D j = {}" by blast
  have sum: "sum_list (map (\<lambda>s. length (m s)) ss) = (\<Sum>i<SHARD_COUNT. length (m (ss ! i)))"
    using len by (simp add: sum_list_sum_nth atLeast0LessThan)
  also have "\<dots> \<le> SHARD_COUNT * 4096" using sum_bounded_above [of "{..<SHARD_COUNT}" "\<lambda>i. length (m (ss ! i))" "4096 :: nat"] small by simp
  also have "\<dots> \<le> USIZE_MAX" by (simp add: SHARD_COUNT_def USIZE_MAX_def)
  finally have "foldl (\<lambda>n s. saturating_add n (length (m s))) 0 ss = (\<Sum>i<SHARD_COUNT. length (m (ss ! i)))"
    using foldl_saturating [of 0 "\<lambda>s. length (m s)" ss] sum by simp
  also have "\<dots> = (\<Sum>i<SHARD_COUNT. card (?D i))" using ok by (simp add: hmap_length)
  also have "\<dots> = card (\<Union>i \<in> {..<SHARD_COUNT}. ?D i)"
    using disj by (subst card_UN_disjoint) (simp_all add: finite_dom_map_of)
  also have "(\<Union>i \<in> {..<SHARD_COUNT}. ?D i) = {k. hmap_get (m (ss ! idx k)) k \<noteq> None}"
    using D idx by blast
  finally show ?thesis .
qed

lemma set_fold_ids: "set (fold (\<lambda>ep ids. snd (hset_insert ep ids)) xs ids) = set xs \<union> set ids"
  and distinct_fold_ids: "distinct ids \<Longrightarrow> distinct (fold (\<lambda>ep ids. snd (hset_insert ep ids)) xs ids)"
  by (induction xs arbitrary: ids) auto

lemma foldl_ids:
  "set (foldl (\<lambda>ids s. fold (\<lambda>ep ids. snd (hset_insert ep ids)) (f s) ids) ids ss) = set ids \<union> (\<Union>s \<in> set ss. set (f s))"
  "distinct ids \<Longrightarrow> distinct (foldl (\<lambda>ids s. fold (\<lambda>ep ids. snd (hset_insert ep ids)) (f s) ids) ids ss)"
  by (induction ss arbitrary: ids) (auto simp: set_fold_ids distinct_fold_ids)

lemma count_entries_pos: "0 < count_entries P m \<longleftrightarrow> (\<exists>(k, v) \<in> set m. P v)"
  by (induction m) auto

lemma counted_endpoints:
  assumes "shard_ok i s"
  shows "fst ` set (endpoint_counts s) =
    (\<Union>(k, e) \<in> set (routes s). set (endpoints e)) \<union> (\<Union>(k, e) \<in> set (sys_routes s). set (endpoints e))"
proof -
  have "ep \<in> fst ` set (endpoint_counts s) \<longleftrightarrow> 0 < presence s ep" for ep
    using assms by (simp add: shard_ok_def counts_exact_def positive_def flip: dom_map_of_conv_image_fst)
      (simp add: dom_def)
  then show ?thesis
    by (intro set_eqI) (simp add: presence_def count_entries_pos uses_def case_prod_beta del: gr0_conv_Suc)
qed

text \<open>Every endpoint on which anything known has been heard.\<close>

definition heard_on :: "flat_table \<Rightarrow> endpoint_id set" where
  "heard_on f = (\<Union>s. seen_on (known_sys f s)) \<union> (\<Union>k. seen_on (known_comp f k))"

lemma stats_systems:
  assumes "rt_ok t"
  shows "foldl (\<lambda>n s. saturating_add n (length (sys_routes s))) 0 (rt_shards t) = card {s. known_sys (view t) s \<noteq> None}"
proof -
  have ok: "shard_ok i (rt_shards t ! i)" if "i < SHARD_COUNT" for i using assms that by (simp add: rt_ok_def)
  have "foldl (\<lambda>n s. saturating_add n (length (sys_routes s))) 0 (rt_shards t)
      = card {s. hmap_get (sys_routes (rt_shards t ! shard_index s)) s \<noteq> None}"
    using ok shard_size(1) [OF ok] assms
    by (intro card_sharded)
      (fastforce simp: rt_ok_def shard_ok_def sys_in_shard_def shard_index_mod SHARD_COUNT_def)+
  then show ?thesis by (simp add: view_sys shard_for_def)
qed

lemma stats_routes:
  assumes "rt_ok t"
  shows "foldl (\<lambda>n s. saturating_add n (length (routes s))) 0 (rt_shards t) = card {k. known_comp (view t) k \<noteq> None}"
proof -
  have ok: "shard_ok i (rt_shards t ! i)" if "i < SHARD_COUNT" for i using assms that by (simp add: rt_ok_def)
  have "foldl (\<lambda>n s. saturating_add n (length (routes s))) 0 (rt_shards t)
      = card {k. hmap_get (routes (rt_shards t ! shard_index (fst k))) k \<noteq> None}"
    using ok shard_size(2) [OF ok] assms
    by (intro card_sharded)
      (fastforce simp: rt_ok_def shard_ok_def sys_in_shard_def shard_index_mod SHARD_COUNT_def)+
  moreover have "known_comp (view t) k = map_option entry_view (hmap_get (routes (rt_shards t ! shard_index (fst k))) k)" for k
    by (cases k) (simp add: view_comp shard_for_def)
  ultimately show ?thesis by simp
qed

lemma entry_owner:
  assumes "shard_ok i s"
  shows "(k, e) \<in> set (sys_routes s) \<Longrightarrow> shard_index k = i" "(k, e) \<in> set (sys_routes s) \<Longrightarrow> hmap_get (sys_routes s) k = Some e"
    and "(q, e) \<in> set (routes s) \<Longrightarrow> shard_index (fst q) = i" "(q, e) \<in> set (routes s) \<Longrightarrow> hmap_get (routes s) q = Some e"
  using assms by (auto simp: shard_ok_def sys_in_shard_def shard_index_mod SHARD_COUNT_def hmap_ok_def)

lemma heard_on_shards:
  assumes "rt_ok t"
  shows "heard_on (view t) = (\<Union>s \<in> set (rt_shards t). fst ` set (endpoint_counts s))"
proof -
  have ok: "shard_ok i (rt_shards t ! i)" if "i < SHARD_COUNT" for i using assms that by (simp add: rt_ok_def)
  have sys: "(\<exists>s. ep \<in> seen_on (known_sys (view t) s)) \<longleftrightarrow>
      (\<exists>i < SHARD_COUNT. \<exists>(k, e) \<in> set (sys_routes (rt_shards t ! i)). ep \<in> set (endpoints e))" for ep
  proof
    assume "\<exists>s. ep \<in> seen_on (known_sys (view t) s)"
    then obtain s e where "hmap_get (sys_routes (shard_for t s)) s = Some e" "ep \<in> set (endpoints e)"
      by (auto simp: view_sys seen_on_def entry_view_def split: option.splits)
    then show "\<exists>i < SHARD_COUNT. \<exists>(k, e) \<in> set (sys_routes (rt_shards t ! i)). ep \<in> set (endpoints e)"
      by (intro exI [of _ "shard_index s"]) (auto simp: shard_for_def dest!: map_of_SomeD)
  next
    assume "\<exists>i < SHARD_COUNT. \<exists>(k, e) \<in> set (sys_routes (rt_shards t ! i)). ep \<in> set (endpoints e)"
    then obtain i k e where *: "i < SHARD_COUNT" "(k, e) \<in> set (sys_routes (rt_shards t ! i))" "ep \<in> set (endpoints e)"
      by blast
    with entry_owner [OF ok [OF *(1)]] have "shard_index k = i" "hmap_get (sys_routes (rt_shards t ! i)) k = Some e"
      by blast+
    with *(3) show "\<exists>s. ep \<in> seen_on (known_sys (view t) s)"
      by (intro exI [of _ k]) (simp add: view_sys shard_for_def seen_on_def entry_view_def)
  qed
  have comp: "(\<exists>k. ep \<in> seen_on (known_comp (view t) k)) \<longleftrightarrow>
      (\<exists>i < SHARD_COUNT. \<exists>(k, e) \<in> set (routes (rt_shards t ! i)). ep \<in> set (endpoints e))" for ep
  proof
    assume "\<exists>k. ep \<in> seen_on (known_comp (view t) k)"
    then obtain s c e where "hmap_get (routes (shard_for t s)) (s, c) = Some e" "ep \<in> set (endpoints e)"
      by (auto simp: view_comp seen_on_def entry_view_def split: option.splits)
    then show "\<exists>i < SHARD_COUNT. \<exists>(k, e) \<in> set (routes (rt_shards t ! i)). ep \<in> set (endpoints e)"
      by (intro exI [of _ "shard_index s"]) (auto simp: shard_for_def dest!: map_of_SomeD)
  next
    assume "\<exists>i < SHARD_COUNT. \<exists>(k, e) \<in> set (routes (rt_shards t ! i)). ep \<in> set (endpoints e)"
    then obtain i s c e where *: "i < SHARD_COUNT" "((s, c), e) \<in> set (routes (rt_shards t ! i))" "ep \<in> set (endpoints e)"
      by auto
    with entry_owner(3,4) [OF ok [OF *(1)] *(2)] have "shard_index s = i" "hmap_get (routes (rt_shards t ! i)) (s, c) = Some e"
      by simp_all
    with *(3) show "\<exists>k. ep \<in> seen_on (known_comp (view t) k)"
      by (intro exI [of _ "(s, c)"]) (simp add: view_comp shard_for_def seen_on_def entry_view_def)
  qed
  have "set (rt_shards t) = (\<lambda>i. rt_shards t ! i) ` {..<SHARD_COUNT}"
    using assms by (auto simp: rt_ok_def set_conv_nth)
  then have "(\<Union>s \<in> set (rt_shards t). fst ` set (endpoint_counts s)) =
      (\<Union>i \<in> {..<SHARD_COUNT}. (\<Union>(k, e) \<in> set (routes (rt_shards t ! i)). set (endpoints e)) \<union>
        (\<Union>(k, e) \<in> set (sys_routes (rt_shards t ! i)). set (endpoints e)))"
    using counted_endpoints [OF ok] by simp
  moreover have "ep \<in> heard_on (view t) \<longleftrightarrow> (\<exists>s. ep \<in> seen_on (known_sys (view t) s)) \<or> (\<exists>k. ep \<in> seen_on (known_comp (view t) k))" for ep
    by (simp add: heard_on_def)
  ultimately show ?thesis unfolding set_eq_iff sys comp by (simp add: case_prod_beta) blast
qed

text \<open>
  C14. The statistics are exact. After any history, however entries were shared, refreshed and
  pruned, the snapshot's numbers are the numbers of known systems, of known components and of
  distinct endpoints that still occur in some entry: the incremental per-endpoint counters never
  drift, and no endpoint is counted twice although it may occur in every shard.
\<close>
theorem stats_exact:
  "rt_stats secs (table_run evs) =
     \<lparr>total_systems = card {s. known_sys (flat_run evs) s \<noteq> None},
      total_routes = card {k. known_comp (flat_run evs) k \<noteq> None},
      total_endpoints = card (heard_on (flat_run evs)),
      timestamp = secs\<rparr>"
proof -
  let ?ids = "foldl (\<lambda>ids s. fold (\<lambda>ep ids. snd (hset_insert ep ids)) (map fst (endpoint_counts s)) ids)
    [] (rt_shards (table_run evs))"
  have "set ?ids = heard_on (view (table_run evs))" by (simp add: foldl_ids heard_on_shards)
  moreover have "distinct ?ids" by (simp add: foldl_ids)
  ultimately have "length ?ids = card (heard_on (view (table_run evs)))" using distinct_card by metis
  then show ?thesis by (simp add: rt_stats_def stats_systems stats_routes view_run)
qed

section \<open>The life of a route\<close>

text \<open>
  An event keeps what was learned of a system at time \<open>now\<close>: it is not an observation of the
  system with an older time stamp, nor a prune on whose clock the observation is too old.
\<close>

definition keeps :: "instant \<Rightarrow> u8 \<Rightarrow> table_event \<Rightarrow> bool" where
  "keeps now s ev =
     (case ev of
        Observe _ _ s' _ now' \<Rightarrow> s' \<noteq> s \<or> now \<le> now'
      | Prune clk age \<Rightarrow> duration_since (clk (unat s mod 16)) now \<le> age
      | _ \<Rightarrow> True)"

definition heard_since :: "endpoint_id \<Rightarrow> instant \<Rightarrow> known \<Rightarrow> bool" where
  "heard_since ep now k = (case k of None \<Rightarrow> False | Some (eps, t) \<Rightarrow> ep \<in> eps \<and> now \<le> t)"

lemma heard_since_learn: "heard_since ep now k \<Longrightarrow> now \<le> now' \<Longrightarrow> heard_since ep now (learn ep' now' k)"
  "heard_since ep now (learn ep now k)"
  by (auto simp: heard_since_def learn_def split: option.splits)

lemma heard_since_forget:
  assumes "heard_since ep now k" "duration_since clk now \<le> age"
  shows "heard_since ep now (forget clk age k)"
  using assms by (auto simp: heard_since_def forget_def duration_since_def split: option.splits)

lemma heard_since_step:
  assumes "heard_since ep now (known_sys f s)" "heard_since ep now (known_comp f (s, c))" "keeps now s ev"
  shows "heard_since ep now (known_sys (flat_step ev f) s) \<and> heard_since ep now (known_comp (flat_step ev f) (s, c))"
  using assms by (cases ev)
    (auto simp: keeps_def flat_observe_def flat_prune_def intro: heard_since_learn heard_since_forget)

lemma heard_since_fold:
  assumes "heard_since ep now (known_sys f s)" "heard_since ep now (known_comp f (s, c))" "\<forall>ev \<in> set evs. keeps now s ev"
  shows "heard_since ep now (known_sys (fold flat_step evs f) s) \<and> heard_since ep now (known_comp (fold flat_step evs f) (s, c))"
  using assms
proof (induction evs arbitrary: f)
  case (Cons ev evs)
  from Cons.prems have "keeps now s ev" "\<forall>ev \<in> set evs. keeps now s ev" by simp_all
  with Cons.IH heard_since_step [OF Cons.prems(1,2)] show ?case by simp
qed simp

lemma heard_since_run:
  assumes "\<forall>ev \<in> set later. keeps now s ev"
  shows "heard_since ep now (known_sys (flat_run (earlier @ Observe clock ep s c now # later)) s)"
    and "heard_since ep now (known_comp (flat_run (earlier @ Observe clock ep s c now # later)) (s, c))"
  using heard_since_fold [of ep now "flat_observe ep s c now (flat_run earlier)" s c later] assms
  by (simp_all add: flat_run_def flat_observe_def heard_since_learn)

lemma heard_since_seen: "heard_since ep now k \<Longrightarrow> k \<noteq> None \<and> ep \<in> seen_on k"
  by (auto simp: heard_since_def seen_on_def split: option.splits)

text \<open>
  C25. A learned route is usable for its whole time to live: once a component has been observed
  on an endpoint, whatever happened before, and whatever happens later short of an older
  observation of the system or a prune on whose clock the observation is over age, messages for the
  component and for its whole system go out of that endpoint, and out of every endpoint that is
  grouped with it.
\<close>
theorem learned_route_delivered:
  assumes "\<forall>ev \<in> set later. keeps now s ev"
    and "evs = earlier @ Observe clock ep s c now # later"
    and "peer = ep \<or> shares_group evs peer ep"
  shows "should_send (table_run evs) peer s c \<and> should_send (table_run evs) peer s 0"
proof -
  have "ep \<in> paths_to (flat_run evs) s c" "ep \<in> paths_to (flat_run evs) s 0"
    using heard_since_seen [OF heard_since_run(1) [OF assms(1)]] heard_since_seen [OF heard_since_run(2) [OF assms(1)]]
    by (simp_all add: paths_to_def assms(2))
  with assms(3) show ?thesis unfolding should_send_history by blast
qed

theorem learned_route_delivered_witness:
  "should_send (table_run
     ([Set_Group (EndpointId 1) ''radio'', Set_Group (EndpointId 2) ''radio''] @
       Observe 0 (EndpointId 1) 7 1 (from_secs 10) # [Prune (\<lambda>_. from_secs 300) (from_secs 300)])) (EndpointId 2) 7 1"
  using learned_route_delivered [of "[Prune (\<lambda>_. from_secs 300) (from_secs 300)]" "from_secs 10" 7 _
      "[Set_Group (EndpointId 1) ''radio'', Set_Group (EndpointId 2) ''radio'']" 0 "EndpointId 1" 1 "EndpointId 2",
      OF _ refl]
  by (simp add: keeps_def from_secs_def duration_since_def shares_group_def group_of_def)

text \<open>Nothing but an observation makes a forgotten system known again.\<close>

definition observes :: "u8 \<Rightarrow> table_event \<Rightarrow> bool" where
  "observes s ev = (case ev of Observe _ _ s' _ _ \<Rightarrow> s' = s | _ \<Rightarrow> False)"

lemma unknown_fold:
  "known_sys f s = None \<Longrightarrow> \<forall>ev \<in> set evs. \<not> observes s ev \<Longrightarrow> known_sys (fold flat_step evs f) s = None"
proof (induction evs arbitrary: f)
  case (Cons ev evs)
  have "known_sys (flat_step ev f) s = None"
    using Cons.prems by (cases ev) (auto simp: observes_def flat_observe_def flat_prune_def forget_def)
  with Cons show ?case by simp
qed simp

text \<open>
  C26. A silent system is forgotten: when a prune finds the system's last observation older than
  its limit, no message for the system leaves any endpoint from then on, until the system is
  observed again; only sniffer endpoints still receive it.
\<close>
theorem silent_system_forgotten:
  assumes "known_sys (flat_run earlier) s = Some (eps, seen)"
    and "duration_since (clk (unat s mod 16)) seen > age"
    and "\<forall>ev \<in> set later. \<not> observes s ev"
    and "s \<noteq> 0"
    and "evs = earlier @ Prune clk age # later"
  shows "should_send (table_run evs) ep s c \<longleftrightarrow>
    (\<exists>x \<in> sniffers evs. ep \<in> seen_on (known_sys (flat_run evs) x))"
proof -
  have "known_sys (flat_prune clk age (flat_run earlier)) s = None"
    using assms(1,2) by (simp add: flat_prune_def forget_def)
  from unknown_fold [OF this assms(3)] have "paths_to (flat_run evs) s c = {}"
    by (simp add: flat_run_def assms(5) paths_to_def seen_on_def)
  with assms(4) show ?thesis unfolding should_send_history by simp
qed

theorem silent_system_forgotten_witness:
  "\<not> should_send (table_run ([Observe 0 (EndpointId 1) 7 1 (from_secs 10)] @
     Prune (\<lambda>_. from_secs 311) (from_secs 300) # [Observe 0 (EndpointId 1) 8 1 (from_secs 312)])) (EndpointId 1) 7 1"
  using silent_system_forgotten [of "[Observe 0 (EndpointId 1) 7 1 (from_secs 10)]" 7 "{EndpointId 1}" "from_secs 10"
      "from_secs 300" "\<lambda>_. from_secs 311" "[Observe 0 (EndpointId 1) 8 1 (from_secs 312)]" _ "EndpointId 1" 1, OF _ _ _ _ refl]
  by (simp add: flat_run_def flat_empty_def flat_observe_def learn_def observes_def from_secs_def NANOS_PER_SEC_def duration_since_def sniffers_def)

section \<open>Throttled updates\<close>

text \<open>An endpoint was heard within the last second.\<close>

definition heard_recently :: "endpoint_id \<Rightarrow> instant \<Rightarrow> known \<Rightarrow> bool" where
  "heard_recently ep now k =
     (case k of None \<Rightarrow> False | Some (eps, t) \<Rightarrow> ep \<in> eps \<and> duration_since now t < from_secs 1)"

lemma entry_needs_update_view:
  "entry_needs_update ep now old \<longleftrightarrow> \<not> heard_recently ep now (map_option entry_view old)"
  by (cases old) (auto simp: entry_needs_update_def heard_recently_def entry_view_def)

lemma needs_update_view:
  "needs_update_for_endpoint t ep s c now \<longleftrightarrow>
     \<not> (heard_recently ep now (known_comp (view t) (s, c)) \<and> heard_recently ep now (known_sys (view t) s))"
  by (simp add: needs_update_for_endpoint_def Let_def entry_needs_update_view view_sys view_comp)


section \<open>Components and their systems\<close>

text \<open>The time stamps with which a system was observed, in order.\<close>

fun observed :: "u8 \<Rightarrow> table_event list \<Rightarrow> instant list" where
  "observed s [] = []"
| "observed s (Observe _ _ s' _ now # evs) = (if s' = s then now # observed s evs else observed s evs)"
| "observed s (_ # evs) = observed s evs"

lemma observed_append: "observed s (evs @ evs') = observed s evs @ observed s evs'"
  by (induction s evs rule: observed.induct) simp_all

definition component_within :: "known \<Rightarrow> known \<Rightarrow> bool" where
  "component_within cr sr =
     (case cr of None \<Rightarrow> True
      | Some (eps, t) \<Rightarrow> (case sr of None \<Rightarrow> False | Some (eps', t') \<Rightarrow> eps \<subseteq> eps' \<and> t \<le> t'))"

lemma component_within_learn:
  assumes "component_within cr sr" "\<And>eps t. sr = Some (eps, t) \<Longrightarrow> t \<le> now"
  shows "component_within (learn ep now cr) (learn ep now sr)" "component_within cr (learn ep now sr)"
  using assms by (fastforce simp: component_within_def learn_def split: option.splits prod.splits)+

lemma component_within_forget:
  "component_within cr sr \<Longrightarrow> component_within (forget clk age cr) (forget clk age sr)"
  by (auto simp: component_within_def forget_def duration_since_def split: option.splits)

lemma known_sys_stamp: "known_sys (flat_run evs) s = Some (eps, t) \<Longrightarrow> t \<in> set (observed s evs)"
proof (induction evs arbitrary: eps t rule: rev_induct)
  case (snoc ev evs)
  then show ?case
    by (cases ev) (auto simp: flat_run_snoc observed_append flat_observe_def flat_prune_def learn_def forget_def
        split: option.splits if_splits)
qed (simp add: flat_run_def flat_empty_def)

lemma components_within:
  "sorted (observed s evs) \<Longrightarrow> component_within (known_comp (flat_run evs) (s, c)) (known_sys (flat_run evs) s)"
proof (induction evs rule: rev_induct)
  case Nil
  then show ?case by (simp add: flat_run_def flat_empty_def component_within_def)
next
  case (snoc ev evs)
  from snoc.prems have "sorted (observed s evs)" by (simp add: observed_append sorted_append)
  then have IH: "component_within (known_comp (flat_run evs) (s, c)) (known_sys (flat_run evs) s)" by (rule snoc.IH)
  show ?case
  proof (cases ev)
    case (Observe clock ep s' c' now)
    show ?thesis
    proof (cases "s' = s")
      case True
      have "t \<le> now" if "known_sys (flat_run evs) s = Some (eps, t)" for eps t
        using known_sys_stamp [OF that] snoc.prems Observe True by (simp add: observed_append sorted_append)
      then show ?thesis using component_within_learn [OF IH, of now ep] Observe True
        by (cases "c = c'") (simp_all add: flat_run_snoc flat_observe_def)
    qed (use IH Observe in \<open>simp add: flat_run_snoc flat_observe_def\<close>)
  qed (use IH in \<open>simp_all add: flat_run_snoc flat_prune_def component_within_forget\<close>)
qed

text \<open>
  C27. While the observations of a system arrive in time order, the component routes in the table never
  outlive or exceed the system's route: a component that the shard has an entry for belongs to a
  system that it has an entry for, was last heard no later than the system, and only on endpoints on
  which the system was heard. So the fall-back from an unknown component to its system never narrows
  the choice, and pruning never strands a component.
\<close>
theorem components_within_system:
  assumes "sorted (observed s evs)"
    and "hmap_get (routes (shard_for (table_run evs) s)) (s, c) = Some e"
  shows "\<exists>e'. hmap_get (sys_routes (shard_for (table_run evs) s)) s = Some e' \<and>
    set (endpoints e) \<subseteq> set (endpoints e') \<and> last_seen e \<le> last_seen e'"
proof -
  from components_within [OF assms(1), of c] have
    "component_within (known_comp (view (table_run evs)) (s, c)) (known_sys (view (table_run evs)) s)" by (simp add: view_run)
  with assms(2) show ?thesis by (auto simp: component_within_def view_sys view_comp entry_view_def split: option.splits)
qed

text \<open>A component that two endpoints heard, and the route of its system.\<close>

theorem components_within_system_witness:
  "\<exists>e e'. hmap_get (routes (shard_for (table_run [Observe 0 (EndpointId 1) 7 1 5, Observe 0 (EndpointId 2) 7 2 6]) 7)) (7, 1) = Some e \<and>
     hmap_get (sys_routes (shard_for (table_run [Observe 0 (EndpointId 1) 7 1 5, Observe 0 (EndpointId 2) 7 2 6]) 7)) 7 = Some e' \<and>
     set (endpoints e) \<subseteq> set (endpoints e') \<and> last_seen e \<le> last_seen e'"
proof -
  let ?evs = "[Observe 0 (EndpointId 1) 7 1 5, Observe 0 (EndpointId 2) 7 2 6]"
  have "known_comp (view (table_run ?evs)) (7, 1) = Some ({EndpointId 1}, 5)"
    by (simp add: view_run flat_run_def flat_observe_def flat_empty_def learn_def)
  then obtain e where e: "hmap_get (routes (shard_for (table_run ?evs) 7)) (7, 1) = Some e" by (auto simp: view_comp)
  have "sorted (observed 7 ?evs)" by simp
  from components_within_system [OF this e] e show ?thesis by blast
qed

end
