(* ===== verification/Endpoint.thy ===== *)
theory Endpoint
  imports Dedup Msg_Filter Framing Routing
begin

text \<open>
  The core that every transport shares (\<open>src/endpoint_core.rs\<close>, \<open>stats.rs\<close>,
  \<open>spawn_context.rs\<close>): the traffic counters, the ingress pipeline filter, deduplication, route
  observation, publication, and the egress check.

  The parts an endpoint shares with the others, the deduplicator, the routing table, the queue
  of route updates, the message bus and the counters, are the fields of one state \<open>hub\<close>. The
  channels are those of the tokio crate: whether a \<open>try_send\<close> or a bus \<open>send\<close> succeeds, the
  clock readings and the hash function are inputs of a step (\<open>ingress_env\<close>); a send that
  succeeds appends to the channel's log.
\<close>

section \<open>Counters\<close>

record endpoint_stats =
  msgs_in :: u64
  msgs_out :: u64
  bytes_in :: u64
  bytes_out :: u64
  errors :: u64
  bus_lagged :: u64

definition endpoint_stats_new :: endpoint_stats where
  "endpoint_stats_new = \<lparr>msgs_in = 0, msgs_out = 0, bytes_in = 0, bytes_out = 0, errors = 0, bus_lagged = 0\<rparr>"

definition record_outgoing :: "u64 \<Rightarrow> endpoint_stats \<Rightarrow> endpoint_stats" where
  "record_outgoing bytes st = st\<lparr>msgs_out := msgs_out st + 1, bytes_out := bytes_out st + bytes\<rparr>"

record stats_snapshot =
  snap_msgs_in :: u64
  snap_msgs_out :: u64
  snap_bytes_in :: u64
  snap_bytes_out :: u64
  snap_errors :: u64
  snap_bus_lagged :: u64

definition snapshot :: "endpoint_stats \<Rightarrow> stats_snapshot" where
  "snapshot st = \<lparr>snap_msgs_in = msgs_in st, snap_msgs_out = msgs_out st, snap_bytes_in = bytes_in st,
     snap_bytes_out = bytes_out st, snap_errors = errors st, snap_bus_lagged = bus_lagged st\<rparr>"

definition show_u64 :: "u64 \<Rightarrow> string" where
  "show_u64 w = show_nat (unat w)"

definition show_snapshot :: "stats_snapshot \<Rightarrow> string" where
  "show_snapshot s =
     ''in='' @ show_u64 (snap_msgs_in s) @ ''/'' @ show_u64 (snap_bytes_in s) @
     '' out='' @ show_u64 (snap_msgs_out s) @ ''/'' @ show_u64 (snap_bytes_out s) @
     '' err='' @ show_u64 (snap_errors s) @ '' lagged='' @ show_u64 (snap_bus_lagged s)"

section \<open>The shared state\<close>

record hub =
  hub_dedup :: concurrent_dedup
  hub_table :: routing_table
  hub_routes_tx :: "route_update list"
  hub_bus :: "routed_message list"
  hub_stats :: "endpoint_id \<Rightarrow> endpoint_stats"

record endpoint_core =
  core_id :: endpoint_id
  core_filters :: endpoint_filters
  update_routing :: bool

record spawn_context =
  ctx_id :: nat
  ctx_filters :: endpoint_filters

definition endpoint_core_of :: "bool \<Rightarrow> spawn_context \<Rightarrow> endpoint_core" where
  "endpoint_core_of upd ctx = \<lparr>core_id = EndpointId (ctx_id ctx), core_filters = ctx_filters ctx, update_routing = upd\<rparr>"

text \<open>The counters of the child start at zero: its \<open>stats\<close> argument is a fresh \<open>EndpointStats\<close>.\<close>

definition child_for_client :: "nat \<Rightarrow> endpoint_core \<Rightarrow> endpoint_core" where
  "child_for_client client_id core = \<lparr>core_id = EndpointId client_id, core_filters = core_filters core, update_routing = True\<rparr>"

datatype try_send_result = Sent | Full | Closed

record ingress_env =
  ahash :: "byte list \<Rightarrow> u64"
  clock_now :: instant
  start_unix :: duration
  elapsed :: duration
  route_send :: try_send_result
  bus_send_ok :: bool

section \<open>Ingress\<close>

definition DURATION_MAX :: duration where
  "DURATION_MAX = (2 ^ 64 - 1) * NANOS_PER_SEC + (NANOS_PER_SEC - 1)"

definition timestamp_us_fast :: "duration \<Rightarrow> duration \<Rightarrow> u64" where
  "timestamp_us_fast start since_start =
     (let total = min (start + since_start) DURATION_MAX
      in of_nat (min (as_micros total) (2 ^ 64 - 1)))"

definition accept_frame :: "endpoint_core \<Rightarrow> mav_header \<Rightarrow> u32 \<Rightarrow> bool" where
  "accept_frame core hdr msg_id = (if system_id hdr = 0 then False else check_incoming (core_filters core) hdr msg_id)"

definition is_duplicate_frame :: "ingress_env \<Rightarrow> mavlink_frame \<Rightarrow> hub \<Rightarrow> bool \<times> hub" where
  "is_duplicate_frame env frame h =
     (let (dup, d) = cd_check_and_insert (ahash env) (raw_bytes frame) (hub_dedup h) in (dup, h\<lparr>hub_dedup := d\<rparr>))"

definition observe_frame_route :: "ingress_env \<Rightarrow> endpoint_core \<Rightarrow> mav_header \<Rightarrow> hub \<Rightarrow> hub" where
  "observe_frame_route env core hdr h =
     (if \<not> update_routing core then h
      else let now = clock_now env;
        needs_update = needs_update_for_endpoint (hub_table h) (core_id core) (system_id hdr) (component_id hdr) now
      in if \<not> needs_update then h
        else let update = \<lparr>ru_endpoint_id = core_id core, ru_sys_id = system_id hdr,
            ru_comp_id = component_id hdr, ru_now = now\<rparr>
        in (case route_send env of
              Sent \<Rightarrow> h\<lparr>hub_routes_tx := hub_routes_tx h @ [update]\<rparr>
            | Full \<Rightarrow> h
            | Closed \<Rightarrow> h))"

definition bump_in :: "u64 \<Rightarrow> endpoint_stats \<Rightarrow> endpoint_stats" where
  "bump_in raw_len st = st\<lparr>msgs_in := msgs_in st + 1, bytes_in := bytes_in st + raw_len\<rparr>"

definition routed_of :: "ingress_env \<Rightarrow> endpoint_core \<Rightarrow> mavlink_frame \<Rightarrow> u32 \<Rightarrow> routed_message" where
  "routed_of env core frame msg_id =
     \<lparr>source_id = core_id core, header = frame_header frame, message_id = msg_id,
      version = frame_version frame, timestamp_us = timestamp_us_fast (start_unix env) (elapsed env),
      serialized_bytes = raw_bytes frame, target = extract_target (frame_message frame)\<rparr>"

definition publish_frame :: "ingress_env \<Rightarrow> endpoint_core \<Rightarrow> mavlink_frame \<Rightarrow> u32 \<Rightarrow> hub \<Rightarrow> hub" where
  "publish_frame env core frame msg_id h =
     (let raw_len = of_nat (length (raw_bytes frame)) in
      if \<not> bus_send_ok env then h
      else h\<lparr>hub_bus := hub_bus h @ [routed_of env core frame msg_id],
        hub_stats := (hub_stats h)(core_id core := bump_in raw_len (hub_stats h (core_id core)))\<rparr>)"

definition handle_incoming_frame :: "mavlink_lib \<Rightarrow> ingress_env \<Rightarrow> endpoint_core \<Rightarrow> mavlink_frame \<Rightarrow> hub \<Rightarrow> hub" where
  "handle_incoming_frame L env core frame h =
     (let msg_id = msg_id_of L (frame_message frame) in
      if \<not> accept_frame core (frame_header frame) msg_id then h
      else let (dup, h') = is_duplicate_frame env frame h in
        if dup then h'
        else publish_frame env core frame msg_id (observe_frame_route env core (frame_header frame) h'))"

section \<open>Egress\<close>

definition check_outgoing :: "endpoint_core \<Rightarrow> routing_table \<Rightarrow> routed_message \<Rightarrow> bool" where
  "check_outgoing core t msg =
     (if source_id msg = core_id core then False
      else if \<not> filters_check_outgoing (core_filters core) (header msg) (message_id msg) then False
      else if target_system_id (target msg) = 0 then True
      else should_send t (core_id core) (target_system_id (target msg)) (target_component_id (target msg)))"

datatype recv_result = Recv_Ok routed_message | Recv_Lagged u64 | Recv_Closed

text \<open>
  The loop over the results of \<open>bus_rx.recv()\<close>; when the script ends the task stays parked,
  which is \<open>None\<close>.
\<close>

fun recv_next_bus_msg ::
    "recv_result list \<Rightarrow> endpoint_stats \<Rightarrow> (routed_message option \<times> endpoint_stats \<times> recv_result list) option" where
  "recv_next_bus_msg [] st = None"
| "recv_next_bus_msg (Recv_Ok msg # rs) st = Some (Some msg, st, rs)"
| "recv_next_bus_msg (Recv_Lagged n # rs) st = recv_next_bus_msg rs (st\<lparr>bus_lagged := bus_lagged st + n\<rparr>)"
| "recv_next_bus_msg (Recv_Closed # rs) st = Some (None, st, rs)"

end
