(* ===== verification/Hub.thy ===== *)
theory Hub
  imports Endpoint
begin

text \<open>
  Runs of the shared state: the frames that the endpoints hand in, in the order in which they are
  processed, interleaved with the dedup rotator, the routing updater (\<open>src/orchestration/updater.rs\<close>)
  and the counters of the send loops. Every step is atomic; the order of the steps is arbitrary.
\<close>

section \<open>Steps\<close>

definition ROUTE_UPDATE_QUEUE_CAPACITY :: nat where
  "ROUTE_UPDATE_QUEUE_CAPACITY = 4096"

definition ROUTE_UPDATE_BATCH_SIZE :: nat where
  "ROUTE_UPDATE_BATCH_SIZE = 256"

text \<open>
  One round of the updater on received updates: the first one and up to a batch of queued ones
  are taken out and applied in order. The prune branch is the other arm of the same select loop.
\<close>

definition apply_update :: "instant \<Rightarrow> route_update \<Rightarrow> routing_table \<Rightarrow> routing_table" where
  "apply_update clock u t = rt_update clock (ru_endpoint_id u) (ru_sys_id u) (ru_comp_id u) (ru_now u) t"

definition updater_batch :: "instant \<Rightarrow> hub \<Rightarrow> hub" where
  "updater_batch clock h =
     (let batch = take ROUTE_UPDATE_BATCH_SIZE (hub_routes_tx h)
      in h\<lparr>hub_routes_tx := drop ROUTE_UPDATE_BATCH_SIZE (hub_routes_tx h),
           hub_table := fold (apply_update clock) batch (hub_table h)\<rparr>)"

definition updater_prune :: "(nat \<Rightarrow> instant) \<Rightarrow> duration \<Rightarrow> hub \<Rightarrow> hub" where
  "updater_prune clk prune_ttl h = h\<lparr>hub_table := rt_prune clk prune_ttl (hub_table h)\<rparr>"

datatype hub_event =
    Ingress ingress_env endpoint_core mavlink_frame
  | Rotate_Dedup
  | Updater_Batch instant
  | Updater_Prune "nat \<Rightarrow> instant" duration
  | Wrote endpoint_id u64
  | Write_Failed endpoint_id
  | Lagged_Behind endpoint_id u64

definition edit_stats :: "endpoint_id \<Rightarrow> (endpoint_stats \<Rightarrow> endpoint_stats) \<Rightarrow> hub \<Rightarrow> hub" where
  "edit_stats ep f h = h\<lparr>hub_stats := (hub_stats h)(ep := f (hub_stats h ep))\<rparr>"

fun hub_step :: "mavlink_lib \<Rightarrow> hub_event \<Rightarrow> hub \<Rightarrow> hub" where
  "hub_step L (Ingress env core frame) h = handle_incoming_frame L env core frame h"
| "hub_step L Rotate_Dedup h = h\<lparr>hub_dedup := rotate_buckets (hub_dedup h)\<rparr>"
| "hub_step L (Updater_Batch clock) h = updater_batch clock h"
| "hub_step L (Updater_Prune clk ttl) h = updater_prune clk ttl h"
| "hub_step L (Wrote ep n) h = edit_stats ep (record_outgoing n) h"
| "hub_step L (Write_Failed ep) h = edit_stats ep (\<lambda>st. st\<lparr>errors := errors st + 1\<rparr>) h"
| "hub_step L (Lagged_Behind ep n) h = edit_stats ep (\<lambda>st. st\<lparr>bus_lagged := bus_lagged st + n\<rparr>) h"

definition hub_new :: "duration \<Rightarrow> routing_table \<Rightarrow> hub" where
  "hub_new p t = \<lparr>hub_dedup = concurrent_dedup_new p, hub_table = t, hub_routes_tx = [], hub_bus = [],
     hub_stats = (\<lambda>_. endpoint_stats_new)\<rparr>"

definition hub_run :: "mavlink_lib \<Rightarrow> hub_event list \<Rightarrow> hub \<Rightarrow> hub" where
  "hub_run L evs h = fold (hub_step L) evs h"

text \<open>A frame that passes the first stage at its endpoint.\<close>

definition accepted :: "mavlink_lib \<Rightarrow> endpoint_core \<Rightarrow> mavlink_frame \<Rightarrow> bool" where
  "accepted L core frame \<longleftrightarrow> accept_frame core (frame_header frame) (msg_id_of L (frame_message frame))"

text \<open>The same by the lists of the configuration: a placeholder system is refused, and the three incoming criteria hold.\<close>

definition admitted :: "mavlink_lib \<Rightarrow> endpoint_core \<times> mavlink_frame \<Rightarrow> bool" where
  "admitted L origin \<longleftrightarrow> (let (core, frame) = origin; f = core_filters core; hdr = frame_header frame in
     system_id hdr \<noteq> 0 \<and> criterion (allow_msg_id_in f) (block_msg_id_in f) (msg_id_of L (frame_message frame)) \<and>
     criterion (allow_src_comp_in f) (block_src_comp_in f) (component_id hdr) \<and>
     criterion (allow_src_sys_in f) (block_src_sys_in f) (system_id hdr))"

lemma accepted_admitted: "accepted L core frame \<longleftrightarrow> admitted L (core, frame)"
  by (simp add: admitted_def accepted_def accept_frame_def incoming_criteria Let_def)

definition known_payload :: "(byte list \<Rightarrow> u64) \<Rightarrow> mavlink_frame \<Rightarrow> hub \<Rightarrow> bool" where
  "known_payload H frame h \<longleftrightarrow> fst (cd_check_and_insert H (raw_bytes frame) (hub_dedup h))"

lemma hub_run_simps [simp]:
  "hub_run L [] h = h" "hub_run L (ev # evs) h = hub_run L evs (hub_step L ev h)"
  "hub_run L (evs @ evs') h = hub_run L evs' (hub_run L evs h)"
  by (simp_all add: hub_run_def)

lemma observe_keeps [simp]:
  "hub_dedup (observe_frame_route env core hdr h) = hub_dedup h"
  "hub_table (observe_frame_route env core hdr h) = hub_table h"
  "hub_bus (observe_frame_route env core hdr h) = hub_bus h"
  "hub_stats (observe_frame_route env core hdr h) = hub_stats h"
  by (simp_all add: observe_frame_route_def Let_def split: try_send_result.splits)

lemma publish_keeps [simp]:
  "hub_dedup (publish_frame env core frame mid h) = hub_dedup h"
  "hub_table (publish_frame env core frame mid h) = hub_table h"
  "hub_routes_tx (publish_frame env core frame mid h) = hub_routes_tx h"
  by (simp_all add: publish_frame_def Let_def)

lemma edit_stats_keeps [simp]:
  "hub_dedup (edit_stats ep f h) = hub_dedup h" "hub_table (edit_stats ep f h) = hub_table h"
  "hub_routes_tx (edit_stats ep f h) = hub_routes_tx h" "hub_bus (edit_stats ep f h) = hub_bus h"
  "hub_stats (edit_stats ep f h) e = (if e = ep then f (hub_stats h ep) else hub_stats h e)"
  by (simp_all add: edit_stats_def)

lemma updater_keeps [simp]:
  "hub_dedup (updater_batch clock h) = hub_dedup h" "hub_bus (updater_batch clock h) = hub_bus h"
  "hub_stats (updater_batch clock h) = hub_stats h"
  "hub_dedup (updater_prune clk ttl h) = hub_dedup h" "hub_bus (updater_prune clk ttl h) = hub_bus h"
  "hub_stats (updater_prune clk ttl h) = hub_stats h" "hub_routes_tx (updater_prune clk ttl h) = hub_routes_tx h"
  "hub_table (updater_prune clk ttl h) = rt_prune clk ttl (hub_table h)"
  by (simp_all add: updater_batch_def updater_prune_def Let_def)

lemma duplicate_state [simp]:
  "hub_table (snd (is_duplicate_frame env frame h)) = hub_table h"
  "hub_routes_tx (snd (is_duplicate_frame env frame h)) = hub_routes_tx h"
  "hub_bus (snd (is_duplicate_frame env frame h)) = hub_bus h"
  "hub_stats (snd (is_duplicate_frame env frame h)) = hub_stats h"
  "hub_dedup (snd (is_duplicate_frame env frame h)) =
     snd (cd_check_hash (ahash env (raw_bytes frame)) (hub_dedup h))"
  "fst (is_duplicate_frame env frame h) = known_payload (ahash env) frame h"
  by (simp_all add: is_duplicate_frame_def split_beta cd_check_and_insert_def known_payload_def)

text \<open>The whole pipeline, branch by branch.\<close>

lemma handle_rejected:
  "\<not> accepted L core frame \<Longrightarrow> handle_incoming_frame L env core frame h = h"
  by (simp add: handle_incoming_frame_def accepted_def)

lemma handle_duplicate:
  "accepted L core frame \<Longrightarrow> known_payload (ahash env) frame h \<Longrightarrow>
     handle_incoming_frame L env core frame h = snd (is_duplicate_frame env frame h)"
  by (simp add: handle_incoming_frame_def accepted_def Let_def split_beta)

lemma handle_new:
  "accepted L core frame \<Longrightarrow> \<not> known_payload (ahash env) frame h \<Longrightarrow>
     handle_incoming_frame L env core frame h =
       publish_frame env core frame (msg_id_of L (frame_message frame))
         (observe_frame_route env core (frame_header frame) (snd (is_duplicate_frame env frame h)))"
  by (simp add: handle_incoming_frame_def accepted_def Let_def split_beta)

lemma handle_cases [case_names rejected duplicate new]:
  assumes "\<not> accepted L core frame \<Longrightarrow> P" "accepted L core frame \<Longrightarrow> known_payload (ahash env) frame h \<Longrightarrow> P"
    "accepted L core frame \<Longrightarrow> \<not> known_payload (ahash env) frame h \<Longrightarrow> P"
  shows P
  using assms by blast

lemmas handle_simps = handle_rejected handle_duplicate handle_new

lemma handle_dedup:
  "hub_dedup (handle_incoming_frame L env core frame h) =
     (if accepted L core frame then snd (cd_check_hash (ahash env (raw_bytes frame)) (hub_dedup h)) else hub_dedup h)"
  by (cases rule: handle_cases [of L core frame _ env h]) (simp_all add: handle_simps)

section \<open>Duplicates\<close>

text \<open>What a run does to the deduplicator: one check for each accepted frame.\<close>

fun dedup_ops :: "mavlink_lib \<Rightarrow> (byte list \<Rightarrow> u64) \<Rightarrow> hub_event \<Rightarrow> u64 dedup_op list" where
  "dedup_ops L H (Ingress env core frame) = (if accepted L core frame then [Check (H (raw_bytes frame))] else [])"
| "dedup_ops L H Rotate_Dedup = [Rotate]"
| "dedup_ops L H _ = []"

definition same_hash :: "(byte list \<Rightarrow> u64) \<Rightarrow> hub_event \<Rightarrow> bool" where
  "same_hash H ev = (case ev of Ingress env core frame \<Rightarrow> ahash env = H | _ \<Rightarrow> True)"

definition ticks :: "hub_event list \<Rightarrow> nat" where
  "ticks evs = length (filter (\<lambda>ev. ev = Rotate_Dedup) evs)"

lemma run_ops_append:
  "snd (run_ops chk rot (xs @ ys) d) = snd (run_ops chk rot ys (snd (run_ops chk rot xs d)))"
proof (induction xs arbitrary: d)
  case (Cons x xs)
  then show ?case by (cases x) (auto simp: split_beta)
qed simp

lemma hub_dedup_step:
  assumes "same_hash H ev"
  shows "hub_dedup (hub_step L ev h) = snd (run_ops cd_check_hash rotate_buckets (dedup_ops L H ev) (hub_dedup h))"
  using assms by (cases ev) (simp_all add: same_hash_def handle_dedup split_beta)

lemma hub_dedup_run:
  "\<forall>ev \<in> set evs. same_hash H ev \<Longrightarrow>
     hub_dedup (hub_run L evs h) = snd (run_ops cd_check_hash rotate_buckets (concat (map (dedup_ops L H) evs)) (hub_dedup h))"
  by (induction evs arbitrary: h) (simp_all add: hub_dedup_step [where H = H] run_ops_append)

lemma rotations_ops: "rotations (concat (map (dedup_ops L H) evs)) = ticks evs"
proof (induction evs)
  case (Cons ev evs)
  then show ?case by (cases ev) (simp_all add: ticks_def)
qed (simp add: ticks_def)

lemma ops_split:
  "concat (map (dedup_ops L H) evs) = pre @ Check k # post \<longleftrightarrow>
     (\<exists>before env core frame after. evs = before @ Ingress env core frame # after \<and> accepted L core frame \<and>
        H (raw_bytes frame) = k \<and> concat (map (dedup_ops L H) before) = pre \<and> concat (map (dedup_ops L H) after) = post)"
  (is "?l evs pre \<longleftrightarrow> ?r evs pre")
proof
  show "?l evs pre \<Longrightarrow> ?r evs pre"
  proof (induction evs arbitrary: pre)
    case (Cons ev evs)
    show ?case
    proof (cases "dedup_ops L H ev")
      case Nil
      with Cons obtain before env core frame after where "evs = before @ Ingress env core frame # after"
        "accepted L core frame" "H (raw_bytes frame) = k"
        "concat (map (dedup_ops L H) before) = pre" "concat (map (dedup_ops L H) after) = post" by auto
      with Nil show ?thesis by (intro exI [of _ "ev # before"]) auto
    next
      case ops: (Cons op ops)
      then have one: "dedup_ops L H ev = [op]" by (cases ev) (auto split: if_splits)
      show ?thesis
      proof (cases pre)
        case Nil
        with one Cons.prems have op: "op = Check k" "concat (map (dedup_ops L H) evs) = post" by simp_all
        with one obtain env core frame where "ev = Ingress env core frame" "accepted L core frame" "H (raw_bytes frame) = k"
          by (cases ev) (auto split: if_splits)
        with op Nil show ?thesis by (intro exI [of _ "[]"]) auto
      next
        case pre: (Cons x pre')
        with one Cons.prems have "op = x" "concat (map (dedup_ops L H) evs) = pre' @ Check k # post" by simp_all
        with Cons.IH obtain before env core frame after where "evs = before @ Ingress env core frame # after"
          "accepted L core frame" "H (raw_bytes frame) = k"
          "concat (map (dedup_ops L H) before) = pre'" "concat (map (dedup_ops L H) after) = post" by blast
        with one pre \<open>op = x\<close> show ?thesis by (intro exI [of _ "ev # before"]) auto
      qed
    qed
  qed simp
  show "?r evs pre \<Longrightarrow> ?l evs pre" by auto
qed

text \<open>In the age specification, a hash is known exactly if it was let through less than a window ago.\<close>

lemma age_at:
  "snd (age_check k' m) k = (if k' = k \<and> m k = None then Some 0 else m k)"
  "age_rotate w m k = (case m k of None \<Rightarrow> None | Some a \<Rightarrow> if Suc a < w then Some (Suc a) else None)"
  by (auto simp: age_check_def age_rotate_def split: option.splits)

lemma snoc_split_ex:
  "(\<exists>pre post. ops @ [op] = pre @ x # post \<and> P pre post) \<longleftrightarrow>
     (op = x \<and> P ops []) \<or> (\<exists>pre post. ops = pre @ x # post \<and> P pre (post @ [op]))"
proof
  assume "\<exists>pre post. ops @ [op] = pre @ x # post \<and> P pre post"
  then obtain pre post where e: "ops @ [op] = pre @ x # post" "P pre post" by blast
  show "(op = x \<and> P ops []) \<or> (\<exists>pre post. ops = pre @ x # post \<and> P pre (post @ [op]))"
  proof (cases post rule: rev_cases)
    case Nil
    with e show ?thesis by simp
  next
    case (snoc post' y)
    with e have "ops = pre @ x # post'" "P pre (post' @ [op])" by simp_all
    then show ?thesis by blast
  qed
next
  assume "(op = x \<and> P ops []) \<or> (\<exists>pre post. ops = pre @ x # post \<and> P pre (post @ [op]))"
  then show "\<exists>pre post. ops @ [op] = pre @ x # post \<and> P pre post" by fastforce
qed

lemma age_known_iff:
  "snd (run_ops age_check (age_rotate w) ops Map.empty) k = Some a \<longleftrightarrow>
     (\<exists>pre post. ops = pre @ Check k # post \<and> snd (run_ops age_check (age_rotate w) pre Map.empty) k = None \<and>
        rotations post = a \<and> (a < w \<or> a = 0))"
  (is "?m ops k = Some a \<longleftrightarrow> ?D ops a")
proof (induction ops arbitrary: a rule: rev_induct)
  case (snoc op ops)
  show ?case
  proof (cases op)
    case (Check k')
    have D: "?D (ops @ [op]) a \<longleftrightarrow> (k' = k \<and> ?m ops k = None \<and> a = 0) \<or> ?D ops a"
      unfolding snoc_split_ex unfolding Check by (simp add: eq_commute [of 0 a]) blast
    show ?thesis
      unfolding D snoc.IH [of a, symmetric] using Check
      by (auto simp: run_ops_append split_beta age_at(1))
  next
    case Rotate
    have D: "?D (ops @ [op]) a \<longleftrightarrow> (\<exists>b. a = Suc b \<and> ?D ops b \<and> a < w)"
    proof -
      let ?E = "\<lambda>P. \<exists>pre post. ops = pre @ Check k # post \<and> ?m pre k = None \<and> P (rotations post)"
      have "?E (\<lambda>r. r + 1 = a \<and> (a < w \<or> a = 0)) \<longleftrightarrow> ?E (\<lambda>r. r + 1 = a \<and> a < w)"
        by (intro ex_cong1 conj_cong refl) auto
      also have "\<dots> \<longleftrightarrow> (\<exists>b. a = Suc b \<and> ?E (\<lambda>r. r = b \<and> (b < w \<or> b = 0)) \<and> a < w)"
        by (metis Suc_inject Suc_lessD Suc_eq_plus1)
      finally show ?thesis unfolding snoc_split_ex unfolding Rotate by simp
    qed
    show ?thesis
      unfolding D snoc.IH [symmetric] using Rotate age_at(2) [of w "?m ops" k]
      by (cases "?m ops k") (auto simp: run_ops_append)
  qed
qed simp

lemma age_known:
  assumes "0 < w"
  shows "(\<exists>a. snd (run_ops age_check (age_rotate w) ops Map.empty) k = Some a) \<longleftrightarrow>
     (\<exists>pre post. ops = pre @ Check k # post \<and> snd (run_ops age_check (age_rotate w) pre Map.empty) k = None \<and>
        rotations post < w)"
  unfolding age_known_iff using assms by metis

lemma hub_dedup_ok:
  assumes "\<not> is_zero p" "\<forall>ev \<in> set evs. same_hash H ev"
    and d_def: "d = hub_dedup (hub_run L evs (hub_new p t))"
  shows "cd_ok d"
    and "cd_age d = snd (run_ops age_check (age_rotate (cd_window (concurrent_dedup_new p)))
      (concat (map (dedup_ops L H) evs)) Map.empty)"
proof -
  have d: "d = snd (run_ops cd_check_hash rotate_buckets (concat (map (dedup_ops L H) evs)) (concurrent_dedup_new p))"
    unfolding d_def hub_dedup_run [OF assms(2)] by (simp add: hub_new_def)
  show "cd_ok d" unfolding d by (rule sharded.run_invar) (rule cd_ok_new(1) [OF assms(1)])
  show "cd_age d = snd (run_ops age_check (age_rotate (cd_window (concurrent_dedup_new p)))
      (concat (map (dedup_ops L H) evs)) Map.empty)"
    unfolding d sharded.run_age [OF cd_ok_new(1) [OF assms(1)]] by (simp add: cd_ok_new assms(1))
qed

lemma known_payload_age:
  "cd_ok (hub_dedup h) \<Longrightarrow> known_payload H frame h \<longleftrightarrow> cd_age (hub_dedup h) (H (raw_bytes frame)) \<noteq> None"
  using cd_check(1) [of "hub_dedup h" "H (raw_bytes frame)"]
  by (auto simp: known_payload_def cd_check_and_insert_def age_check_def split: option.splits)

lemma known_payload_run:
  assumes "\<not> is_zero p" "\<forall>ev \<in> set evs. same_hash H ev"
  shows "known_payload H frame (hub_run L evs (hub_new p t)) \<longleftrightarrow>
    snd (run_ops age_check (age_rotate (cd_window (concurrent_dedup_new p)))
      (concat (map (dedup_ops L H) evs)) Map.empty) (H (raw_bytes frame)) \<noteq> None"
  by (simp add: known_payload_age hub_dedup_ok(1) [OF assms refl] hub_dedup_ok(2) [OF assms refl])

lemma known_payload_exact:
  assumes "\<not> is_zero p" "\<forall>ev \<in> set evs. same_hash H ev"
  shows "known_payload H frame (hub_run L evs (hub_new p t)) \<longleftrightarrow>
    (\<exists>before env core first after. evs = before @ Ingress env core first # after \<and> accepted L core first \<and>
       \<not> known_payload H first (hub_run L before (hub_new p t)) \<and> H (raw_bytes first) = H (raw_bytes frame) \<and>
       ticks after < max (usize_try_from_or_max (as_millis p div 100)) 2)"
  (is "_ \<longleftrightarrow> ?R")
proof -
  let ?w = "cd_window (concurrent_dedup_new p)" and ?k = "H (raw_bytes frame)" and ?ops = "\<lambda>evs. concat (map (dedup_ops L H) evs)"
  have w: "?w = max (usize_try_from_or_max (as_millis p div 100)) 2"
    using assms(1) by (simp add: cd_ok_new num_buckets_new)
  have "known_payload H frame (hub_run L evs (hub_new p t)) \<longleftrightarrow>
      (\<exists>a. snd (run_ops age_check (age_rotate ?w) (?ops evs) Map.empty) ?k = Some a)"
    using known_payload_run [OF assms] by auto
  also have "\<dots> \<longleftrightarrow> (\<exists>pre post. ?ops evs = pre @ Check ?k # post \<and>
      snd (run_ops age_check (age_rotate ?w) pre Map.empty) ?k = None \<and> rotations post < ?w)"
    using w by (intro age_known) simp
  also have "\<dots> \<longleftrightarrow> (\<exists>before env core first after. evs = before @ Ingress env core first # after \<and>
      accepted L core first \<and> H (raw_bytes first) = ?k \<and>
      snd (run_ops age_check (age_rotate ?w) (?ops before) Map.empty) ?k = None \<and> ticks after < ?w)"
    unfolding ops_split rotations_ops [where L = L and H = H, symmetric] by blast
  also have "\<dots> \<longleftrightarrow> ?R"
  proof (intro ex_cong1 iffI)
    fix before env core first after
    have known: "evs = before @ Ingress env core first # after \<Longrightarrow>
        known_payload H first (hub_run L before (hub_new p t)) \<longleftrightarrow>
        snd (run_ops age_check (age_rotate ?w) (?ops before) Map.empty) (H (raw_bytes first)) \<noteq> None"
      using assms by (intro known_payload_run) auto
    show "evs = before @ Ingress env core first # after \<and> accepted L core first \<and>
        \<not> known_payload H first (hub_run L before (hub_new p t)) \<and> H (raw_bytes first) = ?k \<and>
        ticks after < max (usize_try_from_or_max (as_millis p div 100)) 2"
      if "evs = before @ Ingress env core first # after \<and> accepted L core first \<and> H (raw_bytes first) = ?k \<and>
        snd (run_ops age_check (age_rotate ?w) (?ops before) Map.empty) ?k = None \<and> ticks after < ?w"
      using that known w by simp
    show "evs = before @ Ingress env core first # after \<and> accepted L core first \<and> H (raw_bytes first) = ?k \<and>
        snd (run_ops age_check (age_rotate ?w) (?ops before) Map.empty) ?k = None \<and> ticks after < ?w"
      if "evs = before @ Ingress env core first # after \<and> accepted L core first \<and>
        \<not> known_payload H first (hub_run L before (hub_new p t)) \<and> H (raw_bytes first) = ?k \<and>
        ticks after < max (usize_try_from_or_max (as_millis p div 100)) 2"
      using that known w by simp
  qed
  finally show ?thesis .
qed

text \<open>
  What a trace says of a hash, without the deduplicator: whether a frame with it was let through
  fewer than \<open>w\<close> rotations ago. A frame is let through if its endpoint accepts it and no frame
  with its hash was let through that recently before.
\<close>

declare conj_cong [fundef_cong]

function let_through_lately :: "mavlink_lib \<Rightarrow> (byte list \<Rightarrow> u64) \<Rightarrow> nat \<Rightarrow> hub_event list \<Rightarrow> u64 \<Rightarrow> bool" where
  "let_through_lately L H w evs k \<longleftrightarrow>
     (\<exists>before env core first after. evs = before @ Ingress env core first # after \<and> admitted L (core, first) \<and>
        H (raw_bytes first) = k \<and> ticks after < w \<and> \<not> let_through_lately L H w before k)"
  by pat_completeness auto
termination by (relation "measure (\<lambda>(L, H, w, evs, k). length evs)") auto

declare let_through_lately.simps [simp del]

lemma known_payload_lately:
  assumes "\<not> is_zero p" "\<forall>ev \<in> set evs. same_hash H ev"
  shows "known_payload H frame (hub_run L evs (hub_new p t)) \<longleftrightarrow>
    let_through_lately L H (max (usize_try_from_or_max (as_millis p div 100)) 2) evs (H (raw_bytes frame))"
  using assms(2)
proof (induction "length evs" arbitrary: evs frame rule: less_induct)
  case less
  have IH: "known_payload H first (hub_run L before (hub_new p t)) \<longleftrightarrow>
      let_through_lately L H (max (usize_try_from_or_max (as_millis p div 100)) 2) before (H (raw_bytes first))"
    if "evs = before @ Ingress env core first # after" for before env core first after
    using that less by simp
  show ?case
    unfolding known_payload_exact [OF assms(1) less.prems] let_through_lately.simps [of L H _ evs] accepted_admitted [symmetric]
    using IH by (intro ex_cong1) auto
qed

lemma bus_step:
  "hub_bus (hub_step L ev h) = hub_bus h @
     (case ev of Ingress env core frame \<Rightarrow>
        (if accepted L core frame \<and> \<not> known_payload (ahash env) frame h \<and> bus_send_ok env
         then [routed_of env core frame (msg_id_of L (frame_message frame))] else [])
      | _ \<Rightarrow> [])"
proof (cases ev)
  case (Ingress env core frame)
  then show ?thesis
    by (cases rule: handle_cases [of L core frame _ env h]) (simp_all add: handle_simps publish_frame_def Let_def)
qed simp_all

lemma bus_ingress:
  "hub_bus (handle_incoming_frame L e core f h) = hub_bus h @
     (if accepted L core f \<and> \<not> known_payload (ahash e) f h \<and> bus_send_ok e
      then [routed_of e core f (msg_id_of L (frame_message f))] else [])"
  using bus_step [of L "Ingress e core f" h] by simp

text \<open>
  C6. Duplicate suppression across all endpoints is exact. After any interleaving of frames from any endpoints with
  rotations, updates, prunes and sends, a frame that is handed in is published, in one message with
  its bytes, exactly when its endpoint accepts it (its system id is not 0, and it passes the incoming lists) and no accepted
  frame with the same hash of its bytes was let through,
  by whichever endpoint, less than \<open>max (period / 100ms) 2\<close> rotations ago (and the bus takes it). A suppressed frame
  leaves table, queue, bus and counters as they were; and it does not count as let through, so
  repeating a payload does not suppress it for longer.
\<close>
theorem duplicates_exact:
  assumes "\<not> is_zero p" "\<forall>ev \<in> set evs. same_hash H ev" "ahash env = H"
  shows "let h = hub_run L evs (hub_new p t); h' = handle_incoming_frame L env core frame h;
      lately = let_through_lately L H (max (usize_try_from_or_max (as_millis p div 100)) 2) evs (H (raw_bytes frame)) in
    map (\<lambda>m. (source_id m, serialized_bytes m)) (hub_bus h') = map (\<lambda>m. (source_id m, serialized_bytes m)) (hub_bus h) @
      (if admitted L (core, frame) \<and> \<not> lately \<and> bus_send_ok env then [(core_id core, raw_bytes frame)] else []) \<and>
    (if admitted L (core, frame) \<and> \<not> lately then True
     else hub_table h' = hub_table h \<and> hub_routes_tx h' = hub_routes_tx h \<and> hub_bus h' = hub_bus h \<and> hub_stats h' = hub_stats h)"
proof -
  let ?h = "hub_run L evs (hub_new p t)"
  note known = known_payload_lately [OF assms(1,2), of frame L t]
  show ?thesis
    by (cases rule: handle_cases [of L core frame _ env ?h])
      (simp_all add: known [symmetric] accepted_admitted [symmetric] assms(3) bus_ingress handle_simps Let_def routed_of_def)
qed

text \<open>Two endpoints without filters, and a frame of system 1, for the examples.\<close>

definition sample_core :: "nat \<Rightarrow> endpoint_core" where
  "sample_core n = \<lparr>core_id = EndpointId n, core_filters = default_filters, update_routing = True\<rparr>"

definition sample_frame :: "u8 \<Rightarrow> mavlink_frame" where
  "sample_frame s = \<lparr>frame_header = \<lparr>system_id = s, component_id = 1, sequence = 0\<rparr>,
     frame_message = OTHER_MESSAGE 0, frame_version = V2, raw_bytes = [0xFD, s, 1, 0]\<rparr>"

definition sample_env :: ingress_env where
  "sample_env = \<lparr>ahash = (\<lambda>xs. of_nat (length xs)), clock_now = 0, start_unix = 0, elapsed = 0,
     route_send = Sent, bus_send_ok = True\<rparr>"

lemma sample_accepted: "s \<noteq> 0 \<Longrightarrow> accepted L (sample_core n) (sample_frame s)"
  by (simp add: accepted_def accept_frame_def sample_core_def sample_frame_def)

text \<open>After a frame was let through and the wheel has turned once, the same bytes from another endpoint stay off the bus.\<close>

theorem duplicates_exact_witness:
  "let h = hub_run sample_lib [Ingress sample_env (sample_core 0) (sample_frame 1), Rotate_Dedup] (hub_new (from_millis 500) routing_table_new) in
   let_through_lately sample_lib (ahash sample_env) 5 [Ingress sample_env (sample_core 0) (sample_frame 1), Rotate_Dedup] 4 \<and>
   hub_bus (handle_incoming_frame sample_lib sample_env (sample_core 1) (sample_frame 1) h) = hub_bus h"
proof -
  let ?evs = "[Ingress sample_env (sample_core 0) (sample_frame 1), Rotate_Dedup]" and ?H = "ahash sample_env"
  have "\<not> let_through_lately sample_lib ?H 5 [] 4" by (subst let_through_lately.simps) simp
  then have lately: "let_through_lately sample_lib ?H 5 ?evs 4"
    using sample_accepted [of 1 sample_lib 0] unfolding accepted_admitted
    by (subst let_through_lately.simps)
      (rule exI [of _ "[]"], simp add: ticks_def, simp add: sample_env_def sample_frame_def)
  have window: "max (usize_try_from_or_max (as_millis (from_millis 500) div 100)) 2 = 5"
    by (simp add: time_simps usize_try_from_or_max_def USIZE_MAX_def)
  have "\<not> is_zero (from_millis 500)" by (simp add: is_zero_def time_simps)
  moreover have "\<forall>ev \<in> set ?evs. same_hash ?H ev" by (simp add: same_hash_def)
  moreover have "?H (raw_bytes (sample_frame 1)) = 4" by (simp add: sample_env_def sample_frame_def)
  ultimately show ?thesis
    using duplicates_exact [of "from_millis 500" ?evs ?H sample_env sample_lib routing_table_new "sample_core 1" "sample_frame 1"] lately
    unfolding window by (simp add: Let_def)
qed

section \<open>The bus and the counters\<close>

definition from_endpoint :: "endpoint_id \<Rightarrow> hub \<Rightarrow> routed_message list" where
  "from_endpoint ep h = filter (\<lambda>m. source_id m = ep) (hub_bus h)"

definition bus_bytes :: "routed_message list \<Rightarrow> nat" where
  "bus_bytes ms = sum_list (map (\<lambda>m. length (serialized_bytes m)) ms)"

definition accounted :: "hub \<Rightarrow> bool" where
  "accounted h \<longleftrightarrow> (\<forall>ep. msgs_in (hub_stats h ep) = of_nat (length (from_endpoint ep h)) \<and>
     bytes_in (hub_stats h ep) = of_nat (bus_bytes (from_endpoint ep h)))"

lemma accounted_edit:
  "accounted h \<Longrightarrow> (\<And>st. msgs_in (f st) = msgs_in st \<and> bytes_in (f st) = bytes_in st) \<Longrightarrow> accounted (edit_stats ep f h)"
  by (simp add: accounted_def from_endpoint_def)

lemma accounted_publish:
  "accounted h \<Longrightarrow> accounted (publish_frame env core frame mid h)"
  by (simp add: accounted_def publish_frame_def from_endpoint_def bus_bytes_def routed_of_def bump_in_def Let_def)

lemma accounted_cong:
  "accounted h \<Longrightarrow> hub_bus h' = hub_bus h \<Longrightarrow> hub_stats h' = hub_stats h \<Longrightarrow> accounted h'"
  by (simp add: accounted_def from_endpoint_def)

lemma accounted_step:
  assumes "accounted h"
  shows "accounted (hub_step L ev h)"
proof (cases ev)
  case (Ingress env core frame)
  have same: "accounted (snd (is_duplicate_frame env frame h))"
    "accounted (observe_frame_route env core hdr (snd (is_duplicate_frame env frame h)))" for hdr
    by (rule accounted_cong [OF assms]; simp)+
  show ?thesis unfolding Ingress hub_step.simps
    by (cases rule: handle_cases [of L core frame _ env h])
      (simp_all add: handle_simps accounted_publish same assms)
next
  case Rotate_Dedup
  show ?thesis by (rule accounted_cong [OF assms]) (simp_all add: Rotate_Dedup)
next
  case (Updater_Batch clock)
  show ?thesis by (rule accounted_cong [OF assms]) (simp_all add: Updater_Batch)
next
  case (Updater_Prune clk ttl)
  show ?thesis by (rule accounted_cong [OF assms]) (simp_all add: Updater_Prune)
qed (simp_all add: accounted_edit assms record_outgoing_def)

text \<open>
  C23. The ingress counters are those of the bus: after any run, every endpoint's message count and
  byte count are, modulo \<open>2^64\<close>, the number and the total size of the messages on the bus that
  carry its id. Rejected, suppressed and unsent frames, and whatever the send loops count, do not
  change them.
\<close>
theorem ingress_accounting:
  "msgs_in (hub_stats (hub_run L evs (hub_new p t)) ep) = of_nat (length (from_endpoint ep (hub_run L evs (hub_new p t)))) \<and>
   bytes_in (hub_stats (hub_run L evs (hub_new p t)) ep) = of_nat (bus_bytes (from_endpoint ep (hub_run L evs (hub_new p t))))"
proof -
  have "accounted h \<Longrightarrow> accounted (hub_run L evs h)" for h
    by (induction evs arbitrary: h) (simp_all add: accounted_step)
  moreover have "accounted (hub_new p t)"
    by (simp add: accounted_def hub_new_def endpoint_stats_new_def from_endpoint_def bus_bytes_def)
  ultimately show ?thesis unfolding accounted_def by blast
qed

text \<open>The message that a frame would become, when its endpoint accepts it.\<close>

definition candidate :: "mavlink_lib \<Rightarrow> hub_event \<Rightarrow> routed_message list" where
  "candidate L ev =
     (case ev of Ingress env core frame \<Rightarrow>
        (if accepted L core frame then [routed_of env core frame (msg_id_of L (frame_message frame))] else [])
      | _ \<Rightarrow> [])"

lemma bus_subseq: "subseq (hub_bus (hub_run L evs h)) (hub_bus h @ concat (map (candidate L) evs))"
proof (induction evs arbitrary: h)
  case (Cons ev evs)
  have "subseq (hub_bus (hub_step L ev h)) (hub_bus h @ candidate L ev)"
    by (auto simp: bus_step candidate_def split: hub_event.split)
  then have "subseq (hub_bus (hub_step L ev h) @ concat (map (candidate L) evs))
      (hub_bus h @ concat (map (candidate L) (ev # evs)))"
    using list_emb_append_mono [of "(=)" "hub_bus (hub_step L ev h)" "hub_bus h @ candidate L ev"
        "concat (map (candidate L) evs)" "concat (map (candidate L) evs)"] by simp
  with Cons.IH [of "hub_step L ev h"] show ?case using subseq_order.trans by simp
qed simp

lemma subseq_member: "subseq xs ys \<Longrightarrow> x \<in> set xs \<Longrightarrow> x \<in> set ys"
  by (auto elim: list_emb_set)

lemma bus_source:
  assumes "m \<in> set (hub_bus (hub_run L evs (hub_new p t)))"
  obtains env core frame where "Ingress env core frame \<in> set evs" "accepted L core frame"
    "m = routed_of env core frame (msg_id_of L (frame_message frame))"
proof -
  have "m \<in> set (concat (map (candidate L) evs))"
    using subseq_member [OF bus_subseq assms] by (simp add: hub_new_def)
  then obtain ev where "ev \<in> set evs" "m \<in> set (candidate L ev)" by auto
  with that show thesis by (auto simp: candidate_def split: hub_event.splits if_splits)
qed

text \<open>What came in, in order; and that a message is a frame of an endpoint, field by field.\<close>

definition arrivals :: "hub_event list \<Rightarrow> (endpoint_core \<times> mavlink_frame) list" where
  "arrivals evs = concat (map (\<lambda>ev. case ev of Ingress env core frame \<Rightarrow> [(core, frame)] | _ \<Rightarrow> []) evs)"

lemma arrivals_snoc:
  "arrivals (evs @ [ev]) = arrivals evs @ (case ev of Ingress env core frame \<Rightarrow> [(core, frame)] | _ \<Rightarrow> [])"
  by (simp add: arrivals_def)

definition carries :: "mavlink_lib \<Rightarrow> routed_message \<Rightarrow> endpoint_core \<times> mavlink_frame \<Rightarrow> bool" where
  "carries L m origin \<longleftrightarrow> (let (core, frame) = origin in
     source_id m = core_id core \<and> header m = frame_header frame \<and> message_id m = msg_id_of L (frame_message frame) \<and>
     version m = frame_version frame \<and> serialized_bytes m = raw_bytes frame \<and> target m = extract_target (frame_message frame))"

text \<open>
  C11. Nothing appears on the bus that an endpoint did not accept: the bus carries, in the order in
  which the frames were handled and each at most once, messages whose source, header, message id, version,
  bytes and target are those of the frame and of the endpoint that read it. The sender's system id is never 0,
  and its message id, component and system pass the incoming lists of that endpoint.
\<close>
theorem bus_faithful:
  "\<exists>origins. subseq origins (arrivals evs) \<and> list_all2 (carries L) (hub_bus (hub_run L evs (hub_new p t))) origins \<and>
     list_all (admitted L) origins"
proof (induction evs rule: rev_induct)
  case Nil
  then show ?case by (intro exI [of _ "[]"]) (simp add: hub_new_def)
next
  case (snoc ev evs)
  let ?h = "hub_run L evs (hub_new p t)"
  from snoc obtain fs where fs: "subseq fs (arrivals evs)" "list_all2 (carries L) (hub_bus ?h) fs" "list_all (admitted L) fs" by blast
  show ?case
  proof (cases "hub_bus (hub_step L ev ?h) = hub_bus ?h")
    case True
    with fs show ?thesis by (intro exI [of _ fs]) (simp add: arrivals_snoc subseq_rev_drop_many)
  next
    case False
    then obtain env core frame where ev: "ev = Ingress env core frame" by (cases ev) simp_all
    with False have new: "accepted L core frame"
      "hub_bus (hub_step L ev ?h) = hub_bus ?h @ [routed_of env core frame (msg_id_of L (frame_message frame))]"
      by (auto simp: bus_ingress split: if_splits)
    then have "admitted L (core, frame)" by (simp add: accepted_admitted)
    moreover have "carries L (routed_of env core frame (msg_id_of L (frame_message frame))) (core, frame)"
      by (simp add: carries_def routed_of_def)
    ultimately show ?thesis using fs ev new
      by (intro exI [of _ "fs @ [(core, frame)]"])
        (simp add: arrivals_snoc list_all2_appendI list_emb_append_mono)
  qed
qed

section \<open>Where routes come from\<close>

text \<open>The observations that accepted frames give rise to.\<close>

definition heard :: "mavlink_lib \<Rightarrow> hub_event list \<Rightarrow> (endpoint_id \<times> u8 \<times> u8) set" where
  "heard L evs = {(core_id core, system_id (frame_header frame), component_id (frame_header frame)) | env core frame.
     Ingress env core frame \<in> set evs \<and> accepted L core frame \<and> update_routing core}"

definition sourced :: "(endpoint_id \<times> u8 \<times> u8) set \<Rightarrow> flat_table \<Rightarrow> bool" where
  "sourced A f \<longleftrightarrow> (\<forall>s c ep. ep \<in> seen_on (known_comp f (s, c)) \<longrightarrow> (ep, s, c) \<in> A) \<and>
     (\<forall>s ep. ep \<in> seen_on (known_sys f s) \<longrightarrow> (\<exists>c. (ep, s, c) \<in> A)) \<and>
     (\<forall>s. known_sys f s \<noteq> None \<longrightarrow> (\<exists>ep c. (ep, s, c) \<in> A))"

definition update_key :: "route_update \<Rightarrow> endpoint_id \<times> u8 \<times> u8" where
  "update_key u = (ru_endpoint_id u, ru_sys_id u, ru_comp_id u)"

definition routes_sourced :: "(endpoint_id \<times> u8 \<times> u8) set \<Rightarrow> hub \<Rightarrow> bool" where
  "routes_sourced A h \<longleftrightarrow> rt_ok (hub_table h) \<and> sourced A (view (hub_table h)) \<and> update_key ` set (hub_routes_tx h) \<subseteq> A"

lemma sourced_mono: "sourced A f \<Longrightarrow> A \<subseteq> B \<Longrightarrow> sourced B f"
  unfolding sourced_def by blast

lemma sourced_observe: "sourced A f \<Longrightarrow> (ep, s, c) \<in> A \<Longrightarrow> sourced A (flat_observe ep s c now f)"
  by (auto simp: sourced_def flat_observe_def seen_on_def learn_def split: option.splits)

lemma sourced_prune: "sourced A f \<Longrightarrow> sourced A (flat_prune clk age f)"
  by (fastforce simp: sourced_def flat_prune_def seen_on_def forget_def split: option.splits if_splits)

lemma sourced_updates:
  "rt_ok t \<Longrightarrow> sourced A (view t) \<Longrightarrow> update_key ` set us \<subseteq> A \<Longrightarrow>
     rt_ok (fold (apply_update clock) us t) \<and> sourced A (view (fold (apply_update clock) us t))"
proof (induction us arbitrary: t)
  case (Cons u us)
  from Cons.prems have "rt_ok (apply_update clock u t)" "sourced A (view (apply_update clock u t))"
    by (simp_all add: apply_update_def update_key_def view_update sourced_observe rt_ok_update)
  with Cons show ?case by simp
qed simp

lemma observe_queue:
  "set (hub_routes_tx (observe_frame_route env core hdr h)) \<subseteq> set (hub_routes_tx h) \<union>
     (if update_routing core then {u. update_key u = (core_id core, system_id hdr, component_id hdr)} else {})"
  by (auto simp: observe_frame_route_def update_key_def Let_def split: try_send_result.splits)

lemma heard_snoc: "heard L evs \<subseteq> heard L (evs @ [ev])"
  by (auto simp: heard_def)

lemma heard_last:
  "accepted L core frame \<Longrightarrow> update_routing core \<Longrightarrow>
     (core_id core, system_id (frame_header frame), component_id (frame_header frame)) \<in> heard L (evs @ [Ingress env core frame])"
  by (auto simp: heard_def)

lemma routes_sourced_cong:
  "routes_sourced A h \<Longrightarrow> hub_table h' = hub_table h \<Longrightarrow> update_key ` set (hub_routes_tx h') \<subseteq> B \<Longrightarrow> A \<subseteq> B \<Longrightarrow>
     routes_sourced B h'"
  by (auto simp: routes_sourced_def intro: sourced_mono)

lemma routes_sourced_run:
  assumes "rt_ok t" "view t = flat_empty"
  shows "routes_sourced (heard L evs) (hub_run L evs (hub_new p t))"
proof (induction evs rule: rev_induct)
  case Nil
  then show ?case
    using assms by (simp add: routes_sourced_def hub_new_def sourced_def flat_empty_def seen_on_def)
next
  case (snoc ev evs)
  let ?h = "hub_run L evs (hub_new p t)"
  from snoc have q: "update_key ` set (hub_routes_tx ?h) \<subseteq> heard L (evs @ [ev])"
    using heard_snoc [of L evs ev] by (auto simp: routes_sourced_def)
  then have q': "u \<in> set (hub_routes_tx ?h) \<Longrightarrow> update_key u \<in> heard L (evs @ [ev])" for u by blast
  note cong = routes_sourced_cong [OF snoc _ _ heard_snoc]
  have ok: "rt_ok (hub_table ?h)" "sourced (heard L evs) (view (hub_table ?h))"
    using snoc by (simp_all add: routes_sourced_def)
  have "routes_sourced (heard L (evs @ [ev])) (hub_step L ev ?h)"
  proof (cases ev)
    case (Ingress env core frame)
    show ?thesis
    proof (cases rule: handle_cases [of L core frame _ env ?h])
      case new
      have "update_key ` set (hub_routes_tx (observe_frame_route env core (frame_header frame) (snd (is_duplicate_frame env frame ?h))))
          \<subseteq> heard L (evs @ [ev])"
        using observe_queue [of env core "frame_header frame" "snd (is_duplicate_frame env frame ?h)"] q'
          heard_last [OF new(1), of evs env] Ingress
        by (fastforce split: if_splits)
      then show ?thesis using new Ingress q by (intro cong) (simp_all add: handle_simps)
    qed (use Ingress q in \<open>auto intro!: cong simp: handle_simps\<close>)
  next
    case (Updater_Batch clock)
    have "update_key ` set (take ROUTE_UPDATE_BATCH_SIZE (hub_routes_tx ?h)) \<subseteq> heard L (evs @ [ev])"
      "update_key ` set (drop ROUTE_UPDATE_BATCH_SIZE (hub_routes_tx ?h)) \<subseteq> heard L (evs @ [ev])"
      using q set_take_subset set_drop_subset by fastforce+
    then show ?thesis
      using sourced_updates [OF ok(1) sourced_mono [OF ok(2) heard_snoc]] Updater_Batch
      by (simp add: routes_sourced_def updater_batch_def Let_def)
  next
    case (Updater_Prune clk ttl)
    then show ?thesis
      using q ok sourced_mono [OF sourced_prune [OF ok(2)] heard_snoc]
      by (simp add: routes_sourced_def view_prune rt_ok_prune)
  qed (use q in \<open>auto intro!: cong\<close>)
  then show ?case by simp
qed

text \<open>
  C24. Routes come only from traffic: after any run from an empty table, an endpoint is a path to a
  component only if that endpoint accepted a frame of exactly that system and component, and a path
  to a system only if it accepted a frame of one of its components. The placeholder system 0 never
  enters the table.
\<close>
theorem routes_from_traffic:
  assumes "rt_ok t" "view t = flat_empty"
    and "f = view (hub_table (hub_run L evs (hub_new p t)))"
  shows "seen_on (known_comp f (s, c)) \<subseteq> {ep. (ep, s, c) \<in> heard L evs} \<and>
    seen_on (known_sys f s) \<subseteq> {ep. \<exists>c. (ep, s, c) \<in> heard L evs} \<and>
    known_sys f 0 = None"
proof -
  have "sourced (heard L evs) f"
    using routes_sourced_run [OF assms(1,2)] by (simp add: routes_sourced_def assms(3))
  moreover have "(ep, 0, c) \<notin> heard L evs" for ep c
    by (auto simp: heard_def accepted_def accept_frame_def)
  ultimately show ?thesis unfolding sourced_def by blast
qed

theorem routes_from_traffic_witness:
  "known_sys (view (hub_table (hub_run sample_lib
     [Ingress sample_env (sample_core 0) (sample_frame 1), Updater_Batch 0] (hub_new (from_millis 500) routing_table_new)))) 0 = None"
  using routes_from_traffic [OF rt_ok_new _ refl, of sample_lib
      "[Ingress sample_env (sample_core 0) (sample_frame 1), Updater_Batch 0]" "from_millis 500" 1 1]
  by (simp add: view_new flat_empty_def)

section \<open>Where a routed message goes\<close>

text \<open>
  C7. The complete egress decision: a message on the bus goes out of an endpoint exactly when
  another endpoint read it, the endpoint's outgoing criteria for message id, source component and
  source system all hold, and the target is a broadcast, or a sniffer has been heard on the
  endpoint, or the endpoint or a member of its group is a known path to the target. In particular
  nothing is echoed to its source, not even to a sniffer, and no filter can be bypassed by a route.
\<close>
theorem egress_policy:
  "check_outgoing core (table_run evs) m \<longleftrightarrow>
     source_id m \<noteq> core_id core \<and>
     criterion (allow_msg_id_out (core_filters core)) (block_msg_id_out (core_filters core)) (message_id m) \<and>
     criterion (allow_src_comp_out (core_filters core)) (block_src_comp_out (core_filters core)) (component_id (header m)) \<and>
     criterion (allow_src_sys_out (core_filters core)) (block_src_sys_out (core_filters core)) (system_id (header m)) \<and>
     (target_system_id (target m) = 0 \<or>
      (\<exists>x \<in> sniffers evs. core_id core \<in> seen_on (known_sys (flat_run evs) x)) \<or>
      (\<exists>e \<in> paths_to (flat_run evs) (target_system_id (target m)) (target_component_id (target m)).
         e = core_id core \<or> shares_group evs (core_id core) e))"
  by (auto simp: check_outgoing_def outgoing_criteria should_send_history)

text \<open>
  Waiting for the next message loses none that the channel still holds: the call skips exactly
  the leading lag reports, adds their counts to the endpoint's counter, and then
  returns the message, or \<open>None\<close> when the bus is closed, leaving the rest of the channel untouched.
\<close>

lemma recv_next_skips_lag:
  "recv_next_bus_msg (map Recv_Lagged ns @ r # rs) st =
     (case r of
        Recv_Ok m \<Rightarrow> Some (Some m, st\<lparr>bus_lagged := bus_lagged st + sum_list ns\<rparr>, rs)
      | Recv_Closed \<Rightarrow> Some (None, st\<lparr>bus_lagged := bus_lagged st + sum_list ns\<rparr>, rs)
      | Recv_Lagged n \<Rightarrow> recv_next_bus_msg rs (st\<lparr>bus_lagged := bus_lagged st + sum_list ns + n\<rparr>))"
  by (induction ns arbitrary: st) (auto simp: add.assoc split: recv_result.split)

end
