(* ===== verification/Errors.thy ===== *)
theory Errors
  imports Prelude
begin

text \<open>
  \<open>RouterError\<close> (\<open>src/error.rs\<close>): its variants, constructors and \<open>Display\<close> texts. The errors
  of the io, toml and serial libraries are kept as their own texts, which is all that the router
  uses of them.
\<close>

type_synonym io_error = string
type_synonym toml_error = string
type_synonym serial_error = string

datatype router_error =
    ConfigParse toml_error
  | ConfigParseFile string toml_error
  | ConfigValidation string
  | Network string io_error
  | Serial_Error string serial_error
  | SerialTimeout string nat
  | Filesystem string io_error

definition config_parse :: "toml_error \<Rightarrow> router_error" where
  "config_parse source = ConfigParse source"

definition config_parse_file :: "string \<Rightarrow> toml_error \<Rightarrow> router_error" where
  "config_parse_file path source = ConfigParseFile path source"

definition config_validation :: "string \<Rightarrow> router_error" where
  "config_validation context = ConfigValidation context"

definition config_error :: "string \<Rightarrow> router_error" where
  "config_error msg = config_validation msg"

definition network_error :: "string \<Rightarrow> io_error \<Rightarrow> router_error" where
  "network_error endpoint source = Network endpoint source"

definition serial_error :: "string \<Rightarrow> serial_error \<Rightarrow> router_error" where
  "serial_error device source = Serial_Error device source"

definition serial_timeout :: "string \<Rightarrow> nat \<Rightarrow> router_error" where
  "serial_timeout device timeout_secs = SerialTimeout device timeout_secs"

definition filesystem_error :: "string \<Rightarrow> io_error \<Rightarrow> router_error" where
  "filesystem_error path source = Filesystem path source"

fun show_router_error :: "router_error \<Rightarrow> string" where
  "show_router_error (ConfigParse source) = ''Failed to parse TOML config: '' @ source"
| "show_router_error (ConfigParseFile path source) =
     ''Failed to parse TOML config file '' @ [CHR 0x27] @ path @ [CHR 0x27] @ '': '' @ source"
| "show_router_error (ConfigValidation context) = ''Configuration validation error: '' @ context"
| "show_router_error (Network endpoint source) =
     ''Network error on endpoint '' @ [CHR 0x27] @ endpoint @ [CHR 0x27] @ '': '' @ source"
| "show_router_error (Serial_Error device source) =
     ''Serial port error on '' @ [CHR 0x27] @ device @ [CHR 0x27] @ '': '' @ source"
| "show_router_error (SerialTimeout device timeout_secs) =
     ''Serial port open on '' @ [CHR 0x27] @ device @ [CHR 0x27] @ '' timed out after '' @ show_nat timeout_secs @ ''s''"
| "show_router_error (Filesystem path source) =
     ''Filesystem error at '' @ [CHR 0x27] @ path @ [CHR 0x27] @ '': '' @ source"

end
