(* ===== verification/Stream_Loop.thy ===== *)
theory Stream_Loop
  imports Hub Errors
begin

text \<open>
  \<open>run_stream_loop\<close> (\<open>src/endpoint_core/stream_loop.rs\<close>), the reader and writer loops of the
  TCP and serial endpoints. The outcomes of the awaited operations are scripts: the chunks and
  errors of the socket for the reader, and the results of polling the bus for the writer, each with
  the routing table and the cancellation flag that the loop sees at that moment. A script that ends
  leaves the task parked.
\<close>

datatype loop_end = Waiting | Ended_Ok | Ended_Err router_error

section \<open>The reader\<close>

datatype read_result = Read_Bytes "byte list" | Read_Error io_error

text \<open>What the loop does to the shared state when it hands in a frame is a parameter: \<open>handle\<close>.\<close>

fun reader_loop ::
    "mavlink_lib \<Rightarrow> (mavlink_frame \<Rightarrow> 's \<Rightarrow> 's) \<Rightarrow> string \<Rightarrow> (bool \<times> read_result) list \<Rightarrow> byte list \<times> 's \<Rightarrow>
     (loop_end \<times> byte list \<times> 's) outcome option" where
  "reader_loop L handle name [] (buffer, s) = Some (Returns (Waiting, buffer, s))"
| "reader_loop L handle name ((cancelled, r) # script) (buffer, s) =
     (if cancelled then Some (Returns (Ended_Ok, buffer, s))
      else case r of
        Read_Error e \<Rightarrow> Some (Returns (Ended_Err (network_error name e), buffer, s))
      | Read_Bytes chunk \<Rightarrow>
          if chunk = [] then Some (Returns (Ended_Ok, buffer, s))
          else (case drain L (push buffer chunk) of
              None \<Rightarrow> None
            | Some Panics \<Rightarrow> Some Panics
            | Some (Returns (frames, buffer')) \<Rightarrow>
                reader_loop L handle name script (buffer', fold handle frames s)))"

section \<open>The writer\<close>

datatype poll_result = Poll_Msg routed_message | Poll_Lagged u64 | Poll_Closed | Poll_Empty

record poll =
  poll_res :: poll_result
  poll_table :: routing_table
  poll_cancelled :: bool

text \<open>
  The buffered writer: everything accepted by \<open>write_all\<close>, how much of it a successful flush has
  covered, and the outcomes of the coming write and flush calls (success when the script has ended).
\<close>

record writer =
  wr_stats :: endpoint_stats
  wr_bytes :: "byte list"
  wr_flushed :: nat
  wr_io :: "io_error option list"

definition next_io :: "writer \<Rightarrow> io_error option \<times> writer" where
  "next_io w = (case wr_io w of [] \<Rightarrow> (None, w) | r # rs \<Rightarrow> (r, w\<lparr>wr_io := rs\<rparr>))"

definition count_error :: "writer \<Rightarrow> writer" where
  "count_error w = w\<lparr>wr_stats := (wr_stats w)\<lparr>errors := errors (wr_stats w) + 1\<rparr>\<rparr>"

definition count_lagged :: "u64 \<Rightarrow> writer \<Rightarrow> writer" where
  "count_lagged n w = w\<lparr>wr_stats := (wr_stats w)\<lparr>bus_lagged := bus_lagged (wr_stats w) + n\<rparr>\<rparr>"

definition send_message :: "string \<Rightarrow> routed_message \<Rightarrow> writer \<Rightarrow> (router_error + unit) \<times> writer" where
  "send_message name msg w =
     (case next_io w of
        (Some e, w') \<Rightarrow> (Inl (network_error name e), count_error w')
      | (None, w') \<Rightarrow> (Inr (), w'\<lparr>wr_bytes := wr_bytes w' @ serialized_bytes msg,
          wr_stats := record_outgoing (of_nat (length (serialized_bytes msg))) (wr_stats w')\<rparr>))"

definition flush_writer :: "string \<Rightarrow> writer \<Rightarrow> (router_error + unit) \<times> writer" where
  "flush_writer name w =
     (case next_io w of
        (Some e, w') \<Rightarrow> (Inl (network_error name e), count_error w')
      | (None, w') \<Rightarrow> (Inr (), w'\<lparr>wr_flushed := length (wr_bytes w')\<rparr>))"

definition BATCH_SIZE :: nat where
  "BATCH_SIZE = 1024"

text \<open>
  The \<open>for _ in 0..BATCH_SIZE\<close> loop of \<open>try_recv\<close>: \<open>None\<close> when it ends and the flush follows,
  \<open>Some\<close> when it leaves the function. An exhausted script is an empty channel.
\<close>

fun batch_loop :: "endpoint_core \<Rightarrow> string \<Rightarrow> nat \<Rightarrow> poll list \<Rightarrow> writer \<Rightarrow> loop_end option \<times> poll list \<times> writer" where
  "batch_loop core name 0 ps w = (None, ps, w)"
| "batch_loop core name (Suc n) [] w = (None, [], w)"
| "batch_loop core name (Suc n) (p # ps) w =
     (case poll_res p of
        Poll_Msg m \<Rightarrow>
          (if check_outgoing core (poll_table p) m
           then (case send_message name m w of
               (Inl e, w') \<Rightarrow> (Some (Ended_Err e), ps, w')
             | (Inr _, w') \<Rightarrow> batch_loop core name n ps w')
           else batch_loop core name n ps w)
      | Poll_Empty \<Rightarrow> (None, ps, w)
      | Poll_Lagged k \<Rightarrow> batch_loop core name n ps (count_lagged k w)
      | Poll_Closed \<Rightarrow> (Some Ended_Ok, ps, w))"

lemma batch_loop_shrinks: "length (fst (snd (batch_loop core name n ps w))) \<le> length ps"
proof (induction n arbitrary: ps w)
  case (Suc n)
  show ?case
  proof (cases ps)
    case (Cons p ps')
    with Suc.IH [of ps'] show ?thesis
      by (auto split: poll_result.splits prod.splits sum.splits intro: le_SucI)
  qed simp
qed simp

lemma batch_loop_rest: "batch_loop core name n ps w = (r, ps', w') \<Longrightarrow> length ps' < Suc (length ps)"
  using batch_loop_shrinks [of core name n ps w] by simp

text \<open>What follows a received message that passes the checks: write it, then a batch, then flush.\<close>

definition message_round ::
    "endpoint_core \<Rightarrow> string \<Rightarrow> routed_message \<Rightarrow> poll list \<Rightarrow> writer \<Rightarrow> loop_end option \<times> poll list \<times> writer" where
  "message_round core name m ps w =
     (case send_message name m w of
        (Inl e, w') \<Rightarrow> (Some (Ended_Err e), ps, w')
      | (Inr _, w') \<Rightarrow>
          (case batch_loop core name BATCH_SIZE ps w' of
             (Some r, ps', w'') \<Rightarrow> (Some r, ps', w'')
           | (None, ps', w'') \<Rightarrow>
               (case flush_writer name w'' of
                  (Inl e, w3) \<Rightarrow> (Some (Ended_Err e), ps', w3)
                | (Inr _, w3) \<Rightarrow> (None, ps', w3))))"

lemma message_round_rest: "message_round core name m ps w = (r, ps', w') \<Longrightarrow> length ps' < Suc (length ps)"
  by (auto simp: message_round_def split: prod.splits sum.splits option.splits dest!: batch_loop_rest)

text \<open>\<open>recv().await\<close> skips empty polls.\<close>

function writer_loop :: "endpoint_core \<Rightarrow> string \<Rightarrow> poll list \<Rightarrow> writer \<Rightarrow> loop_end \<times> writer" where
  "writer_loop core name [] w = (Waiting, w)"
| "writer_loop core name (p # ps) w =
     (case poll_res p of
        Poll_Empty \<Rightarrow> writer_loop core name ps w
      | Poll_Lagged n \<Rightarrow> writer_loop core name ps (count_lagged n w)
      | Poll_Closed \<Rightarrow> (Ended_Ok, w)
      | Poll_Msg m \<Rightarrow>
          if poll_cancelled p then (Ended_Ok, w)
          else if \<not> check_outgoing core (poll_table p) m then writer_loop core name ps w
          else (case message_round core name m ps w of
              (Some r, _, w') \<Rightarrow> (r, w')
            | (None, ps', w') \<Rightarrow> writer_loop core name ps' w'))"
  by pat_completeness auto
termination
  by (relation "measure (\<lambda>(core, name, ps, w). length ps)") (auto dest!: message_round_rest [OF sym])

section \<open>The select\<close>

text \<open>
  \<open>tokio::select!\<close> ends with the first loop that ends, or with success on cancellation; which of
  several is first is the scheduler's choice.
\<close>

datatype first_ready = Reader_First | Writer_First | Cancelled_First

definition stream_loop_result :: "first_ready \<Rightarrow> loop_end \<Rightarrow> loop_end \<Rightarrow> loop_end" where
  "stream_loop_result who reader_end writer_end =
     (case who of Reader_First \<Rightarrow> reader_end | Writer_First \<Rightarrow> writer_end | Cancelled_First \<Rightarrow> Ended_Ok)"

section \<open>What the writer has done when it stops\<close>

text \<open>The messages among some polls that pass the egress check, and the reported losses.\<close>

definition outgoing :: "endpoint_core \<Rightarrow> poll list \<Rightarrow> routed_message list" where
  "outgoing core ps = concat (map (\<lambda>p. case poll_res p of
     Poll_Msg m \<Rightarrow> (if check_outgoing core (poll_table p) m then [m] else []) | _ \<Rightarrow> []) ps)"

definition lags :: "poll list \<Rightarrow> u64" where
  "lags ps = sum_list (map (\<lambda>p. case poll_res p of Poll_Lagged n \<Rightarrow> n | _ \<Rightarrow> 0) ps)"

definition payload :: "routed_message list \<Rightarrow> byte list" where
  "payload ms = concat (map serialized_bytes ms)"

text \<open>The writer has processed exactly these polls, and counted \<open>e\<close> errors.\<close>

definition processed :: "endpoint_core \<Rightarrow> poll list \<Rightarrow> u64 \<Rightarrow> writer \<Rightarrow> writer \<Rightarrow> bool" where
  "processed core ps e w w' \<longleftrightarrow>
     wr_bytes w' = wr_bytes w @ payload (outgoing core ps) \<and>
     wr_stats w' = (wr_stats w)\<lparr>
       msgs_out := msgs_out (wr_stats w) + of_nat (length (outgoing core ps)),
       bytes_out := bytes_out (wr_stats w) + of_nat (length (payload (outgoing core ps))),
       bus_lagged := bus_lagged (wr_stats w) + lags ps,
       errors := errors (wr_stats w) + e\<rparr> \<and>
     set (wr_io w') \<subseteq> set (wr_io w)"

definition failed_with :: "string \<Rightarrow> router_error \<Rightarrow> writer \<Rightarrow> bool" where
  "failed_with name err w \<longleftrightarrow> (\<exists>e. Some e \<in> set (wr_io w) \<and> err = network_error name e)"

lemma outgoing_simps [simp]:
  "outgoing core [] = []" "outgoing core (ps @ qs) = outgoing core ps @ outgoing core qs"
  "outgoing core (p # ps) = (case poll_res p of
     Poll_Msg m \<Rightarrow> (if check_outgoing core (poll_table p) m then m # outgoing core ps else outgoing core ps)
   | _ \<Rightarrow> outgoing core ps)"
  by (auto simp: outgoing_def split: poll_result.split)

lemma lags_simps [simp]:
  "lags [] = 0" "lags (ps @ qs) = lags ps + lags qs"
  "lags (p # ps) = (case poll_res p of Poll_Lagged n \<Rightarrow> n + lags ps | _ \<Rightarrow> lags ps)"
  by (auto simp: lags_def split: poll_result.split)

lemma payload_simps [simp]:
  "payload [] = []" "payload (m # ms) = serialized_bytes m @ payload ms" "payload (ms @ ns) = payload ms @ payload ns"
  by (simp_all add: payload_def)

lemma processed_Nil: "processed core [] 0 w w"
  by (simp add: processed_def)

lemma processed_trans:
  "processed core ps 0 w w' \<Longrightarrow> processed core qs e w' w'' \<Longrightarrow> processed core (ps @ qs) e w w''"
  by (auto simp: processed_def algebra_simps)

lemma next_io_cases:
  obtains w' where "next_io w = (None, w')" "set (wr_io w') \<subseteq> set (wr_io w)"
      "wr_bytes w' = wr_bytes w" "wr_stats w' = wr_stats w" "wr_flushed w' = wr_flushed w"
    | e w' where "next_io w = (Some e, w')" "set (wr_io w') \<subseteq> set (wr_io w)" "Some e \<in> set (wr_io w)"
      "wr_bytes w' = wr_bytes w" "wr_stats w' = wr_stats w" "wr_flushed w' = wr_flushed w"
proof (cases "wr_io w")
  case Nil
  then show ?thesis using that(1) [of w] by (simp add: next_io_def)
next
  case (Cons r rs)
  then show ?thesis
    using that(1) [of "w\<lparr>wr_io := rs\<rparr>"] that(2) [of _ "w\<lparr>wr_io := rs\<rparr>"] by (cases r) (auto simp: next_io_def)
qed

lemma send_message_cases:
  assumes "poll_res p = Poll_Msg m" "check_outgoing core (poll_table p) m"
  obtains w' where "send_message name m w = (Inr (), w')" "processed core [p] 0 w w'"
    | err w' where "send_message name m w = (Inl err, w')" "processed core [] 1 w w'" "failed_with name err w"
proof (cases w rule: next_io_cases)
  case (1 w')
  then have "send_message name m w = (Inr (), w'\<lparr>wr_bytes := wr_bytes w' @ serialized_bytes m,
      wr_stats := record_outgoing (of_nat (length (serialized_bytes m))) (wr_stats w')\<rparr>)"
    by (simp add: send_message_def)
  from that(1) [OF this] 1 assms show ?thesis by (simp add: processed_def record_outgoing_def)
next
  case (2 e w')
  then have "send_message name m w = (Inl (network_error name e), count_error w')"
    by (simp add: send_message_def)
  from that(2) [OF this] 2 show ?thesis by (auto simp: processed_def count_error_def failed_with_def)
qed

lemma flush_writer_cases:
  obtains w' where "flush_writer name w = (Inr (), w')" "processed core [] 0 w w'" "wr_flushed w' = length (wr_bytes w')"
    | err w' where "flush_writer name w = (Inl err, w')" "processed core [] 1 w w'" "failed_with name err w"
proof (cases w rule: next_io_cases)
  case (1 w')
  then have "flush_writer name w = (Inr (), w'\<lparr>wr_flushed := length (wr_bytes w')\<rparr>)" by (simp add: flush_writer_def)
  from that(1) [OF this] 1 show ?thesis by (simp add: processed_def)
next
  case (2 e w')
  then have "flush_writer name w = (Inl (network_error name e), count_error w')" by (simp add: flush_writer_def)
  from that(2) [OF this] 2 show ?thesis by (auto simp: processed_def count_error_def failed_with_def)
qed

lemma processed_lagged: "poll_res p = Poll_Lagged n \<Longrightarrow> processed core [p] 0 w (count_lagged n w)"
  by (simp add: processed_def count_lagged_def)

lemma processed_skip:
  "poll_res p = Poll_Msg m \<Longrightarrow> \<not> check_outgoing core (poll_table p) m \<Longrightarrow> processed core [p] 0 w w"
  "poll_res p = Poll_Empty \<Longrightarrow> processed core [p] 0 w w"
  by (simp_all add: processed_def)

lemma failed_with_mono: "processed core ps e w w' \<Longrightarrow> failed_with name err w' \<Longrightarrow> failed_with name err w"
  by (auto simp: processed_def failed_with_def)

abbreviation open_polls :: "poll list \<Rightarrow> bool" where
  "open_polls ps \<equiv> (\<forall>p \<in> set ps. poll_res p \<noteq> Poll_Closed)"

lemma batch_loop_result:
  "batch_loop core name n ps w = (r, ps', w') \<Longrightarrow>
     \<exists>d. open_polls d \<and> (case r of
        None \<Rightarrow> ps = d @ ps' \<and> processed core d 0 w w'
      | Some Ended_Ok \<Rightarrow> (\<exists>p. ps = d @ p # ps' \<and> poll_res p = Poll_Closed) \<and> processed core d 0 w w'
      | Some (Ended_Err err) \<Rightarrow> (\<exists>rest. ps = d @ rest) \<and> processed core d 1 w w' \<and> failed_with name err w
      | Some Waiting \<Rightarrow> False)"
  (is "_ \<Longrightarrow> \<exists>d. ?P d ps r ps' w w'")
proof (induction n arbitrary: ps w)
  case 0
  then show ?case using processed_Nil by (intro exI [of _ "[]"]) auto
next
  case (Suc n)
  show ?case
  proof (cases ps)
    case Nil
    with Suc.prems show ?thesis using processed_Nil by (intro exI [of _ "[]"]) auto
  next
    case (Cons p qs)
    have step: "\<exists>d. ?P d ps r ps' w w'"
      if "processed core [p] 0 w w1" "batch_loop core name n qs w1 = (r, ps', w')" "poll_res p \<noteq> Poll_Closed" for w1
    proof -
      from Suc.IH [OF that(2)] obtain d where "?P d qs r ps' w1 w'" by blast
      then show ?thesis
        using that(1,3) Cons processed_trans [OF that(1), of d] failed_with_mono [OF that(1)]
        by (intro exI [of _ "p # d"]) (auto split: option.splits loop_end.splits)
    qed
    show ?thesis
    proof (cases "poll_res p")
      case (Poll_Msg m)
      show ?thesis
      proof (cases "check_outgoing core (poll_table p) m")
        case True
        show ?thesis
        proof (cases rule: send_message_cases [OF Poll_Msg True, of name w])
          case (1 w1)
          with Suc.prems Cons Poll_Msg True show ?thesis by (intro step) auto
        next
          case (2 err w1)
          with Suc.prems Cons Poll_Msg True show ?thesis by (intro exI [of _ "[]"]) auto
        qed
      next
        case False
        with Suc.prems Cons Poll_Msg show ?thesis by (intro step [OF processed_skip(1)]) auto
      qed
    next
      case (Poll_Lagged k)
      with Suc.prems Cons show ?thesis by (intro step [OF processed_lagged]) auto
    next
      case Poll_Closed
      with Suc.prems Cons show ?thesis using processed_Nil by (intro exI [of _ "[]"]) auto
    next
      case Poll_Empty
      with Suc.prems Cons show ?thesis using processed_skip(2) [OF Poll_Empty] by (intro exI [of _ "[p]"]) auto
    qed
  qed
qed

definition all_flushed :: "writer \<Rightarrow> bool" where
  "all_flushed w \<longleftrightarrow> wr_flushed w = length (wr_bytes w)"

lemma message_round_result:
  assumes "message_round core name m ps w = (r, ps', w')" "poll_res p = Poll_Msg m" "check_outgoing core (poll_table p) m"
  shows "\<exists>d. open_polls d \<and> (case r of
      None \<Rightarrow> p # ps = d @ ps' \<and> processed core d 0 w w' \<and> all_flushed w' \<and> d \<noteq> []
    | Some Ended_Ok \<Rightarrow> (\<exists>q. p # ps = d @ q # ps' \<and> poll_res q = Poll_Closed) \<and> processed core d 0 w w'
    | Some (Ended_Err err) \<Rightarrow> (\<exists>rest. p # ps = d @ rest) \<and> processed core d 1 w w' \<and> failed_with name err w
    | Some Waiting \<Rightarrow> False)"
proof (cases rule: send_message_cases [OF assms(2,3), of name w])
  case (2 err w1)
  with assms(1) show ?thesis by (intro exI [of _ "[]"]) (auto simp: message_round_def)
next
  case sent: (1 w1)
  obtain b qs w2 where b: "batch_loop core name BATCH_SIZE ps w1 = (b, qs, w2)" by (metis prod_cases3)
  from batch_loop_result [OF b] obtain d where d: "open_polls d"
    "case b of None \<Rightarrow> ps = d @ qs \<and> processed core d 0 w1 w2
     | Some Ended_Ok \<Rightarrow> (\<exists>q. ps = d @ q # qs \<and> poll_res q = Poll_Closed) \<and> processed core d 0 w1 w2
     | Some (Ended_Err err) \<Rightarrow> (\<exists>rest. ps = d @ rest) \<and> processed core d 1 w1 w2 \<and> failed_with name err w1
     | Some Waiting \<Rightarrow> False" by blast
  have od: "open_polls (p # d)" using d(1) assms(2) by simp
  note both = processed_trans [OF sent(2)] and fail = failed_with_mono [OF sent(2)]
  show ?thesis
  proof (cases b)
    case (Some e)
    with assms(1) sent b have "r = Some e" "qs = ps'" "w2 = w'" by (auto simp: message_round_def)
    with Some d(2) od both [of d] fail show ?thesis
      by (intro exI [of _ "p # d"]) (auto split: loop_end.splits)
  next
    case None
    with d(2) both [of d 0 w2] have qs: "ps = d @ qs" and p2: "processed core (p # d) 0 w w2" by simp_all
    show ?thesis
    proof (cases name w2 rule: flush_writer_cases [where core = core])
      case (1 w3)
      with assms(1) sent b None qs od processed_trans [OF p2 1(2)] show ?thesis
        by (intro exI [of _ "p # d"]) (auto simp: message_round_def all_flushed_def)
    next
      case (2 err w3)
      with assms(1) sent b None qs od processed_trans [OF p2 2(2)] failed_with_mono [OF p2] show ?thesis
        by (intro exI [of _ "p # d"]) (auto simp: message_round_def)
    qed
  qed
qed

text \<open>Where the writer can be when it stops: \<open>d\<close> is what it has processed of the script.\<close>

definition stopped :: "endpoint_core \<Rightarrow> string \<Rightarrow> poll list \<Rightarrow> poll list \<Rightarrow> loop_end \<Rightarrow> writer \<Rightarrow> writer \<Rightarrow> bool" where
  "stopped core name d rest r w w' \<longleftrightarrow> open_polls d \<and>
     (case r of
        Waiting \<Rightarrow> rest = [] \<and> processed core d 0 w w'
      | Ended_Ok \<Rightarrow> (\<exists>p rest'. rest = p # rest' \<and> (poll_res p = Poll_Closed \<or> poll_cancelled p)) \<and> processed core d 0 w w'
      | Ended_Err err \<Rightarrow> processed core d 1 w w' \<and> failed_with name err w)"

lemma stopped_after:
  assumes "processed core ds 0 w w1" "open_polls ds" "stopped core name d rest r w1 w'"
  shows "stopped core name (ds @ d) rest r w w'"
  using assms processed_trans [OF assms(1), of d] failed_with_mono [OF assms(1)]
  by (auto simp: stopped_def split: loop_end.splits)

lemma stopped_intros:
  "processed core d 0 w w' \<Longrightarrow> open_polls d \<Longrightarrow> poll_res q = Poll_Closed \<or> poll_cancelled q \<Longrightarrow>
     stopped core name d (q # rest) Ended_Ok w w'"
  "processed core d 1 w w' \<Longrightarrow> open_polls d \<Longrightarrow> failed_with name err w \<Longrightarrow> stopped core name d rest (Ended_Err err) w w'"
  "stopped core name [] [] Waiting w w"
  by (simp_all add: stopped_def processed_Nil)

text \<open>A round of the writer on a message that passes the check either stops the loop or leaves the rest of the polls.\<close>

lemma message_round_cases:
  assumes "message_round core name m qs w = (b, ps', w2)" "poll_res p = Poll_Msg m" "check_outgoing core (poll_table p) m"
  obtains d where "b = None" "open_polls d" "p # qs = d @ ps'" "d \<noteq> []" "processed core d 0 w w2" "all_flushed w2"
    | r d rest where "b = Some r" "r \<noteq> Waiting" "p # qs = d @ rest" "stopped core name d rest r w w2"
proof (cases b)
  case None
  with message_round_result [OF assms] that(1) show ?thesis by auto
next
  case (Some r)
  with message_round_result [OF assms] that(2) show ?thesis
    by (cases r) (auto intro: stopped_intros)
qed

lemma writer_loop_result:
  "writer_loop core name ps w = (r, w') \<Longrightarrow>
     \<exists>d rest. ps = d @ rest \<and> stopped core name d rest r w w' \<and> (r = Waiting \<and> all_flushed w \<longrightarrow> all_flushed w')"
  (is "_ \<Longrightarrow> \<exists>d rest. ?P d rest ps w")
proof (induction "length ps" arbitrary: ps w rule: less_induct)
  case less
  show ?case
  proof (cases ps)
    case Nil
    with less.prems show ?thesis by (auto intro: stopped_intros)
  next
    case (Cons p qs)
    have resume: "\<exists>d rest. ?P d rest ps w"
      if "processed core ds 0 w w1" "open_polls ds" "ps = ds @ qs'" "ds \<noteq> []"
        "writer_loop core name qs' w1 = (r, w')" "all_flushed w \<longrightarrow> all_flushed w1" for ds qs' w1
    proof -
      from that(3,4) have "length qs' < length ps" by (cases ds) auto
      from less.hyps [OF this that(5)] obtain d rest where "?P d rest qs' w1" by blast
      with that stopped_after [OF that(1,2), of name d rest r w'] show ?thesis
        by (intro exI [of _ "ds @ d"] exI [of _ rest]) auto
    qed
    note run = less.prems [unfolded Cons]
    show ?thesis
    proof (cases "poll_res p")
      case (Poll_Lagged k)
      with run Cons show ?thesis
        by (intro resume [OF processed_lagged [OF Poll_Lagged]]) (auto simp: all_flushed_def count_lagged_def)
    next
      case Poll_Closed
      with run Cons show ?thesis by (intro exI [of _ "[]"] exI [of _ ps]) (auto intro: stopped_intros processed_Nil)
    next
      case Poll_Empty
      with run Cons show ?thesis by (intro resume [OF processed_skip(2) [OF Poll_Empty]]) auto
    next
      case (Poll_Msg m)
      consider "poll_cancelled p" | "\<not> poll_cancelled p" "\<not> check_outgoing core (poll_table p) m"
        | "\<not> poll_cancelled p" "check_outgoing core (poll_table p) m" by blast
      then show ?thesis
      proof cases
        case 1
        with run Cons Poll_Msg show ?thesis
          by (intro exI [of _ "[]"] exI [of _ ps]) (auto intro: stopped_intros processed_Nil)
      next
        case 2
        with run Cons Poll_Msg show ?thesis by (intro resume [OF processed_skip(1) [OF Poll_Msg]]) auto
      next
        case 3
        obtain b ps' w2 where b: "message_round core name m qs w = (b, ps', w2)" by (metis prod_cases3)
        show ?thesis
        proof (cases rule: message_round_cases [OF b Poll_Msg 3(2)])
          case (1 d)
          moreover have "writer_loop core name ps' w2 = (r, w')" using run b 3 Poll_Msg 1(1) by simp
          ultimately show ?thesis using Cons by (intro resume [of d w2 ps']) auto
        next
          case (2 e d rest)
          moreover have "r = e" "w' = w2" using run b 3 Poll_Msg 2(1) by simp_all
          ultimately show ?thesis using Cons by (intro exI [of _ d] exI [of _ rest]) simp
        qed
      qed
    qed
  qed
qed

text \<open>
  C12. Wherever the writer stops, its books are right. It has processed an initial part \<open>d\<close> of the
  bus; the bytes handed to the socket are those of exactly the messages of \<open>d\<close> that pass the egress
  check, in order, and the message, byte, lag and error counters agree with them. It waits only
  when everything is processed, and then everything is flushed; it ends with success only at a
  closed bus or on cancellation; and it ends with an error only if a write or flush failed, after
  counting one error.
\<close>
theorem writer_accounting:
  assumes "writer_loop core name ps w = (r, w')"
  shows "\<exists>d rest. ps = d @ rest \<and> stopped core name d rest r w w' \<and> (r = Waiting \<and> all_flushed w \<longrightarrow> all_flushed w')"
  by (rule writer_loop_result [OF assms])

definition sample_message :: routed_message where
  "sample_message = \<lparr>source_id = EndpointId 1, header = \<lparr>system_id = 1, component_id = 1, sequence = 0\<rparr>,
     message_id = 0, version = V2, timestamp_us = 7, serialized_bytes = [0xFD, 1, 1, 0],
     target = \<lparr>target_system_id = 0, target_component_id = 0\<rparr>\<rparr>"

definition sample_poll :: "poll_result \<Rightarrow> poll" where
  "sample_poll r = \<lparr>poll_res = r, poll_table = routing_table_new, poll_cancelled = False\<rparr>"

definition writer_new :: writer where
  "writer_new = \<lparr>wr_stats = endpoint_stats_new, wr_bytes = [], wr_flushed = 0, wr_io = []\<rparr>"

lemma sample_check: "check_outgoing (sample_core 0) t sample_message"
  by (simp add: check_outgoing_def sample_core_def sample_message_def)

lemma BATCH_SIZE_Suc: "BATCH_SIZE = Suc 1023"
  by (simp add: BATCH_SIZE_def)

lemma batch_loop_first:
  "batch_loop core name BATCH_SIZE [] w = (None, [], w)"
  "poll_res q = Poll_Closed \<Longrightarrow> batch_loop core name BATCH_SIZE (q # ps) w = (Some Ended_Ok, ps, w)"
  "poll_res q = Poll_Empty \<Longrightarrow> batch_loop core name BATCH_SIZE (q # ps) w = (None, ps, w)"
  unfolding BATCH_SIZE_Suc batch_loop.simps by simp_all

lemmas writer_steps = message_round_def send_message_def flush_writer_def next_io_def batch_loop_first count_lagged_def

theorem writer_accounting_witness:
  "\<exists>w' d rest. [sample_poll (Poll_Lagged 3), sample_poll (Poll_Msg sample_message)] = d @ rest \<and>
     stopped (sample_core 0) ''tcp'' d rest Waiting writer_new w' \<and> all_flushed w'"
proof -
  obtain w' where w: "writer_loop (sample_core 0) ''tcp'' [sample_poll (Poll_Lagged 3), sample_poll (Poll_Msg sample_message)]
      writer_new = (Waiting, w')"
    using sample_check by (simp add: writer_steps sample_poll_def writer_new_def)
  from writer_accounting [OF this] show ?thesis by (fastforce simp: all_flushed_def writer_new_def)
qed

text \<open>
  Batching is invisible in the output: with no cancellation and no failing write, the writer
  sends, for every way in which the messages arrive in or between batches and for every lag report,
  exactly the messages up to the closing of the bus that pass the egress check, in order. It ends
  exactly when the bus is closed.
\<close>
lemma writer_lossless:
  assumes "\<forall>p \<in> set ps. \<not> poll_cancelled p" "set (wr_io w) \<subseteq> {None}"
  shows "\<exists>w'. writer_loop core name ps w = (if open_polls ps then Waiting else Ended_Ok, w') \<and>
    processed core (takeWhile (\<lambda>p. poll_res p \<noteq> Poll_Closed) ps) 0 w w'"
proof -
  obtain r w' where run: "writer_loop core name ps w = (r, w')" by force
  from writer_loop_result [OF this] obtain d rest where d: "ps = d @ rest" "stopped core name d rest r w w'" by blast
  have no_err: "\<not> failed_with name err w" for err using assms(2) by (auto simp: failed_with_def)
  show ?thesis
  proof (cases r)
    case Waiting
    with d have "open_polls ps" "processed core ps 0 w w'" by (auto simp: stopped_def)
    with run Waiting show ?thesis by (auto simp: takeWhile_eq_all_conv [THEN iffD2])
  next
    case Ended_Ok
    with d assms(1) obtain p rest' where p: "rest = p # rest'" "poll_res p = Poll_Closed" "open_polls d" "processed core d 0 w w'"
      by (auto simp: stopped_def)
    then have "takeWhile (\<lambda>p. poll_res p \<noteq> Poll_Closed) ps = d" by (simp add: d(1))
    with run Ended_Ok p d(1) show ?thesis by auto
  next
    case (Ended_Err err)
    with d no_err show ?thesis by (simp add: stopped_def)
  qed
qed

text \<open>
  Only the exit that a closed bus takes inside a batch leaves data behind: there the function
  returns without the flush, so the bytes of the message that started the batch are written but not
  flushed, whereas the same message followed by an empty poll before the closing is flushed.
\<close>
lemma closed_in_batch_unflushed:
  assumes "check_outgoing core (poll_table p) m" "poll_res p = Poll_Msg m" "\<not> poll_cancelled p"
    and "poll_res q = Poll_Closed" "poll_res idle = Poll_Empty" "wr_io w = []" "serialized_bytes m \<noteq> []" "all_flushed w"
  shows "\<not> all_flushed (snd (writer_loop core name [p, q] w)) \<and> all_flushed (snd (writer_loop core name [p, idle, q] w))"
  using assms by (simp add: writer_steps all_flushed_def)

section \<open>What the reader hands in\<close>

lemma drained_frames_nonempty:
  assumes "lib_ok L"
  shows "drained L buffer fs b \<Longrightarrow> f \<in> set fs \<Longrightarrow> raw_bytes f \<noteq> []"
  by (induction rule: drained.induct) (auto dest: parse_post_Some_length(2) [OF assms])

lemma drained_suffix_length:
  assumes "lib_ok L" "drained L buffer fs b"
  shows "length b \<le> length buffer"
  using drained_bytes [OF assms] list_emb_length by fastforce

lemma reader_chunks:
  assumes "lib_ok L" "reader_sequential (read_v2_msg L)" "reader_sequential (read_v1_msg L)"
  shows "\<forall>c \<in> set chunks. c \<noteq> [] \<Longrightarrow> length (pre @ concat chunks) \<le> MAX_BUFFER_SIZE \<Longrightarrow>
    \<forall>n fs b. drained L (take n (pre @ concat chunks)) fs b \<longrightarrow> (\<forall>f \<in> set fs. frame_version f = V2) \<Longrightarrow>
    drained L pre fs b \<Longrightarrow>
    \<exists>fs' b'. drained L (pre @ concat chunks) (fs @ fs') b' \<and>
      reader_loop L handle name (map (\<lambda>c. (False, Read_Bytes c)) chunks) (b, s) = Some (Returns (Waiting, b', fold handle fs' s))"
proof (induction chunks arbitrary: pre fs b s)
  case (Cons c chunks)
  obtain fs1 b1 where d1: "drained L (b @ c) fs1 b1" using drained_exists [OF assms(1)] by blast
  have "\<forall>f \<in> set fs. frame_version f = V2"
    using Cons.prems(3) [rule_format, of "length pre" fs b] Cons.prems(4) by simp
  from drained_append [OF assms Cons.prems(4) this d1] have d2: "drained L (pre @ c) (fs @ fs1) b1" .
  have "length b + length c \<le> MAX_BUFFER_SIZE"
    using drained_suffix_length [OF assms(1) Cons.prems(4)] Cons.prems(2) by simp
  then have "push b c = b @ c"
    by (auto simp: push_def Let_def saturating_add_def MAX_BUFFER_SIZE_def USIZE_MAX_def)
  with d1 have "drain L (push b c) = Some (Returns (fs1, b1))" by (simp add: drain_iff [OF assms(1)])
  moreover obtain fs2 b2 where "drained L ((pre @ c) @ concat chunks) ((fs @ fs1) @ fs2) b2"
    "reader_loop L handle name (map (\<lambda>c. (False, Read_Bytes c)) chunks) (b1, fold handle fs1 s)
      = Some (Returns (Waiting, b2, fold handle fs2 (fold handle fs1 s)))"
    using Cons.IH [of "pre @ c" "fs @ fs1" b1 "fold handle fs1 s"] Cons.prems d2 by auto
  ultimately show ?case
    using Cons.prems(1) by (intro exI [of _ "fs1 @ fs2"] exI [of _ b2]) simp
next
  case Nil
  then show ?case by (intro exI [of _ "[]"] exI [of _ b]) simp
qed

lemma reader_from_start:
  assumes "lib_ok L" "reader_sequential (read_v2_msg L)" "reader_sequential (read_v1_msg L)"
    and "\<forall>c \<in> set chunks. c \<noteq> []" "length (concat chunks) \<le> MAX_BUFFER_SIZE"
    and "\<forall>n fs b. drain L (take n (concat chunks)) = Some (Returns (fs, b)) \<longrightarrow> (\<forall>f \<in> set fs. frame_version f = V2)"
  shows "\<exists>frames b. drain L (concat chunks) = Some (Returns (frames, b)) \<and>
    reader_loop L handle name (map (\<lambda>c. (False, Read_Bytes c)) chunks) (parser_new, s)
      = Some (Returns (Waiting, b, fold handle frames s))"
proof -
  obtain fs b where d: "drained L [] fs b" using drained_exists [OF assms(1)] by blast
  from drained_bytes [OF assms(1) this] have "concat (map raw_bytes fs) @ b = []"
    using list_emb_Nil2 by blast
  moreover have "f \<in> set fs \<Longrightarrow> raw_bytes f \<noteq> []" for f
    using drained_frames_nonempty [OF assms(1) d] by blast
  ultimately have "fs = []" "b = []" by (cases fs; auto)+
  with d have "drained L [] [] []" by simp
  from reader_chunks [OF assms(1-4) _ _ this] assms(5,6) show ?thesis
    by (simp add: drain_iff [OF assms(1)] parser_new_def)
qed

text \<open>
  C20. How the operating system cuts the stream into reads does not matter: on version 2 traffic that
  fits the parser's buffer, the reader hands in exactly the frames, in order, that draining the
  whole stream at once gives, and keeps the same rest, for every sequence of non-empty reads.
\<close>
theorem reader_cut_invariant:
  assumes "lib_ok L" "reader_sequential (read_v2_msg L)" "reader_sequential (read_v1_msg L)"
    and "\<forall>c \<in> set chunks. c \<noteq> []" "length (concat chunks) \<le> MAX_BUFFER_SIZE"
    and "\<forall>n fs b. drain L (take n (concat chunks)) = Some (Returns (fs, b)) \<longrightarrow> (\<forall>f \<in> set fs. frame_version f = V2)"
  shows "\<exists>frames b. drain L (concat chunks) = Some (Returns (frames, b)) \<and>
    reader_loop L handle name (map (\<lambda>c. (False, Read_Bytes c)) chunks) (parser_new, s)
      = Some (Returns (Waiting, b, fold handle frames s))"
  by (rule reader_from_start [OF assms])

lemma sample_v2_only:
  "drained sample_lib buffer fs b \<Longrightarrow> 0xFE \<notin> set buffer \<Longrightarrow> \<forall>f \<in> set fs. frame_version f = V2"
proof (induction rule: drained.induct)
  case (more buffer f b fs b')
  from more.hyps(1) obtain skipped where s: "buffer = skipped @ raw_bytes f @ b"
    "frame_at sample_lib (raw_bytes f @ b) = Some f" "raw_bytes f @ b \<noteq> []"
    by (auto simp: parse_post_def result_at_def)
  have "0xFE \<notin> set (raw_bytes f @ b)" using more.prems s(1) by simp
  then have "hd (raw_bytes f @ b) \<noteq> 0xFE" using hd_in_set [OF s(3)] by metis
  then have "read_v1_msg sample_lib (raw_bytes f @ b) \<noteq> Inr x" for x
    by (simp add: sample_lib_def sample_reader_def)
  with s(2) have "frame_version f = V2"
    by (auto simp: frame_at_def split: sum.splits prod.splits dest!: arg_cong [where f = frame_version])
  with more.IH more.prems s(1) show ?case by simp
qed simp

theorem reader_cut_invariant_witness:
  "\<exists>frames b. drain sample_lib [7, 0xFD, 1, 2, 3, 9] = Some (Returns (frames, b)) \<and>
    reader_loop sample_lib (\<lambda>f fs. fs @ [f]) ''tcp'' [(False, Read_Bytes [7, 0xFD, 1]), (False, Read_Bytes [2, 3, 9])] (parser_new, [])
      = Some (Returns (Waiting, b, fold (\<lambda>f fs. fs @ [f]) frames []))"
proof -
  have "drain sample_lib (take n [7, 0xFD, 1, 2, 3, 9]) = Some (Returns (fs, b)) \<longrightarrow> (\<forall>f \<in> set fs. frame_version f = V2)" for n fs b
    using sample_v2_only [of "take n [7, 0xFD, 1, 2, 3, 9]" fs b] in_set_takeD [of "0xFE :: byte" n "[7, 0xFD, 1, 2, 3, 9]"]
    by (auto simp: drain_iff [OF sample_lib_ok(1)])
  then show ?thesis
    using reader_cut_invariant [OF sample_lib_ok, of "[[7, 0xFD, 1], [2, 3, 9]]" "\<lambda>f fs. fs @ [f]" "''tcp''" "[]"]
    by (simp add: MAX_BUFFER_SIZE_def)
qed

end
