(* ===== verification/Stream_Steps.thy ===== *)
theory Stream_Steps
  imports Stream_Loop
begin

text \<open>
  The writer of a stream endpoint (\<open>writer_loop\<close>), one poll of the bus at a time, so that the
  other tasks can take steps between two polls. The phases are the places where the loop waits for the
  channel: parked in \<open>recv\<close>, inside a batch, or left. That the steps are the loop is proved.
\<close>

section \<open>One poll\<close>

text \<open>\<open>In_Batch n\<close>: after the coming poll, \<open>n\<close> more may follow in the batch.\<close>

datatype writer_phase = Parked | In_Batch nat | Left_Loop loop_end

definition end_batch :: "string \<Rightarrow> writer \<Rightarrow> writer_phase \<times> writer" where
  "end_batch name w = (case flush_writer name w of (Inl e, w') \<Rightarrow> (Left_Loop (Ended_Err e), w') | (Inr _, w') \<Rightarrow> (Parked, w'))"

fun batch_on :: "string \<Rightarrow> nat \<Rightarrow> writer \<Rightarrow> writer_phase \<times> writer" where
  "batch_on name 0 w = end_batch name w"
| "batch_on name (Suc n) w = (In_Batch n, w)"

lemma batch_on_first: "batch_on name BATCH_SIZE w = (In_Batch 1023, w)"
  unfolding BATCH_SIZE_Suc by (rule batch_on.simps)

definition write_on :: "string \<Rightarrow> nat \<Rightarrow> routed_message \<Rightarrow> writer \<Rightarrow> writer_phase \<times> writer" where
  "write_on name n m w =
     (case send_message name m w of (Inl e, w') \<Rightarrow> (Left_Loop (Ended_Err e), w') | (Inr _, w') \<Rightarrow> batch_on name n w')"

fun writer_step :: "endpoint_core \<Rightarrow> string \<Rightarrow> poll \<Rightarrow> writer_phase \<times> writer \<Rightarrow> writer_phase \<times> writer" where
  "writer_step core name p (Parked, w) =
     (case poll_res p of
        Poll_Empty \<Rightarrow> (Parked, w)
      | Poll_Lagged n \<Rightarrow> (Parked, count_lagged n w)
      | Poll_Closed \<Rightarrow> (Left_Loop Ended_Ok, w)
      | Poll_Msg m \<Rightarrow>
          if poll_cancelled p then (Left_Loop Ended_Ok, w)
          else if \<not> check_outgoing core (poll_table p) m then (Parked, w)
          else write_on name BATCH_SIZE m w)"
| "writer_step core name p (In_Batch n, w) =
     (case poll_res p of
        Poll_Msg m \<Rightarrow> if check_outgoing core (poll_table p) m then write_on name n m w else batch_on name n w
      | Poll_Empty \<Rightarrow> end_batch name w
      | Poll_Lagged k \<Rightarrow> batch_on name n (count_lagged k w)
      | Poll_Closed \<Rightarrow> (Left_Loop Ended_Ok, w))"
| "writer_step core name p (Left_Loop r, w) = (Left_Loop r, w)"

section \<open>The steps are the loop\<close>

text \<open>When the script ends, the channel is empty: a batch is flushed.\<close>

definition phase_end :: "writer_phase \<Rightarrow> loop_end" where
  "phase_end ph = (case ph of Left_Loop r \<Rightarrow> r | _ \<Rightarrow> Waiting)"

definition at_rest :: "string \<Rightarrow> writer_phase \<times> writer \<Rightarrow> loop_end \<times> writer" where
  "at_rest name s = map_prod phase_end id (case s of (In_Batch n, w) \<Rightarrow> end_batch name w | _ \<Rightarrow> s)"

lemma stopped_steps [simp]: "fold (writer_step core name) ps (Left_Loop r, w) = (Left_Loop r, w)"
  by (induction ps) simp_all

lemma end_batch_cases:
  obtains w' where "end_batch name w = (Parked, w')" "flush_writer name w = (Inr (), w')"
    | e w' where "end_batch name w = (Left_Loop (Ended_Err e), w')" "flush_writer name w = (Inl e, w')"
  by (cases "flush_writer name w"; cases "fst (flush_writer name w)") (auto simp: end_batch_def)

lemma at_rest_simps [simp]:
  "at_rest name (Parked, w) = (Waiting, w)" "at_rest name (Left_Loop r, w) = (r, w)"
  "at_rest name (In_Batch n, w) = (case flush_writer name w of (Inl e, w') \<Rightarrow> (Ended_Err e, w') | (Inr _, w') \<Rightarrow> (Waiting, w'))"
  by (auto simp: at_rest_def phase_end_def end_batch_def split: prod.split sum.split)

text \<open>A batch: the loop, then the flush, then the rest of the script.\<close>

lemma batch_steps:
  "at_rest name (fold (writer_step core name) ps (batch_on name n w)) =
     (case batch_loop core name n ps w of
        (Some r, ps', w') \<Rightarrow> (r, w')
      | (None, ps', w') \<Rightarrow> at_rest name (fold (writer_step core name) ps' (end_batch name w')))"
proof (induction n arbitrary: ps w)
  case (Suc n)
  show ?case
  proof (cases ps)
    case Nil
    then show ?thesis by (cases rule: end_batch_cases [of name w]) simp_all
  next
    case (Cons p ps')
    then show ?thesis
      by (cases "poll_res p") (auto simp: Suc.IH write_on_def split: prod.split sum.split)
  qed
qed simp

lemma writer_loop_steps:
  "writer_loop core name ps w = at_rest name (fold (writer_step core name) ps (Parked, w))"
proof (induction core name ps w rule: writer_loop.induct)
  case (2 core name p ps w)
  show ?case
  proof (cases "poll_res p")
    case (Poll_Msg m)
    show ?thesis
    proof (cases "poll_cancelled p \<or> \<not> check_outgoing core (poll_table p) m")
      case True
      with Poll_Msg 2 show ?thesis by auto
    next
      case False
      obtain r ps' w' where round: "message_round core name m ps w = (r, ps', w')" by (metis prod_cases3)
      have "at_rest name (fold (writer_step core name) ps (write_on name BATCH_SIZE m w)) =
          (case r of Some e \<Rightarrow> (e, w') | None \<Rightarrow> at_rest name (fold (writer_step core name) ps' (Parked, w')))"
        using round
        by (auto simp: message_round_def write_on_def batch_steps end_batch_def split: prod.splits sum.splits option.splits)
      with 2 False Poll_Msg round show ?thesis by (auto split: option.split)
    qed
  qed (use 2 in auto)
qed simp

end
