(* ===== verification/Hub_Spec.thy ===== *)
theory Hub_Spec
  imports Hub
begin

text \<open>
  What the shared state promises, without shards, buckets, locks or indexes: a map from the hashes
  let through to their age in rotations, two plain maps of routes, the queue, the bus and the
  counters. The state of \<open>Hub\<close> implements it step by step; its well-formedness and the fate of a
  conversation follow.
\<close>

section \<open>The abstract state\<close>

record router_spec =
  sp_hashes :: "u64 \<Rightarrow> nat option"
  sp_routes :: flat_table
  sp_pending :: "route_update list"
  sp_bus :: "routed_message list"
  sp_stats :: "endpoint_id \<Rightarrow> endpoint_stats"

text \<open>The number of rotations for which a hash is known; 0 when deduplication is off.\<close>

definition window_of :: "duration \<Rightarrow> nat" where
  "window_of p = (if is_zero p then 0 else max (usize_try_from_or_max (as_millis p div 100)) 2)"

definition spec_new :: "table_event list \<Rightarrow> router_spec" where
  "spec_new cfg = \<lparr>sp_hashes = Map.empty, sp_routes = flat_run cfg, sp_pending = [], sp_bus = [],
     sp_stats = (\<lambda>_. endpoint_stats_new)\<rparr>"

definition spec_learns :: "ingress_env \<Rightarrow> endpoint_core \<Rightarrow> mav_header \<Rightarrow> router_spec \<Rightarrow> bool" where
  "spec_learns env core hdr a \<longleftrightarrow> update_routing core \<and> route_send env = Sent \<and>
     \<not> (heard_recently (core_id core) (clock_now env) (known_comp (sp_routes a) (system_id hdr, component_id hdr)) \<and>
        heard_recently (core_id core) (clock_now env) (known_sys (sp_routes a) (system_id hdr)))"

definition spec_ingress :: "mavlink_lib \<Rightarrow> nat \<Rightarrow> ingress_env \<Rightarrow> endpoint_core \<Rightarrow> mavlink_frame \<Rightarrow> router_spec \<Rightarrow> router_spec" where
  "spec_ingress L w env core frame a =
     (let k = ahash env (raw_bytes frame); hdr = frame_header frame; mid = msg_id_of L (frame_message frame); ep = core_id core in
      if system_id hdr = 0 \<or> \<not> check_incoming (core_filters core) hdr mid \<or> sp_hashes a k \<noteq> None then a
      else a\<lparr>sp_hashes := (if w = 0 then sp_hashes a else (sp_hashes a)(k \<mapsto> 0)),
        sp_pending := sp_pending a @ (if spec_learns env core hdr a
          then [\<lparr>ru_endpoint_id = ep, ru_sys_id = system_id hdr, ru_comp_id = component_id hdr, ru_now = clock_now env\<rparr>] else []),
        sp_bus := sp_bus a @ (if bus_send_ok env then [routed_of env core frame mid] else []),
        sp_stats := (if bus_send_ok env
          then (sp_stats a)(ep := bump_in (of_nat (length (raw_bytes frame))) (sp_stats a ep)) else sp_stats a)\<rparr>)"

definition spec_apply :: "route_update \<Rightarrow> flat_table \<Rightarrow> flat_table" where
  "spec_apply u = flat_observe (ru_endpoint_id u) (ru_sys_id u) (ru_comp_id u) (ru_now u)"

definition spec_count :: "endpoint_id \<Rightarrow> (endpoint_stats \<Rightarrow> endpoint_stats) \<Rightarrow> router_spec \<Rightarrow> router_spec" where
  "spec_count ep f a = a\<lparr>sp_stats := (sp_stats a)(ep := f (sp_stats a ep))\<rparr>"

fun spec_step :: "mavlink_lib \<Rightarrow> nat \<Rightarrow> hub_event \<Rightarrow> router_spec \<Rightarrow> router_spec" where
  "spec_step L w (Ingress env core frame) a = spec_ingress L w env core frame a"
| "spec_step L w Rotate_Dedup a = a\<lparr>sp_hashes := age_rotate w (sp_hashes a)\<rparr>"
| "spec_step L w (Updater_Batch clock) a =
     a\<lparr>sp_routes := fold spec_apply (take 256 (sp_pending a)) (sp_routes a), sp_pending := drop 256 (sp_pending a)\<rparr>"
| "spec_step L w (Updater_Prune clk ttl) a = a\<lparr>sp_routes := flat_prune clk ttl (sp_routes a)\<rparr>"
| "spec_step L w (Wrote ep n) a = spec_count ep (record_outgoing n) a"
| "spec_step L w (Write_Failed ep) a = spec_count ep (\<lambda>st. st\<lparr>errors := errors st + 1\<rparr>) a"
| "spec_step L w (Lagged_Behind ep n) a = spec_count ep (\<lambda>st. st\<lparr>bus_lagged := bus_lagged st + n\<rparr>) a"

definition spec_run :: "mavlink_lib \<Rightarrow> nat \<Rightarrow> hub_event list \<Rightarrow> router_spec \<Rightarrow> router_spec" where
  "spec_run L w evs a = fold (spec_step L w) evs a"

text \<open>The egress decision over the abstract routes, the sniffers and the groups of the configuration.\<close>

definition spec_outgoing :: "table_event list \<Rightarrow> endpoint_core \<Rightarrow> routed_message \<Rightarrow> router_spec \<Rightarrow> bool" where
  "spec_outgoing cfg core m a \<longleftrightarrow>
     source_id m \<noteq> core_id core \<and> filters_check_outgoing (core_filters core) (header m) (message_id m) \<and>
     (target_system_id (target m) = 0 \<or>
      (\<exists>x \<in> sniffers cfg. core_id core \<in> seen_on (known_sys (sp_routes a) x)) \<or>
      (\<exists>e \<in> paths_to (sp_routes a) (target_system_id (target m)) (target_component_id (target m)).
         e = core_id core \<or> shares_group cfg (core_id core) e))"

definition abs_hub :: "hub \<Rightarrow> router_spec" where
  "abs_hub h = \<lparr>sp_hashes = cd_age (hub_dedup h), sp_routes = view (hub_table h), sp_pending = hub_routes_tx h,
     sp_bus = hub_bus h, sp_stats = hub_stats h\<rparr>"

section \<open>The invariant of the implementation\<close>

definition dedup_ok :: "duration \<Rightarrow> concurrent_dedup \<Rightarrow> bool" where
  "dedup_ok p d \<longleftrightarrow> (if is_zero p then d = concurrent_dedup_new p else cd_ok d \<and> cd_window d = window_of p)"

definition hub_invar :: "duration \<Rightarrow> group_config \<Rightarrow> hub \<Rightarrow> bool" where
  "hub_invar p cfg h \<longleftrightarrow> dedup_ok p (hub_dedup h) \<and> rt_ok (hub_table h) \<and> rt_config (hub_table h) = cfg"

lemma dedup_disabled:
  assumes "is_zero p"
  shows "cd_check_hash k (concurrent_dedup_new p) = (False, concurrent_dedup_new p)"
    "rotate_buckets (concurrent_dedup_new p) = concurrent_dedup_new p"
    "cd_age (concurrent_dedup_new p) = Map.empty"
proof -
  show "cd_check_hash k (concurrent_dedup_new p) = (False, concurrent_dedup_new p)"
    "rotate_buckets (concurrent_dedup_new p) = concurrent_dedup_new p"
    using assms by (simp_all add: cd_check_hash_def rotate_buckets_def concurrent_dedup_new_def)
  show "cd_age (concurrent_dedup_new p) = Map.empty"
    using assms dedup_shard_idx_less
    by (auto simp: cd_age_def concurrent_dedup_new_def hash_age_def dedup_new_def NUM_SHARDS_def fun_eq_iff simp del: upt_Suc)
qed

lemma age_rotate_empty [simp]: "age_rotate w Map.empty = Map.empty"
  by (simp add: age_rotate_def fun_eq_iff)

lemma dedup_check:
  assumes "dedup_ok p d"
  shows "fst (cd_check_hash k d) \<longleftrightarrow> cd_age d k \<noteq> None"
    and "cd_age (snd (cd_check_hash k d)) =
      (if window_of p = 0 \<or> cd_age d k \<noteq> None then cd_age d else (cd_age d)(k \<mapsto> 0))"
    and "dedup_ok p (snd (cd_check_hash k d))"
proof -
  consider (off) "is_zero p" "d = concurrent_dedup_new p" | (on) "\<not> is_zero p" "cd_ok d" "cd_window d = window_of p"
    using assms by (auto simp: dedup_ok_def split: if_splits)
  then have "(fst (cd_check_hash k d) \<longleftrightarrow> cd_age d k \<noteq> None) \<and>
      cd_age (snd (cd_check_hash k d)) = (if window_of p = 0 \<or> cd_age d k \<noteq> None then cd_age d else (cd_age d)(k \<mapsto> 0)) \<and>
      dedup_ok p (snd (cd_check_hash k d))"
  proof cases
    case off
    then show ?thesis by (simp add: dedup_disabled window_of_def dedup_ok_def)
  next
    case on
    then have "window_of p \<noteq> 0" by (simp add: window_of_def)
    with on cd_check [OF on(2), of k] show ?thesis
      by (auto simp: age_check_def dedup_ok_def split: option.splits)
  qed
  then show "fst (cd_check_hash k d) \<longleftrightarrow> cd_age d k \<noteq> None"
    "cd_age (snd (cd_check_hash k d)) = (if window_of p = 0 \<or> cd_age d k \<noteq> None then cd_age d else (cd_age d)(k \<mapsto> 0))"
    "dedup_ok p (snd (cd_check_hash k d))" by blast+
qed

lemma dedup_rotate:
  assumes "dedup_ok p d"
  shows "cd_age (rotate_buckets d) = age_rotate (window_of p) (cd_age d)" and "dedup_ok p (rotate_buckets d)"
  using assms cd_rotate [of d] by (auto simp: dedup_ok_def dedup_disabled split: if_splits)

lemma dedup_start: "dedup_ok p (concurrent_dedup_new p)" "cd_age (concurrent_dedup_new p) = Map.empty"
  using cd_ok_new [of p] by (cases "is_zero p"; simp add: dedup_ok_def dedup_disabled window_of_def num_buckets_new)+

lemma updates_fold:
  "rt_ok t \<Longrightarrow> rt_ok (fold (apply_update clock) us t) \<and> rt_config (fold (apply_update clock) us t) = rt_config t \<and>
     view (fold (apply_update clock) us t) = fold spec_apply us (view t)"
  by (induction us arbitrary: t) (simp_all add: apply_update_def spec_apply_def rt_ok_update view_update)

section \<open>Refinement\<close>

lemma hub_eq_abs:
  "abs_hub h = a \<longleftrightarrow> cd_age (hub_dedup h) = sp_hashes a \<and> view (hub_table h) = sp_routes a \<and> hub_routes_tx h = sp_pending a \<and>
     hub_bus h = sp_bus a \<and> hub_stats h = sp_stats a"
  by (cases a) (auto simp: abs_hub_def)

lemma view_abs: "view (hub_table h) = sp_routes (abs_hub h)"
  by (simp add: abs_hub_def)

lemma known_payload_spec:
  "hub_invar p cfg h \<Longrightarrow> known_payload H frame h \<longleftrightarrow> cd_age (hub_dedup h) (H (raw_bytes frame)) \<noteq> None"
  using dedup_check(1) [of p "hub_dedup h"] by (simp add: hub_invar_def known_payload_def cd_check_and_insert_def)

lemma observe_spec:
  "hub_routes_tx (observe_frame_route env core hdr h) = hub_routes_tx h @
     (if spec_learns env core hdr (abs_hub h)
      then [\<lparr>ru_endpoint_id = core_id core, ru_sys_id = system_id hdr, ru_comp_id = component_id hdr, ru_now = clock_now env\<rparr>] else [])"
  by (simp add: observe_frame_route_def spec_learns_def abs_hub_def needs_update_view Let_def split: try_send_result.split)

lemma spec_learns_routes:
  "sp_routes a = sp_routes b \<Longrightarrow> spec_learns env core hdr a = spec_learns env core hdr b"
  by (simp add: spec_learns_def)

lemma handle_table [simp]: "hub_table (handle_incoming_frame L env core frame h) = hub_table h"
  by (cases rule: handle_cases [of L core frame _ env h]) (simp_all add: handle_simps)

lemma handle_refines:
  assumes "hub_invar p cfg h"
  shows "abs_hub (handle_incoming_frame L env core frame h) = spec_ingress L (window_of p) env core frame (abs_hub h)"
proof (cases rule: handle_cases [of L core frame _ env h])
  case rejected
  then show ?thesis
    by (auto simp: handle_simps spec_ingress_def Let_def accepted_def accept_frame_def split: if_splits)
next
  case duplicate
  with assms have "cd_age (hub_dedup h) (ahash env (raw_bytes frame)) \<noteq> None" by (simp add: known_payload_spec)
  moreover from this have "cd_age (snd (cd_check_hash (ahash env (raw_bytes frame)) (hub_dedup h))) = cd_age (hub_dedup h)"
    using assms dedup_check(2) [of p "hub_dedup h"] by (simp add: hub_invar_def)
  ultimately show ?thesis
    using duplicate by (simp add: handle_simps spec_ingress_def Let_def abs_hub_def)
next
  case new
  let ?h' = "snd (is_duplicate_frame env frame h)"
  have unknown: "cd_age (hub_dedup h) (ahash env (raw_bytes frame)) = None"
    using new assms by (simp add: known_payload_spec)
  have ages: "cd_age (hub_dedup ?h') = (if window_of p = 0 then cd_age (hub_dedup h)
      else (cd_age (hub_dedup h))(ahash env (raw_bytes frame) \<mapsto> 0))"
    using assms dedup_check(2) [of p "hub_dedup h"] unknown by (simp add: hub_invar_def)
  have learns: "spec_learns env core hdr (abs_hub ?h') = spec_learns env core hdr (abs_hub h)" for hdr
    by (rule spec_learns_routes) (simp add: abs_hub_def)
  have acc: "system_id (frame_header frame) \<noteq> 0" "check_incoming (core_filters core) (frame_header frame) (msg_id_of L (frame_message frame))"
    using new by (auto simp: accepted_def accept_frame_def split: if_splits)
  show ?thesis
    unfolding hub_eq_abs handle_new [OF new]
    using acc unknown ages
    by (simp add: spec_ingress_def Let_def abs_hub_def [of h] observe_spec learns)
      (simp add: publish_frame_def Let_def abs_hub_def [of h])
qed

lemma step_refines:
  assumes "hub_invar p cfg h"
  shows "abs_hub (hub_step L ev h) = spec_step L (window_of p) ev (abs_hub h)"
proof (cases ev)
  case (Ingress env core frame)
  then show ?thesis using handle_refines [OF assms] by simp
next
  case Rotate_Dedup
  then show ?thesis using assms dedup_rotate by (simp add: hub_eq_abs hub_invar_def) (simp add: abs_hub_def)
next
  case (Updater_Batch clock)
  then show ?thesis using assms updates_fold
    by (simp add: hub_eq_abs hub_invar_def updater_batch_def Let_def ROUTE_UPDATE_BATCH_SIZE_def) (simp add: abs_hub_def)
next
  case (Updater_Prune clk ttl)
  then show ?thesis using assms view_prune by (simp add: hub_eq_abs hub_invar_def) (simp add: abs_hub_def)
qed (simp_all add: hub_eq_abs spec_count_def edit_stats_def abs_hub_def)

lemma invar_step: "hub_invar p cfg h \<Longrightarrow> hub_invar p cfg (hub_step L ev h)"
  using dedup_check(3) [of p "hub_dedup h"] dedup_rotate(2) [of p "hub_dedup h"] updates_fold [of "hub_table h"]
  by (cases ev) (auto simp: hub_invar_def handle_dedup handle_table updater_batch_def Let_def rt_ok_prune)

lemma run_refines_spec:
  "hub_invar p cfg h \<Longrightarrow> hub_invar p cfg (hub_run L evs h) \<and> abs_hub (hub_run L evs h) = spec_run L (window_of p) evs (abs_hub h)"
proof (induction evs arbitrary: h)
  case (Cons ev evs)
  from Cons.IH [OF invar_step [OF Cons.prems], of L ev] show ?case
    by (simp add: step_refines [OF Cons.prems] spec_run_def)
qed (simp add: spec_run_def)

lemma hub_start: "hub_invar p (rt_config (table_run cfg)) (hub_new p (table_run cfg))"
  "abs_hub (hub_new p (table_run cfg)) = spec_new cfg"
  by (simp_all add: hub_invar_def hub_new_def dedup_start hub_eq_abs spec_new_def view_run)

lemma ex_list_of_set: "finite P \<Longrightarrow> (\<exists>xs. set xs = P \<and> Q (set xs)) \<longleftrightarrow> Q P"
  using finite_list [of P] by metis

lemma egress_refines:
  assumes "rt_ok t" "rt_config t = rt_config (table_run cfg)" "view t = sp_routes a"
  shows "check_outgoing core t m \<longleftrightarrow> spec_outgoing cfg core m a"
proof -
  have fin: "finite (paths_to (view t) s c)" for s c
    by (auto simp: paths_to_def seen_on_def view_sys view_comp entry_view_def split: option.splits)
  have "should_send t ep s c \<longleftrightarrow> (\<exists>x \<in> sniffers cfg. ep \<in> seen_on (known_sys (view t) x)) \<or> s = 0 \<or>
      (\<exists>e \<in> paths_to (view t) s c. e = ep \<or> shares_group cfg ep e)" for ep s c
    unfolding should_send_paths sniffer_iff assms(2) config_history same_group_history
      ex_list_of_set [OF fin, of _ _ "\<lambda>E. ep \<in> E \<or> (\<exists>e \<in> E. shares_group cfg ep e)"] by blast
  then show ?thesis by (auto simp: check_outgoing_def spec_outgoing_def assms(3))
qed

section \<open>Well-formedness\<close>

text \<open>The types that the code's containers cannot express: sets without repetition, keys in their shard, groups with their members.\<close>

definition wheel_typed :: "duration \<Rightarrow> nat \<Rightarrow> dedup \<Rightarrow> bool" where
  "wheel_typed p i d \<longleftrightarrow> wheel_shape d \<and> dedup_period d = p \<and>
     (\<forall>b \<in> set (buckets d). distinct b \<and> (\<forall>k \<in> set b. dedup_shard_idx k = i))"

definition dedup_typed :: "duration \<Rightarrow> concurrent_dedup \<Rightarrow> bool" where
  "dedup_typed p cd \<longleftrightarrow> cd_dedup_period cd = p \<and> length (shards cd) = NUM_SHARDS \<and>
     (\<forall>i < NUM_SHARDS. wheel_typed p i (shards cd ! i))"

definition config_typed :: "group_config \<Rightarrow> bool" where
  "config_typed cfg \<longleftrightarrow> hmap_ok (endpoint_groups cfg) \<and> hmap_ok (group_members cfg) \<and> distinct (sniffer_sysids cfg) \<and>
     (\<forall>ep grp. hmap_get (endpoint_groups cfg) ep = Some grp \<longrightarrow> ep \<in> members_of cfg grp) \<and>
     (\<forall>(grp, ms) \<in> set (group_members cfg). distinct ms)"

definition hub_typed :: "duration \<Rightarrow> hub \<Rightarrow> bool" where
  "hub_typed p h \<longleftrightarrow> dedup_typed p (hub_dedup h) \<and> rt_ok (hub_table h) \<and> config_typed (rt_config (hub_table h)) \<and>
     (\<forall>u \<in> set (hub_routes_tx h). ru_sys_id u \<noteq> 0) \<and> (\<forall>m \<in> set (hub_bus h). system_id (header m) \<noteq> 0)"

lemma list_update_mem: "y \<in> set (xs[i := x]) \<Longrightarrow> y = x \<or> y \<in> set xs"
  using set_update_subset_insert [of xs i x] by blast

lemma insert_hash_bucket:
  assumes "b \<in> set (buckets (insert_hash k d))"
  shows "\<exists>b' \<in> set (buckets d). b = b' \<or> b = List.insert k b'"
proof (cases "current_bucket d < length (buckets d)")
  case True
  with assms list_update_mem [of b "buckets d"] have "b = List.insert k (buckets d ! current_bucket d) \<or> b \<in> set (buckets d)"
    by (simp add: insert_hash_def)
  with True show ?thesis using nth_mem by blast
qed (use assms in \<open>auto simp: insert_hash_def\<close>)

lemma rotate_bucket_buckets: "b \<in> set (buckets (rotate_bucket d)) \<Longrightarrow> b = [] \<or> b \<in> set (buckets d)"
  by (auto simp: rotate_bucket_def Let_def split: if_splits dest!: list_update_mem)

lemma wheel_typed_check:
  assumes "wheel_typed p (dedup_shard_idx k) d"
  shows "wheel_typed p (dedup_shard_idx k) (snd (check_and_insert_with_hash k d))"
proof -
  have "distinct b \<and> (\<forall>x \<in> set b. dedup_shard_idx x = dedup_shard_idx k)"
    if "b \<in> set (buckets (insert_hash k d))" for b
    using insert_hash_bucket [OF that] assms by (auto simp: wheel_typed_def)
  with assms show ?thesis by (simp add: wheel_typed_def check_and_insert_with_hash_def wheel_shape_insert_hash)
qed

lemma wheel_typed_rotate:
  assumes "wheel_typed p i d"
  shows "wheel_typed p i (rotate_bucket d)"
proof -
  have "distinct b \<and> (\<forall>x \<in> set b. dedup_shard_idx x = i)" if "b \<in> set (buckets (rotate_bucket d))" for b
    using rotate_bucket_buckets [OF that] assms by (auto simp: wheel_typed_def)
  with assms show ?thesis by (simp add: wheel_typed_def wheel_shape_rotate)
qed

lemma dedup_typed_check: "dedup_typed p d \<Longrightarrow> dedup_typed p (snd (cd_check_hash k d))"
  using dedup_shard_idx_less [of k] wheel_typed_check [of p k "shards d ! dedup_shard_idx k"]
  by (auto simp: dedup_typed_def cd_check_hash_def Let_def split_beta nth_list_update_if)

lemma dedup_typed_rotate: "dedup_typed p d \<Longrightarrow> dedup_typed p (rotate_buckets d)"
  by (simp add: dedup_typed_def rotate_buckets_def wheel_typed_rotate)

lemma dedup_typed_new: "dedup_typed p (concurrent_dedup_new p)"
  using wheel_shape_new [of p]
  by (auto simp: dedup_typed_def concurrent_dedup_new_def wheel_typed_def dedup_new_def Let_def NUM_SHARDS_def simp del: upt_Suc)

lemma config_typed_group:
  assumes "config_typed cfg" "members = (case hmap_get (group_members cfg) grp of None \<Rightarrow> [] | Some ms \<Rightarrow> ms)"
  shows "config_typed (cfg\<lparr>endpoint_groups := hmap_insert ep grp (endpoint_groups cfg),
    group_members := hmap_insert grp (snd (hset_insert ep members)) (group_members cfg)\<rparr>)"
    (is "config_typed ?cfg")
proof -
  have "distinct members" using assms by (auto simp: config_typed_def split: option.splits dest!: map_of_SomeD)
  then have "\<forall>(g, ms) \<in> set (group_members ?cfg). distinct ms"
    using assms(1) by (auto simp: config_typed_def set_hmap_insert)
  moreover have "members_of ?cfg g = (if g = grp then insert ep (members_of cfg grp) else members_of cfg g)" for g
    using assms(2) by (auto simp: members_of_def split: option.splits)
  ultimately show ?thesis using assms(1) by (simp add: config_typed_def)
qed

lemma config_typed_step: "config_typed (rt_config t) \<Longrightarrow> config_typed (rt_config (table_step ev t))"
proof (cases ev)
  case (Set_Group ep grp)
  assume "config_typed (rt_config t)"
  from config_typed_group [OF this refl] show ?thesis by (simp add: Set_Group set_endpoint_group_def)
next
  case (Set_Sniffers ss)
  assume "config_typed (rt_config t)"
  then show ?thesis by (simp add: Set_Sniffers set_sniffer_sysids_def config_typed_def members_of_def distinct_fold_ids)
qed simp_all

lemma config_typed_run: "config_typed (rt_config (table_run cfg))"
  by (induction cfg rule: rev_induct)
    (simp_all add: table_run_snoc config_typed_step,
     simp add: table_run_def routing_table_new_def empty_config_def config_typed_def)

lemma observe_typed:
  "system_id hdr \<noteq> 0 \<Longrightarrow> \<forall>u \<in> set (hub_routes_tx h). ru_sys_id u \<noteq> 0 \<Longrightarrow>
     \<forall>u \<in> set (hub_routes_tx (observe_frame_route env core hdr h)). ru_sys_id u \<noteq> 0"
  by (auto simp: observe_spec)

lemma hub_typed_step:
  assumes "hub_typed p h"
  shows "hub_typed p (hub_step L ev h)"
proof (cases ev)
  case (Ingress env core frame)
  show ?thesis
  proof (cases rule: handle_cases [of L core frame _ env h])
    case new
    then have "system_id (frame_header frame) \<noteq> 0" by (auto simp: accepted_def accept_frame_def)
    with assms new Ingress show ?thesis
      using observe_typed [of "frame_header frame" "snd (is_duplicate_frame env frame h)" env core]
      by (auto simp: hub_typed_def handle_new dedup_typed_check publish_frame_def Let_def routed_of_def split: if_splits)
  qed (use assms Ingress in \<open>simp_all add: hub_typed_def handle_simps dedup_typed_check\<close>)
next
  case (Updater_Batch clock)
  with assms updates_fold [of "hub_table h" clock] show ?thesis
    by (auto simp: hub_typed_def updater_batch_def Let_def dest: in_set_dropD)
qed (use assms in \<open>auto simp: hub_typed_def dedup_typed_rotate rt_ok_prune\<close>)

lemma hub_typed_run: "hub_typed p (hub_run L evs (hub_new p (table_run cfg)))"
proof -
  have "hub_typed p h \<Longrightarrow> hub_typed p (hub_run L evs h)" for h
    by (induction evs arbitrary: h) (simp_all add: hub_typed_step)
  moreover have "hub_typed p (hub_new p (table_run cfg))"
    by (simp add: hub_typed_def hub_new_def dedup_typed_new config_typed_run)
  ultimately show ?thesis by blast
qed

text \<open>
  C18. Every reachable state is well formed. Every wheel keeps its shape and period, its buckets are
  sets and hold only hashes of their shard; every shard of the table holds only its systems, within
  its limits, with exact endpoint counters; the group maps agree with each other; and no queued update
  and no message on the bus has the placeholder system 0.
\<close>
theorem hub_well_formed: "hub_typed p (hub_run L evs (hub_new p (table_run cfg)))"
  by (rule hub_typed_run)

section \<open>Conversations\<close>

definition is_batch :: "hub_event \<Rightarrow> bool" where
  "is_batch ev = (case ev of Updater_Batch clock \<Rightarrow> True | _ \<Rightarrow> False)"

text \<open>
  A step leaves the routes of system \<open>s\<close> from time \<open>t0\<close> on alone: it is not traffic of the system
  read before \<open>t0\<close>, nor a prune on whose clock \<open>t0\<close> is over age.
\<close>

definition spares :: "instant \<Rightarrow> u8 \<Rightarrow> hub_event \<Rightarrow> bool" where
  "spares t0 s ev =
     (case ev of
        Ingress env core frame \<Rightarrow> system_id (frame_header frame) \<noteq> s \<or> t0 \<le> clock_now env
      | Updater_Prune clk ttl \<Rightarrow> duration_since (clk (unat s mod 16)) t0 \<le> ttl
      | _ \<Rightarrow> True)"

definition route_known :: "endpoint_id \<Rightarrow> instant \<Rightarrow> u8 \<Rightarrow> u8 \<Rightarrow> flat_table \<Rightarrow> bool" where
  "route_known ep t0 s c f \<longleftrightarrow> heard_since ep t0 (known_sys f s) \<and> heard_since ep t0 (known_comp f (s, c))"

text \<open>The route is in the table, or its update is among the first \<open>n\<close> of the queue.\<close>

definition route_coming :: "endpoint_id \<Rightarrow> instant \<Rightarrow> u8 \<Rightarrow> u8 \<Rightarrow> nat \<Rightarrow> router_spec \<Rightarrow> bool" where
  "route_coming ep t0 s c n a \<longleftrightarrow> (\<forall>u \<in> set (sp_pending a). ru_sys_id u = s \<longrightarrow> t0 \<le> ru_now u) \<and>
     (route_known ep t0 s c (sp_routes a) \<or>
      (\<exists>i < min n (length (sp_pending a)). ru_endpoint_id (sp_pending a ! i) = ep \<and>
         ru_sys_id (sp_pending a ! i) = s \<and> ru_comp_id (sp_pending a ! i) = c))"

lemma route_known_apply:
  "ru_sys_id u = s \<longrightarrow> t0 \<le> ru_now u \<Longrightarrow> route_known ep t0 s c f \<Longrightarrow> route_known ep t0 s c (spec_apply u f)"
  "t0 \<le> ru_now u \<Longrightarrow> route_known (ru_endpoint_id u) t0 (ru_sys_id u) (ru_comp_id u) (spec_apply u f)"
  by (auto simp: route_known_def spec_apply_def flat_observe_def heard_since_def learn_def split: option.splits)

lemma route_known_fold:
  "\<forall>u \<in> set us. ru_sys_id u = s \<longrightarrow> t0 \<le> ru_now u \<Longrightarrow> route_known ep t0 s c f \<Longrightarrow> route_known ep t0 s c (fold spec_apply us f)"
  by (induction us arbitrary: f) (simp_all add: route_known_apply)

lemma route_known_member:
  assumes "\<forall>u \<in> set us. ru_sys_id u = s \<longrightarrow> t0 \<le> ru_now u"
    and "u \<in> set us" "ru_endpoint_id u = ep" "ru_sys_id u = s" "ru_comp_id u = c"
  shows "route_known ep t0 s c (fold spec_apply us f)"
proof -
  obtain us1 us2 where us: "us = us1 @ u # us2" using assms(2) by (meson split_list)
  then have "route_known ep t0 s c (spec_apply u (fold spec_apply us1 f))"
    using route_known_apply(2) [of t0 u] assms by auto
  with route_known_fold [of us2] us assms(1) show ?thesis by simp
qed

lemma route_known_prune:
  "duration_since (clk (unat s mod 16)) t0 \<le> ttl \<Longrightarrow> route_known ep t0 s c f \<Longrightarrow> route_known ep t0 s c (flat_prune clk ttl f)"
  by (simp add: route_known_def flat_prune_def heard_since_forget)

text \<open>Every step keeps the route coming, and a batch brings it nearer.\<close>

lemma coming_queue:
  assumes "route_coming ep t0 s c n a" "sp_routes b = sp_routes a" "sp_pending b = sp_pending a @ us"
    and "\<forall>u \<in> set us. ru_sys_id u = s \<longrightarrow> t0 \<le> ru_now u"
  shows "route_coming ep t0 s c n b"
proof -
  have "sp_pending b ! i = sp_pending a ! i" "i < min n (length (sp_pending b))" if "i < min n (length (sp_pending a))" for i
    using that assms(3) by (simp_all add: nth_append)
  moreover have "\<forall>u \<in> set (sp_pending b). ru_sys_id u = s \<longrightarrow> t0 \<le> ru_now u"
    using assms(1,3,4) by (auto simp: route_coming_def)
  ultimately show ?thesis using assms(1,2) unfolding route_coming_def by metis
qed

lemma coming_batch:
  assumes "route_coming ep t0 s c (n + 256) a"
  shows "route_coming ep t0 s c n (a\<lparr>sp_routes := fold spec_apply (take 256 (sp_pending a)) (sp_routes a),
    sp_pending := drop 256 (sp_pending a)\<rparr>)"
proof -
  let ?us = "take 256 (sp_pending a)"
  have recent: "\<forall>u \<in> set (sp_pending a). ru_sys_id u = s \<longrightarrow> t0 \<le> ru_now u"
    using assms by (simp add: route_coming_def)
  then have us: "\<forall>u \<in> set ?us. ru_sys_id u = s \<longrightarrow> t0 \<le> ru_now u" "\<forall>u \<in> set (drop 256 (sp_pending a)). ru_sys_id u = s \<longrightarrow> t0 \<le> ru_now u"
    by (blast dest: in_set_takeD in_set_dropD)+
  from assms consider "route_known ep t0 s c (sp_routes a)"
    | i where "i < n + 256" "i < length (sp_pending a)" "ru_endpoint_id (sp_pending a ! i) = ep"
        "ru_sys_id (sp_pending a ! i) = s" "ru_comp_id (sp_pending a ! i) = c"
    by (auto simp: route_coming_def)
  then have "route_known ep t0 s c (fold spec_apply ?us (sp_routes a)) \<or>
      (\<exists>i < min n (length (drop 256 (sp_pending a))). ru_endpoint_id (drop 256 (sp_pending a) ! i) = ep \<and>
         ru_sys_id (drop 256 (sp_pending a) ! i) = s \<and> ru_comp_id (drop 256 (sp_pending a) ! i) = c)"
  proof cases
    case 1
    with us show ?thesis by (simp add: route_known_fold)
  next
    case (2 i)
    show ?thesis
    proof (cases "i < 256")
      case True
      with 2 have "sp_pending a ! i \<in> set ?us" by (auto simp: in_set_conv_nth)
      with us(1) 2 show ?thesis by (metis route_known_member)
    next
      case False
      with 2 show ?thesis by (intro disjI2 exI [of _ "i - 256"]) auto
    qed
  qed
  with us(2) show ?thesis by (simp add: route_coming_def)
qed

lemma coming_ingress:
  assumes "route_coming ep t0 s c n a" "system_id (frame_header frame) \<noteq> s \<or> t0 \<le> clock_now env"
  shows "route_coming ep t0 s c n (spec_ingress L w env core frame a)"
proof (cases "spec_ingress L w env core frame a = a")
  case False
  show ?thesis
    by (rule coming_queue [OF assms(1), where us = "if spec_learns env core (frame_header frame) a
          then [\<lparr>ru_endpoint_id = core_id core, ru_sys_id = system_id (frame_header frame),
            ru_comp_id = component_id (frame_header frame), ru_now = clock_now env\<rparr>] else []"])
      (use False assms(2) in \<open>auto simp: spec_ingress_def Let_def split: if_splits\<close>)
qed (use assms in simp)

lemma coming_step:
  assumes "route_coming ep t0 s c (if is_batch ev then n + 256 else n) a" "spares t0 s ev"
  shows "route_coming ep t0 s c n (spec_step L w ev a)"
proof (cases ev)
  case (Updater_Batch clock)
  with assms coming_batch show ?thesis by (simp add: is_batch_def)
next
  case (Ingress env core frame)
  with assms coming_ingress show ?thesis by (simp add: is_batch_def spares_def)
qed (use assms in \<open>auto simp: is_batch_def spares_def route_coming_def spec_count_def route_known_prune\<close>)

lemma coming_run:
  "route_coming ep t0 s c (n + 256 * length (filter is_batch evs)) a \<Longrightarrow> \<forall>ev \<in> set evs. spares t0 s ev \<Longrightarrow>
     route_coming ep t0 s c n (spec_run L w evs a)"
proof (induction evs arbitrary: a)
  case (Cons ev evs)
  let ?n = "n + 256 * length (filter is_batch evs)"
  have "route_coming ep t0 s c (if is_batch ev then ?n + 256 else ?n) a"
    using Cons.prems(1) by (simp add: add.commute add.left_commute split: if_splits)
  with Cons.prems(2) have "route_coming ep t0 s c ?n (spec_step L w ev a)" by (simp add: coming_step)
  with Cons show ?case by (simp add: spec_run_def)
qed (simp add: spec_run_def)

text \<open>A new frame makes its route come, whether its update is sent or throttled.\<close>

lemma coming_new:
  assumes "route_send env = Sent" "update_routing core" "t0 + from_secs 1 \<le> clock_now env"
    and "\<forall>u \<in> set (sp_pending a). ru_sys_id u = s \<longrightarrow> t0 \<le> ru_now u"
    and "system_id (frame_header frame) = s" "component_id (frame_header frame) = c"
    and "s \<noteq> 0" "check_incoming (core_filters core) (frame_header frame) (msg_id_of L (frame_message frame))"
    and "sp_hashes a (ahash env (raw_bytes frame)) = None" "length (sp_pending a) < n"
  shows "route_coming (core_id core) t0 s c n (spec_ingress L w env core frame a)"
proof (cases "spec_learns env core (frame_header frame) a")
  case True
  with assms show ?thesis
    by (auto simp: route_coming_def spec_ingress_def Let_def nth_append intro!: exI [of _ "length (sp_pending a)"])
next
  case False
  have recent: "heard_recently ep now k \<Longrightarrow> t0 + from_secs 1 \<le> now \<Longrightarrow> heard_since ep t0 k" for ep now k
    by (auto simp: heard_recently_def heard_since_def duration_since_def split: option.splits)
  from False assms have "route_known (core_id core) t0 s c (sp_routes a)"
    by (auto simp: spec_learns_def route_known_def intro: recent)
  with False assms show ?thesis by (auto simp: route_coming_def spec_ingress_def Let_def)
qed

lemma route_known_sends:
  assumes "route_known ep t0 s c f"
  shows "ep \<in> paths_to f s c" "ep \<in> paths_to f s 0"
  using assms heard_since_seen [of ep t0] by (auto simp: route_known_def paths_to_def)

text \<open>
  C4. A system that has spoken can be answered. Take any reachable state and let an endpoint
  read a new frame of system \<open>s\<close> and component \<open>c\<close>, whose route update is either queued or throttled
  because the route is fresh. After any further interleaving in which the updater ran often enough for
  the queue, no older traffic of the system was read and no prune found the route over age, the
  endpoint sends exactly those messages for the component, or for the whole system, that come from
  another endpoint and pass its outgoing filters. So neither the throttle, nor the queue's lag, nor the
  other endpoints' traffic, nor pruning can lose a route that the reply needs.
\<close>
theorem conversation_delivered:
  assumes "h = hub_run L earlier (hub_new p (table_run cfg))"
    and "accepted L core frame" "\<not> known_payload (ahash env) frame h"
    and "update_routing core" "route_send env = Sent"
    and "s = system_id (frame_header frame)" "c = component_id (frame_header frame)"
    and "t0 + from_secs 1 \<le> clock_now env"
    and "\<forall>u \<in> set (hub_routes_tx h). ru_sys_id u = s \<longrightarrow> t0 \<le> ru_now u"
    and "\<forall>ev \<in> set later. spares t0 s ev"
    and "length (hub_routes_tx h) < ROUTE_UPDATE_BATCH_SIZE * length (filter is_batch later)"
    and "target reply = \<lparr>target_system_id = s, target_component_id = d\<rparr>" "d = c \<or> d = 0"
  shows "check_outgoing core (hub_table (hub_run L (Ingress env core frame # later) h)) reply \<longleftrightarrow>
    source_id reply \<noteq> core_id core \<and> filters_check_outgoing (core_filters core) (header reply) (message_id reply)"
proof -
  let ?cfg = "rt_config (table_run cfg)" and ?h' = "hub_run L (Ingress env core frame # later) h"
  have invar: "hub_invar p ?cfg h" using run_refines_spec [OF hub_start(1)] assms(1) by blast
  have abs: "abs_hub ?h' = spec_run L (window_of p) later (spec_ingress L (window_of p) env core frame (abs_hub h))"
    and "hub_invar p ?cfg ?h'"
    using run_refines_spec [OF invar, of L "Ingress env core frame # later"] by (simp_all add: spec_run_def)
  have "s \<noteq> 0" "check_incoming (core_filters core) (frame_header frame) (msg_id_of L (frame_message frame))"
    using assms(2,6) by (auto simp: accepted_def accept_frame_def split: if_splits)
  moreover have "cd_age (hub_dedup h) (ahash env (raw_bytes frame)) = None"
    using assms(3) known_payload_spec [OF invar] by simp
  ultimately have "route_coming (core_id core) t0 s c (0 + 256 * length (filter is_batch later))
      (spec_ingress L (window_of p) env core frame (abs_hub h))"
    using assms(4-9,11) by (intro coming_new) (simp_all add: abs_hub_def ROUTE_UPDATE_BATCH_SIZE_def)
  then have "route_coming (core_id core) t0 s c 0 (abs_hub ?h')"
    unfolding abs by (rule coming_run [OF _ assms(10)])
  then have "route_known (core_id core) t0 s c (view (hub_table ?h'))"
    by (simp add: route_coming_def abs_hub_def)
  from route_known_sends [OF this] have "core_id core \<in> paths_to (sp_routes (abs_hub ?h')) s d"
    using assms(13) by (auto simp: abs_hub_def)
  then show ?thesis
    using egress_refines [of "hub_table ?h'" cfg "abs_hub ?h'" core reply] \<open>hub_invar p ?cfg ?h'\<close>
    by (auto simp: hub_invar_def abs_hub_def spec_outgoing_def assms(12))
qed

definition sample_reply :: routed_message where
  "sample_reply = \<lparr>source_id = EndpointId 1, header = \<lparr>system_id = 255, component_id = 190, sequence = 0\<rparr>, message_id = 76,
     version = V2, timestamp_us = 0, serialized_bytes = [], target = \<lparr>target_system_id = 1, target_component_id = 1\<rparr>\<rparr>"

theorem conversation_delivered_witness:
  "check_outgoing (sample_core 0) (hub_table (hub_run sample_lib
     (Ingress (sample_env\<lparr>clock_now := from_secs 10\<rparr>) (sample_core 0) (sample_frame 1) #
       [Updater_Prune (\<lambda>_. from_secs 20) (from_secs 300), Updater_Batch 0, Updater_Prune (\<lambda>_. from_secs 300) (from_secs 300)])
     (hub_new (from_millis 500) (table_run [])))) sample_reply"
proof -
  let ?env = "sample_env\<lparr>clock_now := from_secs 10\<rparr>" and ?h = "hub_new (from_millis 500) (table_run [])"
  have new: "\<not> known_payload (ahash ?env) (sample_frame 1) ?h"
    using known_payload_spec [OF hub_start(1)] by (simp add: hub_new_def dedup_start)
  have acc: "accepted sample_lib (sample_core 0) (sample_frame 1)" by (simp add: sample_accepted)
  have filters: "filters_check_outgoing (core_filters (sample_core 0)) (header sample_reply) (message_id sample_reply)"
    by (simp add: sample_core_def outgoing_criteria default_filters_def criterion_def)
  show ?thesis
    using conversation_delivered [of ?h sample_lib "[]" "from_millis 500" "[]" "sample_core 0" "sample_frame 1" ?env 1 1
        "from_secs 9" "[Updater_Prune (\<lambda>_. from_secs 20) (from_secs 300), Updater_Batch 0,
          Updater_Prune (\<lambda>_. from_secs 300) (from_secs 300)]" sample_reply 1, OF _ acc new] filters
    by (simp add: sample_core_def sample_env_def sample_frame_def hub_new_def spares_def is_batch_def from_secs_def
        duration_since_def ROUTE_UPDATE_BATCH_SIZE_def sample_reply_def)
qed

end
