(* ===== verification/Updater.thy ===== *)
theory Updater
  imports Hub_Spec
begin

text \<open>
  The routing updater task (\<open>src/orchestration/updater.rs\<close>): the loop around its biased
  \<open>select\<close>, with the steps of the other tasks between its polls. The queue and the table are those of
  the shared state; the cancellation, the drop of the last sender and the prune timer are inputs of a poll.
\<close>

section \<open>The task\<close>

text \<open>
  What a poll of the \<open>select\<close> finds: whether the token is cancelled, whether all senders are
  dropped, and whether the prune timer is due, with the clock readings of the shards. \<open>up_clock\<close> is the
  reading of the updates' capacity checks.
\<close>

record updater_poll =
  up_cancelled :: bool
  up_senders_gone :: bool
  up_tick :: "(nat \<Rightarrow> instant) option"
  up_clock :: instant

datatype updater_exit = Updater_Waiting | Updater_Cancelled | Updater_Senders_Dropped

text \<open>
  The script starts after the first tick of the prune timer, which the code awaits and ignores.
  One round per element of the script: the steps that the other tasks take before the poll, then the
  first arm of the \<open>select\<close> that is ready, in the order of the code. A channel with queued updates
  yields them even when its senders are gone. With no arm ready the task stays parked until the next poll.
\<close>

fun updater_loop :: "mavlink_lib \<Rightarrow> duration \<Rightarrow> (hub_event list \<times> updater_poll) list \<Rightarrow> hub \<Rightarrow> updater_exit \<times> hub" where
  "updater_loop L prune_ttl [] h = (Updater_Waiting, h)"
| "updater_loop L prune_ttl ((evs, p) # ps) h =
     (let h' = hub_run L evs h in
      if up_cancelled p then (Updater_Cancelled, h')
      else if hub_routes_tx h' \<noteq> [] then updater_loop L prune_ttl ps (updater_batch (up_clock p) h')
      else if up_senders_gone p then (Updater_Senders_Dropped, h')
      else (case up_tick p of
          Some clk \<Rightarrow> updater_loop L prune_ttl ps (updater_prune clk prune_ttl h')
        | None \<Rightarrow> updater_loop L prune_ttl ps h'))"

section \<open>The synchronous view\<close>

text \<open>The routes with all queued updates applied, as if the updater had already run.\<close>

definition settled :: "hub \<Rightarrow> flat_table" where
  "settled h = fold spec_apply (hub_routes_tx h) (view (hub_table h))"

datatype route_effect = Learned route_update | Pruned "nat \<Rightarrow> instant" duration

fun take_effect :: "route_effect \<Rightarrow> flat_table \<Rightarrow> flat_table" where
  "take_effect (Learned u) f = spec_apply u f"
| "take_effect (Pruned clk ttl) f = flat_prune clk ttl f"

text \<open>What a step contributes: the updates that it puts on the queue, and the prune.\<close>

definition effects_of :: "mavlink_lib \<Rightarrow> hub_event \<Rightarrow> hub \<Rightarrow> route_effect list" where
  "effects_of L ev h =
     (case ev of
        Ingress env core frame \<Rightarrow> map Learned (drop (length (hub_routes_tx h)) (hub_routes_tx (hub_step L ev h)))
      | Updater_Prune clk ttl \<Rightarrow> [Pruned clk ttl]
      | _ \<Rightarrow> [])"

fun effects :: "mavlink_lib \<Rightarrow> hub_event list \<Rightarrow> hub \<Rightarrow> route_effect list" where
  "effects L [] h = []"
| "effects L (ev # evs) h = effects_of L ev h @ effects L evs (hub_step L ev h)"

definition by_updater :: "hub_event \<Rightarrow> bool" where
  "by_updater ev = (case ev of Updater_Batch clock \<Rightarrow> True | Updater_Prune clk ttl \<Rightarrow> True | _ \<Rightarrow> False)"

lemma effects_append: "effects L (evs @ evs') h = effects L evs h @ effects L evs' (hub_run L evs h)"
  by (induction evs arbitrary: h) simp_all

lemma handle_queue: "\<exists>us. hub_routes_tx (handle_incoming_frame L env core frame h) = hub_routes_tx h @ us"
  by (cases rule: handle_cases [of L core frame _ env h]) (simp_all add: handle_simps observe_spec)

lemma fold_learned: "fold take_effect (map Learned us) f = fold spec_apply us f"
  by (induction us arbitrary: f) simp_all

lemma settled_batch: "rt_ok (hub_table h) \<Longrightarrow> settled (updater_batch clock h) = settled h"
proof -
  assume ok: "rt_ok (hub_table h)"
  have "fold spec_apply us f = fold spec_apply (drop n us) (fold spec_apply (take n us) f)" for us f n
    by (metis append_take_drop_id comp_apply fold_append)
  with updates_fold [OF ok] show ?thesis by (simp add: settled_def updater_batch_def Let_def)
qed

lemma rt_ok_hub_step: "rt_ok (hub_table h) \<Longrightarrow> rt_ok (hub_table (hub_step L ev h))"
  using updates_fold [of "hub_table h"] by (cases ev) (simp_all add: updater_batch_def Let_def rt_ok_prune)

lemma rt_ok_hub_run: "rt_ok (hub_table h) \<Longrightarrow> rt_ok (hub_table (hub_run L evs h))"
  by (induction evs arbitrary: h) (simp_all add: rt_ok_hub_step)

text \<open>A prune commutes with nothing that is still queued, so it takes effect at once only on an empty queue.\<close>

lemma settled_step:
  assumes "rt_ok (hub_table h)" "\<And>clk ttl. ev = Updater_Prune clk ttl \<Longrightarrow> hub_routes_tx h = []"
  shows "settled (hub_step L ev h) = fold take_effect (effects_of L ev h) (settled h)"
proof (cases ev)
  case (Ingress env core frame)
  obtain us where "hub_routes_tx (handle_incoming_frame L env core frame h) = hub_routes_tx h @ us"
    using handle_queue by blast
  then show ?thesis using Ingress by (simp add: settled_def effects_of_def fold_learned)
next
  case (Updater_Batch clock)
  with assms(1) show ?thesis by (simp add: settled_batch effects_of_def)
next
  case (Updater_Prune clk ttl)
  with assms show ?thesis by (simp add: settled_def effects_of_def view_prune)
qed (simp_all add: settled_def effects_of_def)

lemma settled_run:
  assumes "rt_ok (hub_table h)" "\<forall>ev \<in> set evs. \<not> by_updater ev"
  shows "settled (hub_run L evs h) = fold take_effect (effects L evs h) (settled h)"
  using assms
proof (induction evs arbitrary: h)
  case (Cons ev evs)
  have "settled (hub_step L ev h) = fold take_effect (effects_of L ev h) (settled h)"
    using Cons.prems by (intro settled_step) (auto simp: by_updater_def)
  with Cons show ?case by (simp add: rt_ok_hub_step)
qed simp

section \<open>Properties\<close>

text \<open>
  C17. The updater's delay is unobservable. Whatever the other tasks do between its polls, the updater
  does nothing to the shared state but its own batches and prunes; and the table with the queued
  updates applied is, at every moment, what a router would have that applied each update the moment
  it was queued and each prune the moment it ran. It rests on the order of the \<open>select\<close>: a
  prune never runs while an older update is queued. When the task ends because all senders are gone,
  nothing is left in the queue.
\<close>
theorem updater_linearizable:
  assumes "rt_ok (hub_table h)" "\<forall>(evs, p) \<in> set ps. \<forall>ev \<in> set evs. \<not> by_updater ev"
    and "updater_loop L prune_ttl ps h = (r, h')"
  shows "\<exists>evs rest. h' = hub_run L evs h \<and> concat (map fst ps) = filter (\<lambda>ev. \<not> by_updater ev) evs @ rest \<and>
    settled h' = fold take_effect (effects L evs h) (settled h) \<and>
    (r = Updater_Senders_Dropped \<longrightarrow> view (hub_table h') = settled h') \<and> (r = Updater_Waiting \<longrightarrow> rest = [])"
  using assms
proof (induction ps arbitrary: h)
  case Nil
  then show ?case by (intro exI [of _ "[]"]) simp
next
  case (Cons q ps)
  obtain evs p where q: "q = (evs, p)" by force
  let ?h = "hub_run L evs h"
  have own: "\<forall>ev \<in> set evs. \<not> by_updater ev" and ok: "rt_ok (hub_table ?h)"
    using Cons.prems(1,2) by (auto simp: q rt_ok_hub_run)
  have run: "settled ?h = fold take_effect (effects L evs h) (settled h)" "filter (\<lambda>ev. \<not> by_updater ev) evs = evs"
    using settled_run [OF Cons.prems(1) own] own by simp_all
  have rest: "\<forall>(evs, p) \<in> set ps. \<forall>ev \<in> set evs. \<not> by_updater ev" using Cons.prems(2) by simp
  have next_round: ?case if "updater_loop L prune_ttl ps (hub_run L own ?h) = (r, h')" "\<forall>ev \<in> set own. by_updater ev"
      "settled (hub_run L own ?h) = fold take_effect (effects L own ?h) (settled ?h)" for own
  proof -
    note round = that
    obtain evs' rest where IH: "h' = hub_run L evs' (hub_run L own ?h)"
      "concat (map fst ps) = filter (\<lambda>ev. \<not> by_updater ev) evs' @ rest"
      "settled h' = fold take_effect (effects L evs' (hub_run L own ?h)) (settled (hub_run L own ?h))"
      "r = Updater_Senders_Dropped \<longrightarrow> view (hub_table h') = settled h'" "r = Updater_Waiting \<longrightarrow> rest = []"
      using Cons.IH [OF rt_ok_hub_run [OF ok] rest round(1)] by blast
    then show ?thesis
      using IH round(2,3) run by (intro exI [of _ "evs @ own @ evs'"] exI [of _ rest]) (simp add: q effects_append filter_empty_conv)
  qed
  have stop: ?case if "h' = ?h" "r \<noteq> Updater_Waiting" "r = Updater_Senders_Dropped \<longrightarrow> hub_routes_tx ?h = []"
    using that run by (intro exI [of _ evs] exI [of _ "concat (map fst ps)"]) (auto simp: q settled_def)
  show ?case
  proof (cases "up_cancelled p \<or> hub_routes_tx ?h = [] \<and> up_senders_gone p")
    case True
    with Cons.prems(3) stop show ?thesis by (auto simp: q Let_def split: if_splits)
  next
    case False
    show ?thesis
    proof (cases "hub_routes_tx ?h = []")
      case True
      with False Cons.prems(3) next_round [of "[]"] next_round [of "[Updater_Prune clk prune_ttl]" for clk]
        settled_step [OF ok, of "Updater_Prune clk prune_ttl" L for clk]
      show ?thesis by (auto simp: q Let_def by_updater_def split: option.splits)
    next
      case queued: False
      with False Cons.prems(3) next_round [of "[Updater_Batch (up_clock p)]"] settled_step [OF ok, of "Updater_Batch (up_clock p)" L]
      show ?thesis by (simp add: q Let_def by_updater_def)
    qed
  qed
qed

definition poll_of :: "(nat \<Rightarrow> instant) option \<Rightarrow> bool \<Rightarrow> updater_poll" where
  "poll_of tick gone = \<lparr>up_cancelled = False, up_senders_gone = gone, up_tick = tick, up_clock = 0\<rparr>"

theorem updater_linearizable_witness:
  "\<exists>evs. settled (snd (updater_loop sample_lib (from_secs 300)
       [([Ingress sample_env (sample_core 0) (sample_frame 1)], poll_of (Some (\<lambda>_. from_secs 400)) False)]
       (hub_new (from_millis 500) routing_table_new))) =
     fold take_effect (effects sample_lib evs (hub_new (from_millis 500) routing_table_new)) flat_empty"
proof -
  let ?h = "hub_new (from_millis 500) routing_table_new"
  let ?ps = "[([Ingress sample_env (sample_core 0) (sample_frame 1)], poll_of (Some (\<lambda>_. from_secs 400)) False)]"
  have start: "settled ?h = flat_empty" by (simp add: settled_def hub_new_def view_new flat_empty_def)
  have ok: "rt_ok (hub_table ?h)" by (simp add: hub_new_def rt_ok_new)
  have own: "\<forall>(evs, p) \<in> set ?ps. \<forall>ev \<in> set evs. \<not> by_updater ev" by (simp add: by_updater_def)
  obtain r h' where run: "updater_loop sample_lib (from_secs 300) ?ps ?h = (r, h')" by force
  from updater_linearizable [OF ok own run] obtain evs where "settled h' = fold take_effect (effects sample_lib evs ?h) (settled ?h)"
    by blast
  then show ?thesis unfolding run start by auto
qed

text \<open>
  C19. The updater drains its queue and ends. Once all senders are dropped, and unless it is
  cancelled, it applies every queued update in order, in as many polls as the queue has batches, and
  the next poll ends it.
\<close>
theorem updater_drains:
  assumes "rt_ok (hub_table h)" "\<forall>(evs, p) \<in> set ps. evs = [] \<and> \<not> up_cancelled p \<and> up_senders_gone p"
    and "length (hub_routes_tx h) + ROUTE_UPDATE_BATCH_SIZE \<le> ROUTE_UPDATE_BATCH_SIZE * length ps"
  shows "\<exists>h'. updater_loop L prune_ttl ps h = (Updater_Senders_Dropped, h') \<and> hub_routes_tx h' = [] \<and>
    view (hub_table h') = fold spec_apply (hub_routes_tx h) (view (hub_table h))"
  using assms
proof (induction ps arbitrary: h)
  case Nil
  then show ?case by (simp add: ROUTE_UPDATE_BATCH_SIZE_def)
next
  case (Cons q ps)
  obtain p where q: "q = ([], p)" "\<not> up_cancelled p" "up_senders_gone p" using Cons.prems(2) by (cases q) auto
  show ?case
  proof (cases "hub_routes_tx h = []")
    case True
    with q show ?thesis by simp
  next
    case False
    let ?h = "updater_batch (up_clock p) h"
    have "rt_ok (hub_table ?h)" "settled ?h = settled h"
      using settled_batch [OF Cons.prems(1)] rt_ok_hub_step [OF Cons.prems(1), of L "Updater_Batch (up_clock p)"] by simp_all
    moreover have "length (hub_routes_tx ?h) + ROUTE_UPDATE_BATCH_SIZE \<le> ROUTE_UPDATE_BATCH_SIZE * length ps"
      using Cons.prems(3) False by (cases ps) (auto simp: updater_batch_def Let_def ROUTE_UPDATE_BATCH_SIZE_def)
    ultimately obtain h' where "updater_loop L prune_ttl ps ?h = (Updater_Senders_Dropped, h')" "hub_routes_tx h' = []"
      "view (hub_table h') = settled h"
      using Cons.IH [of ?h] Cons.prems(2) by (auto simp: settled_def)
    with q False show ?thesis by (simp add: settled_def)
  qed
qed

theorem updater_drains_witness:
  "\<exists>h'. updater_loop sample_lib (from_secs 300) (replicate 17 ([], poll_of None True))
     ((hub_new 0 routing_table_new)\<lparr>hub_routes_tx := replicate 4096 \<lparr>ru_endpoint_id = EndpointId 0, ru_sys_id = 1, ru_comp_id = 1, ru_now = 0\<rparr>\<rparr>) =
     (Updater_Senders_Dropped, h') \<and> hub_routes_tx h' = []"
proof -
  define ps :: "(hub_event list \<times> updater_poll) list" where "ps = replicate 17 ([], poll_of None True)"
  define us where "us = replicate 4096 \<lparr>ru_endpoint_id = EndpointId 0, ru_sys_id = 1, ru_comp_id = 1, ru_now = 0\<rparr>"
  have len: "length ps = 17" "length us = 4096" by (simp_all only: ps_def us_def length_replicate)
  have quiet: "\<forall>(evs, p) \<in> set ps. evs = [] \<and> \<not> up_cancelled p \<and> up_senders_gone p"
    unfolding ps_def set_replicate_conv_if by (simp add: poll_of_def)
  have "\<exists>h'. updater_loop sample_lib (from_secs 300) ps ((hub_new 0 routing_table_new)\<lparr>hub_routes_tx := us\<rparr>) =
      (Updater_Senders_Dropped, h') \<and> hub_routes_tx h' = []"
    using updater_drains [OF _ quiet, of "(hub_new 0 routing_table_new)\<lparr>hub_routes_tx := us\<rparr>" sample_lib "from_secs 300"]
    by (auto simp: hub_new_def rt_ok_new ROUTE_UPDATE_BATCH_SIZE_def len)
  then show ?thesis unfolding ps_def us_def .
qed

section \<open>The dedup rotator\<close>

text \<open>
  The rotator task that \<open>spawn_all\<close> starts: the steps of the other tasks before it wakes up, and
  whether it wakes up for the cancellation or for its timer.
\<close>

fun rotator_loop :: "mavlink_lib \<Rightarrow> (hub_event list \<times> bool) list \<Rightarrow> hub \<Rightarrow> bool \<times> hub" where
  "rotator_loop L [] h = (False, h)"
| "rotator_loop L ((evs, cancelled) # ps) h =
     (let h' = hub_run L evs h in
      if cancelled then (True, h') else rotator_loop L ps (h'\<lparr>hub_dedup := rotate_buckets (hub_dedup h')\<rparr>))"

lemma rotator_loop_run:
  "rotator_loop L ps h = (stopped, h') \<Longrightarrow>
     \<exists>n \<le> length ps. h' = hub_run L (concat (map (\<lambda>(evs, c). evs @ [Rotate_Dedup]) (take n ps)) @
       (if stopped then fst (ps ! n) else [])) h \<and> (if stopped then n < length ps \<and> snd (ps ! n) else n = length ps)"
proof (induction ps arbitrary: h)
  case (Cons q ps)
  obtain evs c where q: "q = (evs, c)" by force
  show ?case
  proof (cases c)
    case True
    with Cons.prems q show ?thesis by (intro exI [of _ 0]) auto
  next
    case False
    let ?h = "hub_step L Rotate_Dedup (hub_run L evs h)"
    from False Cons.prems q have "rotator_loop L ps ?h = (stopped, h')" by (simp add: Let_def)
    from Cons.IH [OF this] obtain n where "n \<le> length ps"
      "h' = hub_run L (concat (map (\<lambda>(evs, c). evs @ [Rotate_Dedup]) (take n ps)) @ (if stopped then fst (ps ! n) else [])) ?h"
      "if stopped then n < length ps \<and> snd (ps ! n) else n = length ps" by blast
    then show ?thesis by (intro exI [of _ "Suc n"]) (auto simp: q split: if_splits)
  qed
qed simp

end
