(* ===== verification/Net_Addr.thy ===== *)
theory Net_Addr
  imports Prelude
begin

text \<open>
  Socket addresses of the Rust standard library, as far as the router uses them: the parser behind
  \<open>parse::<SocketAddr>()\<close> and the resolution that \<open>to_socket_addrs\<close> does before it asks the system.
  A parser takes a text and gives a value and the text it has not consumed, or \<open>None\<close>; a parser
  that fails has consumed nothing.
\<close>

section \<open>Addresses\<close>

text \<open>The segments of an IPv6 address, its scope and its port. The flow label of a parsed address is 0.\<close>

datatype socket_addr =
    Sock_V4 u8 u8 u8 u8 u16
  | Sock_V6 "u16 list" u32 u16

fun port_of :: "socket_addr \<Rightarrow> u16" where
  "port_of (Sock_V4 a b c d p) = p"
| "port_of (Sock_V6 segs scope p) = p"

fun is_ipv4 :: "socket_addr \<Rightarrow> bool" where
  "is_ipv4 (Sock_V4 a b c d p) = True"
| "is_ipv4 (Sock_V6 segs scope p) = False"

section \<open>Numbers\<close>

definition to_digit :: "nat \<Rightarrow> char \<Rightarrow> nat option" where
  "to_digit radix c =
     (let n = of_char c :: nat;
          d = if 48 \<le> n \<and> n \<le> 57 then n - 48
              else if 97 \<le> n \<and> n \<le> 122 then n - 87
              else if 65 \<le> n \<and> n \<le> 90 then n - 55 else radix
      in if d < radix then Some d else None)"

fun read_digits :: "nat \<Rightarrow> string \<Rightarrow> nat list \<times> string" where
  "read_digits radix [] = ([], [])"
| "read_digits radix (c # cs) =
     (case to_digit radix c of
        None \<Rightarrow> ([], c # cs)
      | Some d \<Rightarrow> (let (ds, rest) = read_digits radix cs in (d # ds, rest)))"

definition number :: "nat \<Rightarrow> nat list \<Rightarrow> nat" where
  "number radix ds = foldl (\<lambda>n d. n * radix + d) 0 ds"

text \<open>All digits are read; too many of them, or a value above \<open>limit\<close>, are an error and not a stop.\<close>

definition read_number :: "nat \<Rightarrow> nat option \<Rightarrow> bool \<Rightarrow> nat \<Rightarrow> string \<Rightarrow> (nat \<times> string) option" where
  "read_number radix max_digits allow_zero_prefix limit s =
     (case read_digits radix s of (ds, rest) \<Rightarrow>
        if ds = [] \<or> (case max_digits of None \<Rightarrow> False | Some n \<Rightarrow> n < length ds) \<or>
          (\<not> allow_zero_prefix \<and> hd ds = 0 \<and> 1 < length ds) \<or> limit < number radix ds
        then None else Some (number radix ds, rest))"

definition read_given_char :: "char \<Rightarrow> string \<Rightarrow> string option" where
  "read_given_char c s = (case s of [] \<Rightarrow> None | x # xs \<Rightarrow> if x = c then Some xs else None)"

text \<open>A separator stands before every item of a list but the first.\<close>

definition read_separator :: "char \<Rightarrow> nat \<Rightarrow> (string \<Rightarrow> ('a \<times> string) option) \<Rightarrow> string \<Rightarrow> ('a \<times> string) option" where
  "read_separator sep i p s = (if i = 0 then p s else Option.bind (read_given_char sep s) p)"

section \<open>IP addresses\<close>

fun read_octets :: "nat \<Rightarrow> nat \<Rightarrow> string \<Rightarrow> (nat list \<times> string) option" where
  "read_octets i 0 s = Some ([], s)"
| "read_octets i (Suc n) s =
     (case read_separator (CHR ''.'') i (read_number 10 (Some 3) False 255) s of
        None \<Rightarrow> None
      | Some (b, s') \<Rightarrow> map_option (\<lambda>(bs, rest). (b # bs, rest)) (read_octets (Suc i) n s'))"

definition read_ipv4_addr :: "string \<Rightarrow> (nat list \<times> string) option" where
  "read_ipv4_addr s = read_octets 0 4 s"

definition from_be_bytes :: "nat \<Rightarrow> nat \<Rightarrow> u16" where
  "from_be_bytes hi lo = of_nat (hi * 256 + lo)"

text \<open>
  Up to \<open>n\<close> groups of four hexadecimal digits, from position \<open>i\<close> on, the last two of which may be
  written as an IPv4 address; whether they were is the second component.
\<close>

fun read_groups :: "nat \<Rightarrow> nat \<Rightarrow> string \<Rightarrow> u16 list \<times> bool \<times> string" where
  "read_groups i 0 s = ([], False, s)"
| "read_groups i (Suc n) s =
     (case (if 0 < n then read_separator (CHR '':'') i read_ipv4_addr s else None) of
        Some (bs, rest) \<Rightarrow> ([from_be_bytes (bs ! 0) (bs ! 1), from_be_bytes (bs ! 2) (bs ! 3)], True, rest)
      | None \<Rightarrow>
          (case read_separator (CHR '':'') i (read_number 16 (Some 4) True 65535) s of
             None \<Rightarrow> ([], False, s)
           | Some (g, s') \<Rightarrow>
               (case read_groups (Suc i) n s' of (gs, ipv4, rest) \<Rightarrow> (of_nat g # gs, ipv4, rest))))"

text \<open>Eight groups, or fewer on both sides of \<open>::\<close>, which stands for one group of zeros at least.\<close>

definition read_ipv6_addr :: "string \<Rightarrow> (u16 list \<times> string) option" where
  "read_ipv6_addr s =
     (case read_groups 0 8 s of (head, ipv4, rest) \<Rightarrow>
        if length head = 8 then Some (head, rest)
        else if ipv4 then None
        else case Option.bind (read_given_char (CHR '':'') rest) (read_given_char (CHR '':'')) of
            None \<Rightarrow> None
          | Some s' \<Rightarrow>
              (case read_groups 0 (7 - length head) s' of (tail, _, rest') \<Rightarrow>
                 Some (head @ replicate (8 - length head - length tail) 0 @ tail, rest')))"

section \<open>Socket addresses\<close>

definition read_port :: "string \<Rightarrow> (nat \<times> string) option" where
  "read_port s = Option.bind (read_given_char (CHR '':'') s) (read_number 10 None True 65535)"

definition read_scope_id :: "string \<Rightarrow> (nat \<times> string) option" where
  "read_scope_id s = Option.bind (read_given_char (CHR ''%'') s) (read_number 10 None True (2 ^ 32 - 1))"

definition read_socket_addr_v4 :: "string \<Rightarrow> (socket_addr \<times> string) option" where
  "read_socket_addr_v4 s =
     (case read_ipv4_addr s of
        None \<Rightarrow> None
      | Some (bs, s') \<Rightarrow>
          map_option (\<lambda>(p, rest). (Sock_V4 (of_nat (bs ! 0)) (of_nat (bs ! 1)) (of_nat (bs ! 2)) (of_nat (bs ! 3)) (of_nat p), rest))
            (read_port s'))"

definition read_socket_addr_v6 :: "string \<Rightarrow> (socket_addr \<times> string) option" where
  "read_socket_addr_v6 s =
     (case Option.bind (read_given_char (CHR ''['') s) read_ipv6_addr of
        None \<Rightarrow> None
      | Some (segs, s') \<Rightarrow>
          (case (case read_scope_id s' of None \<Rightarrow> (0, s') | Some r \<Rightarrow> r) of (scope, s'') \<Rightarrow>
             map_option (\<lambda>(p, rest). (Sock_V6 segs (of_nat scope) (of_nat p), rest))
               (Option.bind (read_given_char (CHR '']'') s'') read_port)))"

definition ADDR_PARSE_ERROR :: string where
  "ADDR_PARSE_ERROR = ''invalid socket address syntax''"

text \<open>The whole text must be consumed.\<close>

definition parse_socket_addr :: "string \<Rightarrow> string + socket_addr" where
  "parse_socket_addr s =
     (case (case read_socket_addr_v4 s of Some r \<Rightarrow> Some r | None \<Rightarrow> read_socket_addr_v6 s) of
        Some (a, []) \<Rightarrow> Inr a
      | _ \<Rightarrow> Inl ADDR_PARSE_ERROR)"

section \<open>Resolution\<close>

text \<open>\<open>parse::<u16>()\<close> allows a plus sign.\<close>

definition parse_u16 :: "string \<Rightarrow> u16 option" where
  "parse_u16 s =
     (case read_number 10 None True 65535 (case s of c # cs \<Rightarrow> if c = CHR ''+'' then cs else s | [] \<Rightarrow> s) of
        Some (n, []) \<Rightarrow> Some (of_nat n)
      | _ \<Rightarrow> None)"

definition rsplit_once :: "char \<Rightarrow> string \<Rightarrow> (string \<times> string) option" where
  "rsplit_once c s =
     (if c \<in> set s then Some (rev (tl (dropWhile (\<lambda>x. x \<noteq> c) (rev s))), rev (takeWhile (\<lambda>x. x \<noteq> c) (rev s))) else None)"

text \<open>
  \<open>to_socket_addrs\<close> of a text: an address stands for itself; otherwise the text is split at its
  last colon and the system is asked for the host, which is the parameter \<open>lookup\<close>.
\<close>

definition to_socket_addrs :: "(string \<Rightarrow> u16 \<Rightarrow> string + socket_addr list) \<Rightarrow> string \<Rightarrow> string + socket_addr list" where
  "to_socket_addrs lookup s =
     (case parse_socket_addr s of
        Inr a \<Rightarrow> Inr [a]
      | Inl _ \<Rightarrow>
          (case rsplit_once (CHR '':'') s of
             None \<Rightarrow> Inl ''invalid socket address''
           | Some (host, port_str) \<Rightarrow>
               (case parse_u16 port_str of
                  None \<Rightarrow> Inl ''invalid port value''
                | Some p \<Rightarrow> lookup host p)))"

lemma to_socket_addrs_literal: "parse_socket_addr s = Inr a \<Longrightarrow> to_socket_addrs lookup s = Inr [a]"
  by (simp add: to_socket_addrs_def)

section \<open>What the parser accepts\<close>

lemmas parse_addr_eval = parse_socket_addr_def read_socket_addr_v4_def read_socket_addr_v6_def read_port_def read_scope_id_def
  read_ipv4_addr_def read_ipv6_addr_def read_separator_def read_given_char_def read_number_def number_def to_digit_def
  from_be_bytes_def Let_def

text \<open>The equations of the counted loops at a numeral.\<close>

lemmas replicate_numeral_Cons = replicate_Suc [of "pred_numeral k", folded numeral_eq_Suc] for k
lemmas read_octets_numeral [simp] = read_octets.simps(2) [of _ "pred_numeral k", folded numeral_eq_Suc] for k
lemmas read_groups_numeral [simp] = read_groups.simps(2) [of _ "pred_numeral k", folded numeral_eq_Suc] for k

lemma parse_examples:
  "parse_socket_addr ''127.0.0.1:14550'' = Inr (Sock_V4 127 0 0 1 14550)"
  "parse_socket_addr ''127.0.0.1:0080'' = Inr (Sock_V4 127 0 0 1 80)"
  "parse_socket_addr ''127.0.0.01:1'' = Inl ADDR_PARSE_ERROR"
  "parse_socket_addr ''0.0.0.0:65536'' = Inl ADDR_PARSE_ERROR"
  "parse_socket_addr ''localhost:14550'' = Inl ADDR_PARSE_ERROR"
  "parse_socket_addr ''[::]:0'' = Inr (Sock_V6 [0, 0, 0, 0, 0, 0, 0, 0] 0 0)"
  "parse_socket_addr ''[fe80::1%3]:14550'' = Inr (Sock_V6 [0xFE80, 0, 0, 0, 0, 0, 0, 1] 3 14550)"
  "parse_socket_addr ''[::FFFF:10.0.0.2]:80'' = Inr (Sock_V6 [0, 0, 0, 0, 0, 0xFFFF, 0x0A00, 2] 0 80)"
  "parse_socket_addr ''[1:2:3:4:5:6:7::8]:80'' = Inl ADDR_PARSE_ERROR"
  "parse_socket_addr ''::1:80'' = Inl ADDR_PARSE_ERROR"
  by (simp_all add: parse_addr_eval replicate_numeral_Cons)

lemma read_groups_length: "read_groups i n s = (gs, ipv4, rest) \<Longrightarrow> length gs \<le> n"
proof (induction i n s arbitrary: gs ipv4 rest rule: read_groups.induct)
  case (2 i n s)
  then show ?case by (fastforce split: option.splits prod.splits if_splits)
qed simp

text \<open>A parsed IPv6 address has eight groups.\<close>

lemma parse_v6_segments: "parse_socket_addr s = Inr (Sock_V6 segs scope p) \<Longrightarrow> length segs = 8"
proof -
  assume "parse_socket_addr s = Inr (Sock_V6 segs scope p)"
  then obtain s' s'' where "read_ipv6_addr s' = Some (segs, s'')"
    by (auto simp: parse_socket_addr_def read_socket_addr_v4_def read_socket_addr_v6_def split: option.splits list.splits prod.splits bind_splits)
  then show ?thesis
    using read_groups_length [of 0 8 s']
    by (auto simp: read_ipv6_addr_def split: prod.splits if_splits option.splits dest!: read_groups_length)
qed

text \<open>Every IPv4 address with port is read back from what \<open>Display\<close> prints.\<close>

fun display_v4 :: "socket_addr \<Rightarrow> string" where
  "display_v4 (Sock_V4 a b c d p) =
     show_nat (unat a) @ ''.'' @ show_nat (unat b) @ ''.'' @ show_nat (unat c) @ ''.'' @ show_nat (unat d) @ '':'' @ show_nat (unat p)"
| "display_v4 (Sock_V6 segs scope p) = []"

fun decimal :: "nat \<Rightarrow> nat list" where
  "decimal n = (if n < 10 then [n] else decimal (n div 10) @ [n mod 10])"

declare decimal.simps [simp del]

lemma show_nat_decimal: "show_nat n = map (\<lambda>d. char_of (48 + d)) (decimal n)"
proof (induction n rule: decimal.induct)
  case (1 n)
  then show ?case by (subst show_nat.simps, subst decimal.simps) simp
qed

lemma decimal_props: "decimal n \<noteq> [] \<and> (\<forall>d \<in> set (decimal n). d < 10) \<and> number 10 (decimal n) = n \<and>
    (hd (decimal n) = 0 \<longrightarrow> n = 0)"
proof (induction n rule: decimal.induct)
  case (1 n)
  then show ?case by (cases "n < 10") (auto simp: number_def decimal.simps [of n])
qed

lemma decimal_0 [simp]: "decimal 0 = [0]"
  by (subst decimal.simps) simp

lemma decimal_octet: "n < 256 \<Longrightarrow> length (decimal n) \<le> 3"
  by (simp add: decimal.simps)

lemma read_digits_decimal:
  "\<forall>d \<in> set ds. d < 10 \<Longrightarrow> fst (read_digits 10 rest) = [] \<Longrightarrow>
     read_digits 10 (map (\<lambda>d. char_of (48 + d)) ds @ rest) = (ds, rest)"
proof (induction ds)
  case Nil
  then show ?case by (cases rest) (auto split: option.splits prod.splits)
next
  case (Cons d ds)
  then show ?case by (simp add: to_digit_def)
qed

lemma read_decimal:
  assumes "fst (read_digits 10 rest) = []" "n \<le> limit"
    and "case max_digits of None \<Rightarrow> True | Some k \<Rightarrow> length (decimal n) \<le> k"
  shows "read_number 10 max_digits zeros limit (show_nat n @ rest) = Some (n, rest)"
proof -
  have "hd (decimal n) = 0 \<Longrightarrow> length (decimal n) = 1" using decimal_props [of n] by auto
  with decimal_props [of n] assms show ?thesis
    by (auto simp: read_number_def show_nat_decimal read_digits_decimal split: option.splits)
qed

lemma display_v4_roundtrip: "is_ipv4 a \<Longrightarrow> parse_socket_addr (display_v4 a) = Inr a"
proof -
  assume "is_ipv4 a"
  then obtain b0 b1 b2 b3 p where a: "a = Sock_V4 b0 b1 b2 b3 p" by (cases a) auto
  have oct: "read_number 10 (Some 3) False 255 (show_nat (unat b) @ c # rest) = Some (unat b, c # rest)"
    if "c = CHR ''.'' \<or> c = CHR '':''" for b :: u8 and c rest
    using that decimal_octet [of "unat b"] unat_u8_less [of b] by (intro read_decimal) (auto simp: to_digit_def)
  have port: "read_number 10 None True 65535 (show_nat (unat p)) = Some (unat p, [])"
  proof -
    have "unat p < 65536" using unsigned_less [of p] by simp
    with read_decimal [of "[]" "unat p" 65535 None True] show ?thesis by simp
  qed
  show ?thesis
    by (simp add: a parse_socket_addr_def read_socket_addr_v4_def read_ipv4_addr_def read_separator_def read_given_char_def
        read_port_def oct port)
qed

end
