(* ===== verification/Config.thy ===== *)
theory Config
  imports Errors Net_Addr Hash_Tables Msg_Filter "HOL-Library.Multiset" "HOL-Library.List_Lexorder" "HOL-Library.Char_ord"
begin

text \<open>
  The configuration (\<open>src/config.rs\<close> and \<open>src/config/\<close>): the data with their defaults, validation,
  merging, and loading from a file, a directory of fragments, or both. The TOML parser and the
  file system are parameters (\<open>config_env\<close>): the deserialised value of a text, the contents of a
  file, and the entries of a directory in the order in which the system lists them. Numbers of the
  configuration, which are only compared and passed on, are naturals.
\<close>

section \<open>Endpoint configuration\<close>

datatype baud_rate = Fixed u32 | Auto "u32 list"

definition rates :: "baud_rate \<Rightarrow> u32 list" where
  "rates b = (case b of Fixed rate \<Rightarrow> [rate] | Auto rs \<Rightarrow> rs)"

text \<open>The visitor of \<open>Deserialize\<close>, by the kind of TOML value.\<close>

definition visit_u64 :: "nat \<Rightarrow> string + baud_rate" where
  "visit_u64 v = (if v < 2 ^ 32 then Inr (Fixed (of_nat v)) else Inl ''baud rate too large for u32'')"

definition visit_i64 :: "int \<Rightarrow> string + baud_rate" where
  "visit_i64 v = (if 0 \<le> v \<and> v < 2 ^ 32 then Inr (Fixed (of_int v)) else Inl ''baud rate must be a positive integer'')"

fun visit_seq :: "u32 list \<Rightarrow> (string + u32) list \<Rightarrow> string + baud_rate" where
  "visit_seq acc [] = Inr (Auto acc)"
| "visit_seq acc (Inr r # rs) = visit_seq (acc @ [r]) rs"
| "visit_seq acc (Inl e # rs) = Inl e"

datatype endpoint_mode = Client | Server

datatype flow_control = Flow_None | Flow_Hardware | Flow_Software

datatype endpoint_config =
    Udp_Endpoint string endpoint_mode nat endpoint_filters "string option"
  | Tcp_Endpoint string endpoint_mode endpoint_filters "string option"
  | Serial_Endpoint string baud_rate flow_control endpoint_filters "string option"

definition group_name :: "endpoint_config \<Rightarrow> string option" where
  "group_name e =
     (let g = (case e of Udp_Endpoint _ _ _ _ g \<Rightarrow> g | Tcp_Endpoint _ _ _ g \<Rightarrow> g | Serial_Endpoint _ _ _ _ g \<Rightarrow> g)
      in case g of None \<Rightarrow> None | Some s \<Rightarrow> if s = [] then None else Some s)"

definition endpoint_filters_of :: "endpoint_config \<Rightarrow> endpoint_filters" where
  "endpoint_filters_of e =
     (case e of Udp_Endpoint _ _ _ f _ \<Rightarrow> f | Tcp_Endpoint _ _ f _ \<Rightarrow> f | Serial_Endpoint _ _ _ f _ \<Rightarrow> f)"

section \<open>General configuration and defaults\<close>

definition default_bus_capacity :: nat where "default_bus_capacity = 5000"
definition default_routing_table_ttl_secs :: nat where "default_routing_table_ttl_secs = 300"
definition default_routing_table_prune_interval_secs :: nat where "default_routing_table_prune_interval_secs = 60"
definition default_stats_retention_secs :: nat where "default_stats_retention_secs = 86400"
definition default_stats_sample_interval_secs :: nat where "default_stats_sample_interval_secs = 1"
definition default_stats_log_interval_secs :: nat where "default_stats_log_interval_secs = 60"
definition default_broadcast_timeout_secs :: nat where "default_broadcast_timeout_secs = 5"
definition default_mode_server :: endpoint_mode where "default_mode_server = Server"
definition default_mode_client :: endpoint_mode where "default_mode_client = Client"

record general_config =
  tcp_port :: "u16 option"
  dedup_period_ms :: "nat option"
  log_dir :: "string option"
  log_telemetry :: bool
  bus_capacity :: nat
  routing_table_ttl_secs :: nat
  routing_table_prune_interval_secs :: nat
  stats_retention_secs :: nat
  stats_sample_interval_secs :: nat
  stats_log_interval_secs :: nat
  stats_socket_path :: "string option"
  cfg_sniffer_sysids :: "u8 list"

definition default_general :: general_config where
  "default_general = \<lparr>tcp_port = None, dedup_period_ms = None, log_dir = None, log_telemetry = False,
     bus_capacity = default_bus_capacity,
     routing_table_ttl_secs = default_routing_table_ttl_secs,
     routing_table_prune_interval_secs = default_routing_table_prune_interval_secs,
     stats_retention_secs = default_stats_retention_secs,
     stats_sample_interval_secs = default_stats_sample_interval_secs,
     stats_log_interval_secs = default_stats_log_interval_secs,
     stats_socket_path = None, cfg_sniffer_sysids = []\<rparr>"

record config =
  general :: general_config
  endpoint :: "endpoint_config list"

definition default_config :: config where
  "default_config = \<lparr>general = default_general, endpoint = []\<rparr>"

record config_env =
  toml_from_str :: "string \<Rightarrow> toml_error + config"
  read_to_string :: "string \<Rightarrow> io_error + string"
  read_dir :: "string \<Rightarrow> io_error + (io_error + string option) list"

section \<open>Validation\<close>

datatype protocol = Tcp | Udp

type_synonym ports = "(protocol \<times> u16) list"

fun check_rates :: "nat \<Rightarrow> u32 list \<Rightarrow> router_error + unit" where
  "check_rates i [] = Inr ()"
| "check_rates i (r # rs) =
     (if r < 300 \<or> r > 4000000
      then Inl (config_error (''Invalid baud rate in endpoint '' @ show_nat i @ '': '' @ show_nat (unat r) @
        '' (must be 300-4000000)''))
      else check_rates i rs)"

definition validate_address ::
    "protocol \<Rightarrow> string \<Rightarrow> nat \<Rightarrow> string \<Rightarrow> ports \<Rightarrow> router_error + ports" where
  "validate_address proto label i address ports =
     (case parse_socket_addr address of
        Inl e \<Rightarrow> Inl (config_error (''Invalid address in endpoint '' @ show_nat i @ '': '' @ address @ '' ('' @ e @ '')''))
      | Inr addr \<Rightarrow>
          (case hset_insert (proto, port_of addr) ports of
             (True, ports') \<Rightarrow> Inr ports'
           | (False, _) \<Rightarrow> Inl (config_error (''Duplicate '' @ label @ '' port '' @ show_nat (unat (port_of addr)) @
               '' in endpoint '' @ show_nat i))))"

definition validate_endpoint :: "nat \<Rightarrow> endpoint_config \<Rightarrow> ports \<Rightarrow> router_error + ports" where
  "validate_endpoint i e ports =
     (case e of
        Tcp_Endpoint address _ _ _ \<Rightarrow> validate_address Tcp ''TCP'' i address ports
      | Udp_Endpoint address _ _ _ _ \<Rightarrow> validate_address Udp ''UDP'' i address ports
      | Serial_Endpoint device baud _ _ _ \<Rightarrow>
          (if rates baud = [] then Inl (config_error (''Empty baud rate list in endpoint '' @ show_nat i))
           else case check_rates i (rates baud) of Inl err \<Rightarrow> Inl err | Inr _ \<Rightarrow> Inr ports))"

fun check_msg_ids :: "nat \<Rightarrow> string \<Rightarrow> u32 list \<Rightarrow> router_error + unit" where
  "check_msg_ids i type_str [] = Inr ()"
| "check_msg_ids i type_str (m # ms) =
     (if m > 65535
      then Inl (config_error (''Invalid '' @ type_str @ '' msg_id in endpoint '' @ show_nat i @ '': '' @
        show_nat (unat m) @ '' (must be <= 65535)''))
      else check_msg_ids i type_str ms)"

definition validate_filters :: "nat \<Rightarrow> endpoint_filters \<Rightarrow> router_error + unit" where
  "validate_filters i f =
     (case check_msg_ids i ''allow_out'' (allow_msg_id_out f) of Inl e \<Rightarrow> Inl e | Inr _ \<Rightarrow>
     (case check_msg_ids i ''block_out'' (block_msg_id_out f) of Inl e \<Rightarrow> Inl e | Inr _ \<Rightarrow>
     (case check_msg_ids i ''allow_in'' (allow_msg_id_in f) of Inl e \<Rightarrow> Inl e | Inr _ \<Rightarrow>
      check_msg_ids i ''block_in'' (block_msg_id_in f))))"

fun validate_endpoints :: "nat \<Rightarrow> endpoint_config list \<Rightarrow> ports \<Rightarrow> router_error + unit" where
  "validate_endpoints i [] ports = Inr ()"
| "validate_endpoints i (e # es) ports =
     (case validate_endpoint i e ports of Inl err \<Rightarrow> Inl err | Inr ports' \<Rightarrow>
     (case validate_filters i (endpoint_filters_of e) of Inl err \<Rightarrow> Inl err | Inr _ \<Rightarrow>
      validate_endpoints (Suc i) es ports'))"

definition validate :: "config \<Rightarrow> router_error + unit" where
  "validate cfg =
     (let g = general cfg;
          ports = (case tcp_port g of Some p \<Rightarrow> snd (hset_insert (Tcp, p) []) | None \<Rightarrow> [])
      in case validate_endpoints 0 (endpoint cfg) ports of Inl e \<Rightarrow> Inl e | Inr _ \<Rightarrow>
        if bus_capacity g < 10
        then Inl (config_error (''bus_capacity too small: '' @ show_nat (bus_capacity g)))
        else if bus_capacity g > 1000000
        then Inl (config_error (''bus_capacity too large: '' @ show_nat (bus_capacity g) @ '' (must be <= 1000000)''))
        else if routing_table_prune_interval_secs g = 0
        then Inl (config_error ''routing_table_prune_interval_secs must be greater than 0'')
        else Inr ())"

section \<open>Merging and loading\<close>

definition overlay :: "'a option \<Rightarrow> 'a option \<Rightarrow> 'a option" where
  "overlay old new = (if new \<noteq> None then new else old)"

definition merge :: "config \<Rightarrow> config \<Rightarrow> config" where
  "merge self other =
     \<lparr>general = (general self)\<lparr>
        tcp_port := overlay (tcp_port (general self)) (tcp_port (general other)),
        dedup_period_ms := overlay (dedup_period_ms (general self)) (dedup_period_ms (general other)),
        log_dir := overlay (log_dir (general self)) (log_dir (general other)),
        stats_socket_path := overlay (stats_socket_path (general self)) (stats_socket_path (general other)),
        log_telemetry := log_telemetry (general other),
        bus_capacity := bus_capacity (general other),
        routing_table_ttl_secs := routing_table_ttl_secs (general other),
        routing_table_prune_interval_secs := routing_table_prune_interval_secs (general other),
        stats_retention_secs := stats_retention_secs (general other),
        stats_sample_interval_secs := stats_sample_interval_secs (general other),
        stats_log_interval_secs := stats_log_interval_secs (general other),
        cfg_sniffer_sysids := cfg_sniffer_sysids (general other)\<rparr>,
      endpoint = endpoint self @ endpoint other\<rparr>"

definition parse_config :: "config_env \<Rightarrow> string \<Rightarrow> router_error + config" where
  "parse_config env toml =
     (case toml_from_str env toml of
        Inl e \<Rightarrow> Inl (config_parse e)
      | Inr cfg \<Rightarrow> (case validate cfg of Inl e \<Rightarrow> Inl e | Inr _ \<Rightarrow> Inr cfg))"

definition load :: "config_env \<Rightarrow> string \<Rightarrow> router_error + config" where
  "load env path =
     (case read_to_string env path of
        Inl e \<Rightarrow> Inl (filesystem_error path e)
      | Inr content \<Rightarrow> parse_config env content)"

text \<open>\<open>Path::extension\<close> of a file name: what follows the last dot, if the dot is not the first character.\<close>

definition file_extension :: "string \<Rightarrow> string option" where
  "file_extension name =
     (case dropWhile (\<lambda>c. c \<noteq> CHR ''.'') (rev name) of
        _ # _ # _ \<Rightarrow> Some (rev (takeWhile (\<lambda>c. c \<noteq> CHR ''.'') (rev name)))
      | _ \<Rightarrow> None)"

definition path_join :: "string \<Rightarrow> string \<Rightarrow> string" where
  "path_join dir name = (if dir = [] \<or> last dir = CHR ''/'' then dir @ name else dir @ ''/'' @ name)"

text \<open>A directory entry is its file name, \<open>None\<close> when that is not valid UTF-8.\<close>

fun collect_toml :: "string \<Rightarrow> string list \<Rightarrow> (io_error + string option) list \<Rightarrow> router_error + string list" where
  "collect_toml dir acc [] = Inr acc"
| "collect_toml dir acc (Inl e # es) = Inl (filesystem_error dir e)"
| "collect_toml dir acc (Inr None # es) = collect_toml dir acc es"
| "collect_toml dir acc (Inr (Some name) # es) =
     collect_toml dir (if file_extension name = Some ''toml'' then acc @ [name] else acc) es"

fun merge_files :: "config_env \<Rightarrow> string \<Rightarrow> string list \<Rightarrow> config \<Rightarrow> router_error + config" where
  "merge_files env dir [] merged = Inr merged"
| "merge_files env dir (name # names) merged =
     (let path = path_join dir name in
      case read_to_string env path of
        Inl e \<Rightarrow> Inl (filesystem_error path e)
      | Inr content \<Rightarrow>
          (case toml_from_str env content of
             Inl e \<Rightarrow> Inl (config_parse_file path e)
           | Inr cfg \<Rightarrow> merge_files env dir names (merge merged cfg)))"

definition load_dir :: "config_env \<Rightarrow> string \<Rightarrow> router_error + config" where
  "load_dir env dir =
     (case read_dir env dir of
        Inl e \<Rightarrow> Inl (filesystem_error dir e)
      | Inr entries \<Rightarrow>
          (case collect_toml dir [] entries of
             Inl e \<Rightarrow> Inl e
           | Inr toml_files \<Rightarrow>
               (case merge_files env dir (sort toml_files) default_config of
                  Inl e \<Rightarrow> Inl e
                | Inr merged \<Rightarrow> (case validate merged of Inl e \<Rightarrow> Inl e | Inr _ \<Rightarrow> Inr merged))))"

definition load_merged :: "config_env \<Rightarrow> string option \<Rightarrow> string option \<Rightarrow> router_error + config" where
  "load_merged env file dir =
     (case (case file of Some path \<Rightarrow> load env path | None \<Rightarrow> Inr default_config) of
        Inl e \<Rightarrow> Inl e
      | Inr cfg \<Rightarrow>
          (case dir of
             None \<Rightarrow> Inr cfg
           | Some dir_path \<Rightarrow>
               (case load_dir env dir_path of
                  Inl e \<Rightarrow> Inl e
                | Inr dir_config \<Rightarrow>
                    (case validate (merge cfg dir_config) of
                       Inl e \<Rightarrow> Inl e
                     | Inr _ \<Rightarrow> Inr (merge cfg dir_config)))))"

section \<open>What validation accepts\<close>

text \<open>The port that an endpoint claims, if its address is well formed.\<close>

definition claimed_port :: "endpoint_config \<Rightarrow> (protocol \<times> u16) option" where
  "claimed_port e =
     (case e of
        Tcp_Endpoint a _ _ _ \<Rightarrow> (case parse_socket_addr a of Inl _ \<Rightarrow> None | Inr s \<Rightarrow> Some (Tcp, port_of s))
      | Udp_Endpoint a _ _ _ _ \<Rightarrow> (case parse_socket_addr a of Inl _ \<Rightarrow> None | Inr s \<Rightarrow> Some (Udp, port_of s))
      | Serial_Endpoint _ _ _ _ _ \<Rightarrow> None)"

definition claimed_ports :: "endpoint_config list \<Rightarrow> ports" where
  "claimed_ports es = concat (map (\<lambda>e. case claimed_port e of None \<Rightarrow> [] | Some p \<Rightarrow> [p]) es)"

definition well_addressed :: "endpoint_config \<Rightarrow> bool" where
  "well_addressed e =
     (case e of
        Serial_Endpoint _ baud _ _ _ \<Rightarrow> rates baud \<noteq> [] \<and> (\<forall>r \<in> set (rates baud). 300 \<le> r \<and> r \<le> 4000000)
      | _ \<Rightarrow> claimed_port e \<noteq> None)"

definition filters_in_range :: "endpoint_filters \<Rightarrow> bool" where
  "filters_in_range f \<longleftrightarrow> (\<forall>m \<in> set (allow_msg_id_out f) \<union> set (block_msg_id_out f) \<union> set (allow_msg_id_in f) \<union> set (block_msg_id_in f).
     m \<le> 65535)"

definition valid_config :: "config \<Rightarrow> bool" where
  "valid_config cfg \<longleftrightarrow>
     (\<forall>e \<in> set (endpoint cfg). well_addressed e \<and> filters_in_range (endpoint_filters_of e)) \<and>
     distinct ((case tcp_port (general cfg) of Some p \<Rightarrow> [(Tcp, p)] | None \<Rightarrow> []) @ claimed_ports (endpoint cfg)) \<and>
     10 \<le> bus_capacity (general cfg) \<and> bus_capacity (general cfg) \<le> 1000000 \<and>
     0 < routing_table_prune_interval_secs (general cfg)"

definition validation_error :: "router_error \<Rightarrow> bool" where
  "validation_error e \<longleftrightarrow> (\<exists>context. e = ConfigValidation context)"

lemma config_error_kind [simp]: "validation_error (config_error msg)"
  by (simp add: validation_error_def config_error_def config_validation_def)

lemma check_rates_ok: "check_rates i rs = Inr () \<longleftrightarrow> (\<forall>r \<in> set rs. 300 \<le> r \<and> r \<le> 4000000)"
  by (induction rs) (auto simp: not_less)

lemma check_rates_err: "check_rates i rs = Inl e \<Longrightarrow> validation_error e"
  by (induction rs) (auto split: if_splits)

lemma check_msg_ids_ok: "check_msg_ids i t ms = Inr () \<longleftrightarrow> (\<forall>m \<in> set ms. m \<le> 65535)"
  by (induction ms) (auto simp: not_less)

lemma check_msg_ids_err: "check_msg_ids i t ms = Inl e \<Longrightarrow> validation_error e"
  by (induction ms) (auto split: if_splits)

lemma guard_ok:
  fixes x :: "'e + unit"
  shows "(case x of Inl e \<Rightarrow> Inl e | Inr _ \<Rightarrow> y) = Inr z \<longleftrightarrow> x = Inr () \<and> y = Inr z"
  by (cases x) auto

lemma validate_filters_ok: "validate_filters i f = Inr () \<longleftrightarrow> filters_in_range f"
  by (simp add: validate_filters_def filters_in_range_def ball_Un guard_ok check_msg_ids_ok conj_assoc)

lemma validate_filters_err: "validate_filters i f = Inl e \<Longrightarrow> validation_error e"
  by (auto simp: validate_filters_def dest: check_msg_ids_err split: sum.splits)

lemma validate_address_cases:
  "validate_address proto label i a ports =
     (case parse_socket_addr a of
        Inl e \<Rightarrow> Inl (config_error (''Invalid address in endpoint '' @ show_nat i @ '': '' @ a @ '' ('' @ e @ '')''))
      | Inr addr \<Rightarrow>
          if (proto, port_of addr) \<in> set ports
          then Inl (config_error (''Duplicate '' @ label @ '' port '' @ show_nat (unat (port_of addr)) @ '' in endpoint '' @ show_nat i))
          else Inr (ports @ [(proto, port_of addr)]))"
  by (simp add: validate_address_def hset_insert_def split: sum.split)

lemma validate_endpoint_ok:
  "validate_endpoint i e ports = Inr ports' \<longleftrightarrow>
     well_addressed e \<and> (case claimed_port e of None \<Rightarrow> ports' = ports | Some p \<Rightarrow> p \<notin> set ports \<and> ports' = ports @ [p])"
  by (cases e) (auto simp: validate_endpoint_def validate_address_cases well_addressed_def claimed_port_def
      check_rates_ok [of i, symmetric] split: sum.splits)

lemma validate_endpoint_err: "validate_endpoint i e ports = Inl err \<Longrightarrow> validation_error err"
  by (cases e) (auto simp: validate_endpoint_def validate_address_cases dest: check_rates_err split: sum.splits if_splits)

lemma validate_endpoints_ok:
  "distinct ports \<Longrightarrow> validate_endpoints i es ports = Inr () \<longleftrightarrow>
     (\<forall>e \<in> set es. well_addressed e \<and> filters_in_range (endpoint_filters_of e)) \<and> distinct (ports @ claimed_ports es)"
proof (induction es arbitrary: i ports)
  case Nil
  then show ?case by (simp add: claimed_ports_def)
next
  case (Cons e es)
  show ?case
  proof (cases "validate_endpoint i e ports")
    case (Inl err)
    then have "\<not> (well_addressed e \<and> (case claimed_port e of None \<Rightarrow> True | Some p \<Rightarrow> p \<notin> set ports))"
      using validate_endpoint_ok [of i e ports ports]
        validate_endpoint_ok [of i e ports "ports @ [the (claimed_port e)]"] by (auto split: option.splits)
    with Inl show ?thesis by (auto simp: claimed_ports_def split: option.splits)
  next
    case (Inr ports')
    then have ok: "well_addressed e"
      "case claimed_port e of None \<Rightarrow> ports' = ports | Some p \<Rightarrow> p \<notin> set ports \<and> ports' = ports @ [p]"
      by (simp_all add: validate_endpoint_ok)
    from ok(2) Cons.prems have d: "distinct ports'" "ports' @ claimed_ports es = ports @ claimed_ports (e # es)"
      by (auto simp: claimed_ports_def split: option.splits)
    show ?thesis
    proof (cases "validate_filters i (endpoint_filters_of e)")
      case (Inl err)
      then have "\<not> filters_in_range (endpoint_filters_of e)" by (simp add: validate_filters_ok [of i, symmetric])
      with Inl Inr show ?thesis by simp
    next
      case (Inr u)
      then have "filters_in_range (endpoint_filters_of e)" by (simp add: validate_filters_ok [of i, symmetric])
      with Inr \<open>validate_endpoint i e ports = Inr ports'\<close> Cons.IH [OF d(1), of "Suc i"] d(2) ok(1) show ?thesis by simp
    qed
  qed
qed

lemma validate_endpoints_err: "validate_endpoints i es ports = Inl err \<Longrightarrow> validation_error err"
  by (induction es arbitrary: i ports)
    (auto dest: validate_endpoint_err validate_filters_err split: sum.splits)

lemma validate_valid: "validate cfg = Inr () \<longleftrightarrow> valid_config cfg"
proof -
  let ?p = "case tcp_port (general cfg) of Some p \<Rightarrow> snd (hset_insert (Tcp, p) []) | None \<Rightarrow> []"
  have p: "?p = (case tcp_port (general cfg) of Some p \<Rightarrow> [(Tcp, p)] | None \<Rightarrow> [])" "distinct ?p"
    by (auto simp: hset_insert_def split: option.splits)
  show ?thesis
    unfolding valid_config_def p(1) [symmetric] using validate_endpoints_ok [OF p(2), of 0 "endpoint cfg"]
    by (auto simp: validate_def Let_def not_less split: sum.splits)
qed

lemma validate_error: "validate cfg = Inl err \<Longrightarrow> validation_error err"
  by (auto simp: validate_def Let_def dest: validate_endpoints_err split: sum.splits if_splits)

section \<open>Properties\<close>

text \<open>
  C13. Validation accepts exactly the well-formed configurations: every address parses, no two
  endpoints of a protocol (counting the implicit TCP server) share a port, baud lists are non-empty
  and within 300 to 4000000, filter message ids fit 16 bits, the bus capacity is between 10 and
  1000000 and the prune interval is positive. Whatever it rejects, it rejects with a validation
  error, never with another kind.
\<close>
theorem validate_exact:
  "case validate cfg of
     Inr _ \<Rightarrow> valid_config cfg
   | Inl err \<Rightarrow> \<not> valid_config cfg \<and> validation_error err"
proof (cases "validate cfg")
  case (Inl err)
  then show ?thesis using validate_valid [of cfg] validate_error [OF Inl] by simp
next
  case (Inr u)
  then show ?thesis using validate_valid [of cfg] by simp
qed

lemma bind_Inr: "(case x of Inl e \<Rightarrow> Inl e | Inr y \<Rightarrow> f y) = Inr z \<longleftrightarrow> (\<exists>y. x = Inr y \<and> f y = Inr z)"
  by (cases x) auto

lemma default_valid: "valid_config default_config"
  by (simp add: valid_config_def default_config_def default_general_def default_bus_capacity_def
      default_routing_table_prune_interval_secs_def claimed_ports_def)

lemma load_valid: "load env path = Inr cfg \<Longrightarrow> valid_config cfg"
  by (auto simp: load_def parse_config_def validate_valid [symmetric] split: sum.splits)

lemma load_dir_valid: "load_dir env dir = Inr cfg \<Longrightarrow> valid_config cfg"
  by (auto simp: load_dir_def validate_valid [symmetric] split: sum.splits)

lemma load_merged_valid:
  assumes "load_merged env file dir = Inr cfg"
  shows "valid_config cfg"
proof (cases dir)
  case None
  with assms show ?thesis by (auto simp: load_merged_def default_valid load_valid split: option.splits sum.splits)
next
  case (Some d)
  from assms obtain base fragments where
    "(case validate (merge base fragments) of Inl e \<Rightarrow> Inl e | Inr _ \<Rightarrow> Inr (merge base fragments)) = Inr cfg"
    unfolding load_merged_def Some option.case bind_Inr by blast
  then have "validate (merge base fragments) = Inr ()" "merge base fragments = cfg"
    by (cases "validate (merge base fragments)"; simp)+
  then show ?thesis by (metis validate_valid)
qed

definition sample_env :: config_env where
  "sample_env = \<lparr>toml_from_str = (\<lambda>s. if s = ''bad'' then Inl ''syntax'' else Inr default_config),
     read_to_string = (\<lambda>path. if path = ''etc/a.toml'' then Inr ''ok'' else Inl ''not found''),
     read_dir = (\<lambda>_. Inr [Inr (Some ''README''), Inr (Some ''a.toml''), Inr None])\<rparr>"

lemma overlay_assoc: "overlay (overlay a b) c = overlay a (overlay b c)"
  by (cases c) (simp_all add: overlay_def)

text \<open>
  Merging is associative, so a stack of fragments means the same however it is grouped: merging
  the file with the already merged directory is merging the fragments onto the file one by one.
\<close>
lemma merge_associative: "merge (merge a b) c = merge a (merge b c)"
  by (simp add: merge_def overlay_assoc)

definition entries :: "string option list \<Rightarrow> (io_error + string option) list" where
  "entries names = map Inr names"

lemma collect_toml_entries:
  "collect_toml dir acc (entries names) =
     Inr (acc @ filter (\<lambda>n. file_extension n = Some ''toml'') (concat (map (\<lambda>n. case n of None \<Rightarrow> [] | Some s \<Rightarrow> [s]) names)))"
  by (induction names arbitrary: acc) (auto simp: entries_def split: option.splits)

text \<open>
  Loading a directory does not depend on the order in which the file system lists it: for every
  permutation of the entries the result is the same, error or configuration, because the names are
  sorted before they are read and merged.
\<close>
lemma load_dir_order:
  assumes "mset names = mset names'"
  shows "load_dir (env\<lparr>read_dir := (\<lambda>_. Inr (entries names))\<rparr>) dir = load_dir (env\<lparr>read_dir := (\<lambda>_. Inr (entries names'))\<rparr>) dir"
proof -
  let ?toml = "\<lambda>names. filter (\<lambda>n. file_extension n = Some ''toml'') (concat (map (\<lambda>n. case n of None \<Rightarrow> [] | Some s \<Rightarrow> [s]) names))"
  have count: "mset (concat (map f xs)) = (\<Sum>x \<in># mset xs. mset (f x))" for f :: "string option \<Rightarrow> string list" and xs
    by (induction xs) auto
  have "mset (?toml names) = mset (?toml names')"
    using assms by (simp only: mset_filter count)
  then have sorted: "sort (?toml names) = sort (?toml names')" by (rule properties_for_sort [symmetric, OF _ sorted_sort, simplified]) 
  have merge: "merge_files (env\<lparr>read_dir := r\<rparr>) dir fs cfg = merge_files env dir fs cfg" for r fs cfg
    by (induction fs arbitrary: cfg) (auto simp: Let_def split: sum.split)
  show ?thesis by (simp add: load_dir_def collect_toml_entries sorted merge split: sum.split)
qed

text \<open>
  A directory without a fragment still replaces the settings of the file that are not optional by
  their defaults, because its empty configuration is merged over the file.
\<close>
lemma empty_directory_resets:
  assumes "load env file = Inr base" "read_dir env dir = Inr (entries names)"
    and "\<forall>name. Some name \<in> set names \<longrightarrow> file_extension name \<noteq> Some ''toml''"
  shows "load_merged env (Some file) (Some dir) = Inr (base\<lparr>general := default_general\<lparr>tcp_port := tcp_port (general base),
    dedup_period_ms := dedup_period_ms (general base), log_dir := log_dir (general base),
    stats_socket_path := stats_socket_path (general base)\<rparr>\<rparr>)"
proof -
  have none: "filter (\<lambda>n. file_extension n = Some ''toml'') (concat (map (\<lambda>n. case n of None \<Rightarrow> [] | Some s \<Rightarrow> [s]) names)) = []"
    using assms(3) by (auto simp: filter_empty_conv split: option.splits)
  have "load_dir env dir = Inr default_config"
    using default_valid by (simp add: load_dir_def assms(2) collect_toml_entries none validate_valid [symmetric])
  moreover have merged: "merge base default_config = base\<lparr>general := default_general\<lparr>tcp_port := tcp_port (general base),
    dedup_period_ms := dedup_period_ms (general base), log_dir := log_dir (general base),
    stats_socket_path := stats_socket_path (general base)\<rparr>\<rparr>"
    by (simp add: merge_def default_config_def default_general_def overlay_def)
  moreover have "validate (merge base default_config) = Inr ()"
    using load_valid [OF assms(1)] unfolding merged validate_valid
    by (simp add: valid_config_def default_general_def default_bus_capacity_def default_routing_table_prune_interval_secs_def)
  ultimately show ?thesis by (simp add: load_merged_def assms(1))
qed

section \<open>Errors of loading\<close>

text \<open>
  What the documentation says of loading, without the loops: the fragments of a directory are the entries whose name
  is valid and ends in \<open>.toml\<close> with something before it, in the order of their names; a list of
  configurations composes to the last one, with, for each optional setting, the last value that is given, and
  with the endpoints of all of them in order.
\<close>

definition toml_name :: "string \<Rightarrow> bool" where
  "toml_name name \<longleftrightarrow> 5 < length name \<and> drop (length name - 5) name = ''.toml''"

definition fragment_names :: "(io_error + string option) list \<Rightarrow> string list" where
  "fragment_names es = sort (filter toml_name (concat (map (\<lambda>e. case e of Inr (Some name) \<Rightarrow> [name] | _ \<Rightarrow> []) es)))"

definition fragment :: "config_env \<Rightarrow> string \<Rightarrow> string \<Rightarrow> bool" where
  "fragment env dir name \<longleftrightarrow> (case read_dir env dir of Inl e \<Rightarrow> False | Inr es \<Rightarrow> name \<in> set (fragment_names es))"

definition last_given :: "'a option list \<Rightarrow> 'a option" where
  "last_given vs = last (None # filter (\<lambda>v. v \<noteq> None) vs)"

definition composed :: "config list \<Rightarrow> config" where
  "composed cs =
     \<lparr>general = (general (last (default_config # cs)))\<lparr>
         tcp_port := last_given (map (tcp_port \<circ> general) cs),
         dedup_period_ms := last_given (map (dedup_period_ms \<circ> general) cs),
         log_dir := last_given (map (log_dir \<circ> general) cs),
         stats_socket_path := last_given (map (stats_socket_path \<circ> general) cs)\<rparr>,
       endpoint = concat (map endpoint cs)\<rparr>"

text \<open>What the parts of a configuration say, before they are validated.\<close>

definition file_config :: "config_env \<Rightarrow> string \<Rightarrow> config option" where
  "file_config env path =
     (case read_to_string env path of Inl _ \<Rightarrow> None
      | Inr content \<Rightarrow> (case toml_from_str env content of Inl _ \<Rightarrow> None | Inr cfg \<Rightarrow> Some cfg))"

definition fragment_configs :: "config_env \<Rightarrow> string \<Rightarrow> config list option" where
  "fragment_configs env dir =
     (case read_dir env dir of Inl _ \<Rightarrow> None
      | Inr es \<Rightarrow> if \<exists>e. Inl e \<in> set es then None
         else those (map (\<lambda>name. file_config env (path_join dir name)) (fragment_names es)))"

definition dir_config :: "config_env \<Rightarrow> string \<Rightarrow> config option" where
  "dir_config env dir = map_option composed (fragment_configs env dir)"

text \<open>A directory without a fragment counts as one fragment that says nothing, all defaults.\<close>

definition assembled :: "config_env \<Rightarrow> string option \<Rightarrow> string option \<Rightarrow> config option" where
  "assembled env file dir =
     Option.bind (case file of None \<Rightarrow> Some default_config | Some path \<Rightarrow> file_config env path)
       (\<lambda>base. case dir of None \<Rightarrow> Some base
          | Some d \<Rightarrow> map_option (\<lambda>cs. composed (base # (if cs = [] then [default_config] else cs))) (fragment_configs env d))"

text \<open>The loops do what it says.\<close>

lemma toml_name_iff: "toml_name name \<longleftrightarrow> (\<exists>stem. stem \<noteq> [] \<and> name = stem @ ''.toml'')"
proof
  assume "toml_name name"
  then have "name = take (length name - 5) name @ ''.toml''" "take (length name - 5) name \<noteq> []"
    unfolding toml_name_def by (metis append_take_drop_id, auto)
  then show "\<exists>stem. stem \<noteq> [] \<and> name = stem @ ''.toml''" by blast
qed (auto simp: toml_name_def)

lemma toml_extension: "file_extension name = Some ''toml'' \<longleftrightarrow> toml_name name"
proof
  let ?dot = "CHR ''.''" and ?r = "rev name"
  have split: "takeWhile (\<lambda>c. c \<noteq> ?dot) ?r @ dropWhile (\<lambda>c. c \<noteq> ?dot) ?r = ?r" by simp
  assume ext: "file_extension name = Some ''toml''"
  then obtain x y zs where d: "dropWhile (\<lambda>c. c \<noteq> ?dot) ?r = x # y # zs" "takeWhile (\<lambda>c. c \<noteq> ?dot) ?r = rev ''toml''"
    by (auto simp: file_extension_def rev_swap split: list.splits)
  have "x = ?dot" using d(1) hd_dropWhile [of "\<lambda>c. c \<noteq> ?dot" ?r] by simp
  with split d have "?r = rev ''toml'' @ ?dot # y # zs" by simp
  then have "name = rev zs @ [y] @ ''.toml''" by (simp add: rev_swap)
  then show "toml_name name" unfolding toml_name_iff by (metis append.assoc snoc_eq_iff_butlast)
next
  assume "toml_name name"
  then obtain stem where "stem \<noteq> []" "name = stem @ ''.toml''" unfolding toml_name_iff by blast
  moreover from this(1) obtain y ys where "rev stem = y # ys" by (cases "rev stem") auto
  ultimately show "file_extension name = Some ''toml''" by (simp add: file_extension_def)
qed

lemma collect_toml_names:
  "collect_toml dir acc es = Inr names \<longleftrightarrow> \<not> (\<exists>e. Inl e \<in> set es) \<and>
     names = acc @ filter toml_name (concat (map (\<lambda>e. case e of Inr (Some name) \<Rightarrow> [name] | _ \<Rightarrow> []) es))"
  by (induction dir acc es rule: collect_toml.induct) (auto simp: toml_extension)

lemma last_given_snoc: "last_given (vs @ [v]) = overlay (last_given vs) v"
  by (auto simp: last_given_def overlay_def)

lemma last_given_Cons: "last_given (v # vs) = overlay v (last_given vs)"
proof (induction vs rule: rev_induct)
  case (snoc x vs)
  then show ?case using last_given_snoc [of "v # vs" x] last_given_snoc [of vs x] by (simp add: overlay_assoc)
qed (simp add: last_given_def overlay_def)

lemma composed_snoc: "composed (cs @ [c]) = merge (composed cs) c"
  by (simp add: composed_def merge_def last_given_snoc Let_def)

lemma composed_Nil: "composed [] = default_config"
  by (simp add: composed_def last_given_def default_config_def default_general_def)

lemma last_given_single: "last_given [v] = v"
  by (cases v) (simp_all add: last_given_def)

lemma composed_single: "composed [c] = c"
  by (cases c) (simp add: composed_def last_given_single)

lemma composed_onto: "cs \<noteq> [] \<Longrightarrow> merge base (composed cs) = composed (base # cs)"
  by (simp add: composed_def merge_def last_given_Cons Let_def)

lemma merge_files_configs:
  "merge_files env dir names m = Inr cfg \<longleftrightarrow>
     (\<exists>cs. those (map (\<lambda>name. file_config env (path_join dir name)) names) = Some cs \<and> cfg = fold (\<lambda>c m. merge m c) cs m)"
proof (induction names arbitrary: m)
  case (Cons name names)
  then show ?case by (auto simp: Let_def file_config_def split: sum.splits)
qed auto

lemma fold_merge_composed: "fold (\<lambda>c m. merge m c) cs (composed cs') = composed (cs' @ cs)"
proof (induction cs arbitrary: cs')
  case (Cons c cs)
  from Cons [of "cs' @ [c]"] show ?case by (simp add: composed_snoc)
qed simp

lemma result_option:
  "(\<And>y. x = Inr y \<longleftrightarrow> v = Some y) \<Longrightarrow> (case x of Inl e \<Rightarrow> None | Inr y \<Rightarrow> Some y) = v"
  by (cases x; cases v) auto

lemma load_dir_merged:
  "(case read_dir env dir of Inl e \<Rightarrow> None | Inr es \<Rightarrow> (case collect_toml dir [] es of Inl e \<Rightarrow> None
      | Inr names \<Rightarrow> (case merge_files env dir (sort names) default_config of Inl e \<Rightarrow> None | Inr cfg \<Rightarrow> Some cfg))) =
   dir_config env dir"
proof (cases "read_dir env dir")
  case (Inr es)
  show ?thesis
  proof (cases "collect_toml dir [] es")
    case (Inl e)
    have "\<exists>e. Inl e \<in> set es"
    proof (rule ccontr)
      assume "\<nexists>e. Inl e \<in> set es"
      with Inl show False by (metis collect_toml_names Inl_Inr_False)
    qed
    with Inl \<open>read_dir env dir = Inr es\<close> show ?thesis by (auto simp: dir_config_def fragment_configs_def)
  next
    case (Inr names)
    then have names: "\<not> (\<exists>e. Inl e \<in> set es)" "sort names = fragment_names es"
      by (simp_all add: collect_toml_names fragment_names_def)
    have "merge_files env dir (fragment_names es) default_config = Inr cfg \<longleftrightarrow> dir_config env dir = Some cfg" for cfg
      using names(1) \<open>read_dir env dir = Inr es\<close> fold_merge_composed [of _ "[]"]
      by (auto simp: merge_files_configs dir_config_def fragment_configs_def composed_Nil)
    then have "(case merge_files env dir (fragment_names es) default_config of Inl e \<Rightarrow> None | Inr cfg \<Rightarrow> Some cfg) = dir_config env dir"
      by (rule result_option)
    with Inr names(2) \<open>read_dir env dir = Inr es\<close> show ?thesis by simp
  qed
qed (simp add: dir_config_def fragment_configs_def)

text \<open>
  When an error of loading is justified: by the file, the directory or the fragment that it names, or by the
  invalid configuration of the file, of the directory or of both.
\<close>

fun blames :: "config_env \<Rightarrow> string option \<Rightarrow> string option \<Rightarrow> router_error \<Rightarrow> bool" where
  "blames env file dir (Filesystem path e) \<longleftrightarrow>
     file = Some path \<and> read_to_string env path = Inl e \<or>
     dir = Some path \<and> (case read_dir env path of Inl e' \<Rightarrow> e' = e | Inr es \<Rightarrow> Inl e \<in> set es) \<or>
     (\<exists>d name. dir = Some d \<and> fragment env d name \<and> path = path_join d name \<and> read_to_string env path = Inl e)"
| "blames env file dir (ConfigParse e) \<longleftrightarrow>
     (\<exists>path content. file = Some path \<and> read_to_string env path = Inr content \<and> toml_from_str env content = Inl e)"
| "blames env file dir (ConfigParseFile path e) \<longleftrightarrow>
     (\<exists>d name content. dir = Some d \<and> fragment env d name \<and> path = path_join d name \<and>
        read_to_string env path = Inr content \<and> toml_from_str env content = Inl e)"
| "blames env file dir (ConfigValidation context) \<longleftrightarrow>
     (\<exists>cfg. validate cfg = Inl (ConfigValidation context) \<and>
        (Option.bind file (file_config env) = Some cfg \<or> Option.bind dir (dir_config env) = Some cfg \<or>
         assembled env file dir = Some cfg))"
| "blames env file dir _ \<longleftrightarrow> False"

lemma blames_invalid:
  assumes "validate cfg = Inl e"
    and "Option.bind file (file_config env) = Some cfg \<or> Option.bind dir (dir_config env) = Some cfg \<or> assembled env file dir = Some cfg"
  shows "blames env file dir e"
  using validate_error [OF assms(1)] assms by (auto simp: validation_error_def)

lemma blames_collect:
  "collect_toml dir acc es = Inl e \<Longrightarrow> \<exists>x. e = Filesystem dir x \<and> Inl x \<in> set es"
  by (induction dir acc es rule: collect_toml.induct) (auto simp: filesystem_error_def split: if_splits)

lemma blames_merge:
  assumes "merge_files env dir names acc = Inl e" "\<forall>name \<in> set names. fragment env dir name"
  shows "blames env file (Some dir) e"
  using assms
proof (induction names arbitrary: acc)
  case (Cons name names)
  then show ?case
    by (auto simp: Let_def filesystem_error_def config_parse_file_def split: sum.splits)
qed simp

lemma blames_load: "load env path = Inl e \<Longrightarrow> blames env (Some path) dir e"
  by (auto simp: load_def parse_config_def filesystem_error_def config_parse_def file_config_def intro: blames_invalid split: sum.splits)

lemma blames_load_dir:
  assumes "load_dir env dir = Inl e"
  shows "blames env file (Some dir) e"
proof (cases "read_dir env dir")
  case (Inl x)
  with assms show ?thesis by (auto simp: load_dir_def filesystem_error_def)
next
  case (Inr es)
  note es = this
  show ?thesis
  proof (cases "collect_toml dir [] es")
    case (Inl x)
    with assms es blames_collect [OF Inl] show ?thesis by (auto simp: load_dir_def)
  next
    case (Inr names)
    have "\<forall>name \<in> set (sort names). fragment env dir name"
      using Inr es by (simp add: fragment_def fragment_names_def collect_toml_names)
    with assms es Inr show ?thesis
      by (auto simp: load_dir_def load_dir_merged [symmetric] intro: blames_invalid blames_merge split: sum.splits)
  qed
qed

lemma load_config: "load env path = Inr cfg \<Longrightarrow> file_config env path = Some cfg"
  by (auto simp: load_def parse_config_def file_config_def split: sum.splits)

lemma load_dir_config: "load_dir env dir = Inr cfg \<Longrightarrow> dir_config env dir = Some cfg"
  by (auto simp: load_dir_def load_dir_merged [symmetric] split: sum.splits)

text \<open>Merging the directory over the file is composing the fragments over it.\<close>

lemma assembled_dir:
  assumes "(case file of None \<Rightarrow> Some default_config | Some path \<Rightarrow> file_config env path) = Some base"
    and "dir_config env d = Some frags"
  shows "assembled env file (Some d) = Some (merge base frags)"
proof -
  from assms(2) obtain cs where "fragment_configs env d = Some cs" "frags = composed cs" by (auto simp: dir_config_def)
  with assms(1) show ?thesis
    using composed_onto [of "[default_config]" base] composed_onto [of cs base]
    by (simp add: assembled_def composed_Nil composed_single)
qed

text \<open>
  C16. Loading is exact and its errors are to the point. What is loaded from a file and a directory is
  valid, and composed of the file and of every entry of the directory that ends in \<open>.toml\<close>, in the order of
  their names: the endpoints of all, for an optional setting the last value that is given, and every
  other setting from the last fragment (from the defaults, if the directory has none; from the file, if no
  directory is named). An error names a file, a
  directory or a fragment that really cannot be read, or cannot be parsed, with the error that this
  gave; or it is the verdict of validation on the configuration of the file, of the directory or of both.
\<close>
theorem load_merged_exact:
  "case load_merged env file dir of
     Inr cfg \<Rightarrow> valid_config cfg \<and> assembled env file dir = Some cfg
   | Inl e \<Rightarrow> blames env file dir e"
proof (cases "case file of Some path \<Rightarrow> load env path | None \<Rightarrow> Inr default_config")
  case (Inl e)
  then obtain path where "file = Some path" "load env path = Inl e" by (auto split: option.splits)
  with Inl show ?thesis by (simp add: load_merged_def blames_load)
next
  case (Inr base)
  have base: "(case file of None \<Rightarrow> Some default_config | Some path \<Rightarrow> file_config env path) = Some base" "valid_config base"
    using Inr by (auto simp: load_config load_valid default_valid split: option.splits)
  show ?thesis
  proof (cases dir)
    case None
    with Inr base show ?thesis by (simp add: load_merged_def assembled_def)
  next
    case (Some d)
    show ?thesis
    proof (cases "load_dir env d")
      case (Inl e)
      with \<open>dir = Some d\<close> Inr \<open>_ = Inr base\<close> blames_load_dir [OF Inl] show ?thesis by (simp add: load_merged_def)
    next
      case (Inr frags)
      have all: "assembled env file dir = Some (merge base frags)"
        using assembled_dir [OF base(1) load_dir_config [OF Inr]] Some by simp
      show ?thesis
      proof (cases "validate (merge base frags)")
        case (Inl e)
        have "blames env file dir e" by (rule blames_invalid [OF Inl]) (simp add: all)
        then show ?thesis using \<open>_ = Inr base\<close> \<open>_ = Inr frags\<close> Some Inl by (simp add: load_merged_def)
      next
        case (Inr u)
        then show ?thesis using \<open>_ = Inr base\<close> \<open>_ = Inr frags\<close> Some all validate_valid [of "merge base frags"]
          by (simp add: load_merged_def)
      qed
    qed
  qed
qed

text \<open>
  The port check compares remote ports as if they were local ones: two TCP endpoints in client
  mode that connect to different hosts on the same port are rejected, whatever else the
  configuration says.
\<close>
lemma clients_share_remote_port:
  assumes "endpoint cfg = xs @ Tcp_Endpoint a Client f g # ys @ Tcp_Endpoint b Client f' g' # zs"
    and "parse_socket_addr a = Inr s" "parse_socket_addr b = Inr s'" "port_of s = port_of s'"
  shows "\<exists>context. validate cfg = Inl (ConfigValidation context)"
proof -
  have "\<not> valid_config cfg"
    using assms by (auto simp: valid_config_def claimed_ports_def claimed_port_def)
  then show ?thesis
    using validate_valid [of cfg] validate_error [of cfg]
    by (cases "validate cfg") (auto simp: validation_error_def)
qed

end
