(* ===== verification/Udp.thy ===== *)
theory Udp
  imports Stream_Loop Config
begin

text \<open>
  The UDP endpoint (\<open>src/endpoints/udp.rs\<close>): address selection, the receive, send and cleanup
  loops over the client table and the broadcast peer that they share. Name resolution and the socket
  calls are parameters (\<open>udp_env\<close>) or outcomes in the script of a run; a run is the order in which
  the three loops take their steps.
\<close>

section \<open>Addresses\<close>

definition client_bind_addr :: "socket_addr \<Rightarrow> string" where
  "client_bind_addr tgt = (if is_ipv4 tgt then ''0.0.0.0:0'' else ''[::]:0'')"

fun is_broadcast_addr :: "socket_addr \<Rightarrow> bool" where
  "is_broadcast_addr (Sock_V4 a b c d p) \<longleftrightarrow> (a = 255 \<and> b = 255 \<and> c = 255 \<and> d = 255) \<or> d = 255"
| "is_broadcast_addr (Sock_V6 segs scope p) \<longleftrightarrow> False"

record udp_env =
  lookup_host :: "string \<Rightarrow> u16 \<Rightarrow> io_error + socket_addr list"
  bind_udp :: "string \<Rightarrow> io_error option"
  set_broadcast :: "io_error option"

record udp_conf =
  conf_target :: "socket_addr option"
  broadcast_mode :: bool
  cleanup_ttl :: duration
  broadcast_timeout :: duration

definition quoted :: "string \<Rightarrow> string" where
  "quoted s = [CHR 0x27] @ s @ [CHR 0x27]"

text \<open>The address to bind and the target, by mode.\<close>

definition udp_addresses :: "udp_env \<Rightarrow> string \<Rightarrow> endpoint_mode \<Rightarrow> router_error + (string \<times> socket_addr option)" where
  "udp_addresses env address mode =
     (if mode = Server then Inr (address, None)
      else case to_socket_addrs (lookup_host env) address of
        Inl e \<Rightarrow> Inl (config_error (''Invalid remote address '' @ quoted address @ '': '' @ e))
      | Inr [] \<Rightarrow> Inl (config_error (''Could not resolve remote address '' @ quoted address))
      | Inr (tgt # _) \<Rightarrow> Inr (client_bind_addr tgt, Some tgt))"

definition udp_setup :: "udp_env \<Rightarrow> string \<Rightarrow> endpoint_mode \<Rightarrow> nat \<Rightarrow> nat \<Rightarrow> router_error + udp_conf" where
  "udp_setup env address mode cleanup_ttl_secs broadcast_timeout_secs =
     (case udp_addresses env address mode of
        Inl e \<Rightarrow> Inl e
      | Inr (bind_addr, tgt) \<Rightarrow>
          (case bind_udp env bind_addr of
             Some e \<Rightarrow> Inl (network_error bind_addr e)
           | None \<Rightarrow>
               let bcast = (case tgt of None \<Rightarrow> False | Some a \<Rightarrow> is_broadcast_addr a);
                   cfg = \<lparr>conf_target = tgt, broadcast_mode = bcast, cleanup_ttl = from_secs cleanup_ttl_secs,
                     broadcast_timeout = from_secs broadcast_timeout_secs\<rparr>
               in if bcast then (case set_broadcast env of Some e \<Rightarrow> Inl (network_error address e) | None \<Rightarrow> Inr cfg)
                  else Inr cfg))"

section \<open>The loops\<close>

text \<open>\<open>attempts\<close> logs the calls of \<open>send_to\<close> with their outcomes.\<close>

record udp_state =
  clients :: "(socket_addr, instant) hmap"
  peer :: "(socket_addr \<times> instant) option"
  attempts :: "(socket_addr \<times> byte list \<times> io_error option) list"

definition udp_new :: udp_state where
  "udp_new = \<lparr>clients = [], peer = None, attempts = []\<rparr>"

text \<open>A datagram holds at most one frame: version 2 is tried first, both from the start.\<close>

definition datagram_frame :: "mavlink_lib \<Rightarrow> byte list \<Rightarrow> mavlink_frame option" where
  "datagram_frame L buf =
     (let res = (case read_v2_msg L buf of
            Inr (h, m, n) \<Rightarrow> Inr (h, m, V2, n)
          | Inl _ \<Rightarrow> (case read_v1_msg L buf of Inr (h, m, n) \<Rightarrow> Inr (h, m, V1, n) | Inl e \<Rightarrow> Inl e))
      in case res of
        Inr (h, m, v, packet_len) \<Rightarrow>
          Some \<lparr>frame_header = h, frame_message = m, frame_version = v, raw_bytes = take packet_len buf\<rparr>
      | Inl _ \<Rightarrow> None)"

definition note_peer :: "udp_conf \<Rightarrow> socket_addr \<Rightarrow> instant \<Rightarrow> udp_state \<Rightarrow> udp_state" where
  "note_peer cfg addr now u =
     (if broadcast_mode cfg
      then case conf_target cfg of
          None \<Rightarrow> u
        | Some bcast_addr \<Rightarrow>
            if addr \<noteq> bcast_addr \<and> \<not> is_broadcast_addr addr then u\<lparr>peer := Some (addr, now)\<rparr> else u
      else u)"

definition udp_receive :: "mavlink_lib \<Rightarrow> udp_conf \<Rightarrow> endpoint_core \<Rightarrow> instant \<Rightarrow> instant \<Rightarrow> socket_addr \<Rightarrow> byte list \<Rightarrow>
    ingress_env \<Rightarrow> udp_state \<times> hub \<Rightarrow> udp_state \<times> hub" where
  "udp_receive L cfg core seen noted addr buf env = (\<lambda>(u, h).
     let u' = note_peer cfg addr noted (u\<lparr>clients := hmap_insert addr seen (clients u)\<rparr>)
     in case datagram_frame L buf of
          Some frame \<Rightarrow> (u', handle_incoming_frame L env core frame h)
        | None \<Rightarrow> (u', h))"

definition count_io_error :: "endpoint_core \<Rightarrow> hub \<Rightarrow> hub" where
  "count_io_error core h = edit_stats (core_id core) (\<lambda>st. st\<lparr>errors := errors st + 1\<rparr>) h"

definition send_to :: "endpoint_core \<Rightarrow> byte list \<Rightarrow> socket_addr \<Rightarrow> io_error option \<Rightarrow> udp_state \<times> hub \<Rightarrow> udp_state \<times> hub" where
  "send_to core packet addr result = (\<lambda>(u, h).
     (u\<lparr>attempts := attempts u @ [(addr, packet, result)]\<rparr>,
      case result of
        None \<Rightarrow> edit_stats (core_id core) (record_outgoing (of_nat (length packet))) h
      | Some e \<Rightarrow> count_io_error core h))"

text \<open>The outcomes of a round of sends; those that the script does not give are successes.\<close>

fun send_all :: "endpoint_core \<Rightarrow> byte list \<Rightarrow> socket_addr list \<Rightarrow> io_error option list \<Rightarrow> udp_state \<times> hub \<Rightarrow> udp_state \<times> hub" where
  "send_all core packet [] results s = s"
| "send_all core packet (addr # addrs) [] s = send_all core packet addrs [] (send_to core packet addr None s)"
| "send_all core packet (addr # addrs) (r # results) s =
     send_all core packet addrs results (send_to core packet addr r s)"

definition udp_targets :: "udp_conf \<Rightarrow> instant \<Rightarrow> udp_state \<Rightarrow> socket_addr list" where
  "udp_targets cfg now u =
     (case conf_target cfg of
        Some tgt \<Rightarrow>
          if broadcast_mode cfg
          then [case peer u of
              Some (addr, at) \<Rightarrow> if duration_since now at < broadcast_timeout cfg then addr else tgt
            | None \<Rightarrow> tgt]
          else [tgt]
      | None \<Rightarrow> map fst (clients u))"

definition udp_send :: "udp_conf \<Rightarrow> endpoint_core \<Rightarrow> instant \<Rightarrow> routed_message \<Rightarrow> io_error option list \<Rightarrow> udp_state \<times> hub \<Rightarrow> udp_state \<times> hub" where
  "udp_send cfg core now msg results = (\<lambda>(u, h).
     if \<not> check_outgoing core (hub_table h) msg then (u, h)
     else send_all core (serialized_bytes msg) (udp_targets cfg now u) results (u, h))"

definition udp_cleanup :: "instant \<Rightarrow> duration \<Rightarrow> udp_state \<Rightarrow> udp_state" where
  "udp_cleanup now ttl u = u\<lparr>clients := hmap_retain (\<lambda>_ at. duration_since now at < ttl) (clients u)\<rparr>"

text \<open>
  The steps of the three loops. A datagram carries the readings of the clock for the client table
  and for the peer, a message the reading at which the peer's age is taken.
\<close>

datatype udp_event =
    Datagram instant instant socket_addr "byte list" ingress_env
  | Recv_Failed
  | Bus_Msg instant routed_message "io_error option list"
  | Bus_Lagged u64
  | Cleanup instant

fun udp_step :: "mavlink_lib \<Rightarrow> udp_conf \<Rightarrow> endpoint_core \<Rightarrow> udp_event \<Rightarrow> udp_state \<times> hub \<Rightarrow> udp_state \<times> hub" where
  "udp_step L cfg core (Datagram seen noted addr buf env) s = udp_receive L cfg core seen noted addr buf env s"
| "udp_step L cfg core Recv_Failed (u, h) = (u, count_io_error core h)"
| "udp_step L cfg core (Bus_Msg now msg results) s = udp_send cfg core now msg results s"
| "udp_step L cfg core (Bus_Lagged n) (u, h) =
     (u, edit_stats (core_id core) (\<lambda>st. st\<lparr>bus_lagged := bus_lagged st + n\<rparr>) h)"
| "udp_step L cfg core (Cleanup now) (u, h) = (udp_cleanup now (cleanup_ttl cfg) u, h)"

definition udp_run :: "mavlink_lib \<Rightarrow> udp_conf \<Rightarrow> endpoint_core \<Rightarrow> udp_event list \<Rightarrow> hub \<Rightarrow> udp_state \<times> hub" where
  "udp_run L cfg core evs h = fold (udp_step L cfg core) evs (udp_new, h)"

lemma datagram_frame_at: "datagram_frame L buf = frame_at L buf"
  by (auto simp: datagram_frame_def frame_at_def split: sum.split prod.split)

text \<open>
  What follows the first frame of a datagram is ignored: the endpoint behaves as if the datagram ended there.
\<close>

lemma datagram_rest_ignored:
  assumes "lib_ok L" "reader_sequential (read_v2_msg L)" "datagram_frame L buf = Some frame" "frame_version frame = V2"
  shows "datagram_frame L (buf @ rest) = Some frame"
proof -
  obtain h m n where r: "read_v2_msg L buf = Inr (h, m, n)"
    using assms(3,4) by (auto simp: datagram_frame_def split: sum.splits)
  then have "read_v2_msg L (buf @ rest) = Inr (h, m, n)" "n \<le> length buf"
    using assms(2) lib_okD(3) [OF assms(1) r] by (auto simp: reader_sequential_def eof_result_def)
  with r assms(3) show ?thesis by (simp add: datagram_frame_def)
qed

section \<open>Steps\<close>

lemma handle_counters:
  "msgs_out (hub_stats (handle_incoming_frame L env core frame h) ep) = msgs_out (hub_stats h ep)"
  "bytes_out (hub_stats (handle_incoming_frame L env core frame h) ep) = bytes_out (hub_stats h ep)"
  "errors (hub_stats (handle_incoming_frame L env core frame h) ep) = errors (hub_stats h ep)"
  by (cases rule: handle_cases [of L core frame _ env h];
      simp add: handle_simps publish_frame_def bump_in_def Let_def)+

lemma note_peer_keeps [simp]:
  "clients (note_peer cfg addr now u) = clients u" "attempts (note_peer cfg addr now u) = attempts u"
  by (simp_all add: note_peer_def split: option.split)

lemma send_to_keeps [simp]:
  "clients (fst (send_to core packet addr r s)) = clients (fst s)" "peer (fst (send_to core packet addr r s)) = peer (fst s)"
  by (simp_all add: send_to_def split_beta)

lemma send_all_keeps [simp]:
  "clients (fst (send_all core packet addrs rs s)) = clients (fst s)" "peer (fst (send_all core packet addrs rs s)) = peer (fst s)"
  by (induction core packet addrs rs s rule: send_all.induct) simp_all

lemma udp_send_keeps [simp]:
  "clients (fst (udp_send cfg core now msg rs s)) = clients (fst s)" "peer (fst (udp_send cfg core now msg rs s)) = peer (fst s)"
  by (simp_all add: udp_send_def split_beta)

lemma udp_receive_table [simp]:
  "fst (udp_receive L cfg core seen noted addr buf env s) =
     note_peer cfg addr noted ((fst s)\<lparr>clients := hmap_insert addr seen (clients (fst s))\<rparr>)"
  by (simp add: udp_receive_def split_beta Let_def split: option.split)

lemma udp_run_snoc: "udp_run L cfg core (evs @ [ev]) h = udp_step L cfg core ev (udp_run L cfg core evs h)"
  by (simp add: udp_run_def)

text \<open>One attempt for each address, in order, with the outcomes of the script.\<close>

fun outcomes :: "nat \<Rightarrow> io_error option list \<Rightarrow> io_error option list" where
  "outcomes 0 rs = []"
| "outcomes (Suc n) rs = (case rs of [] \<Rightarrow> None # outcomes n [] | r # rs' \<Rightarrow> r # outcomes n rs')"

lemma attempts_send_to [simp]: "attempts (fst (send_to core packet addr r s)) = attempts (fst s) @ [(addr, packet, r)]"
  by (simp add: send_to_def split_beta)

lemma attempts_send_all:
  "attempts (fst (send_all core packet addrs rs s)) =
     attempts (fst s) @ map (\<lambda>(addr, r). (addr, packet, r)) (zip addrs (outcomes (length addrs) rs))"
  by (induction core packet addrs rs s rule: send_all.induct) simp_all

lemma attempts_udp_send:
  "attempts (fst (udp_send cfg core now msg rs (u, h))) = attempts u @
     (if check_outgoing core (hub_table h) msg
      then map (\<lambda>(addr, r). (addr, serialized_bytes msg, r))
        (zip (udp_targets cfg now u) (outcomes (length (udp_targets cfg now u)) rs))
      else [])"
  by (simp add: udp_send_def attempts_send_all)

section \<open>Client mode\<close>

text \<open>The unicast senders that a broadcast endpoint has heard, oldest first.\<close>

fun unicast_heard :: "socket_addr \<Rightarrow> udp_event \<Rightarrow> (socket_addr \<times> instant) list" where
  "unicast_heard bcast (Datagram seen noted addr buf env) =
     (if addr \<noteq> bcast \<and> \<not> is_broadcast_addr addr then [(addr, noted)] else [])"
| "unicast_heard bcast _ = []"

definition peers_heard :: "socket_addr \<Rightarrow> udp_event list \<Rightarrow> (socket_addr \<times> instant) list" where
  "peers_heard bcast evs = concat (map (unicast_heard bcast) evs)"

lemma peer_udp_run:
  assumes "conf_target cfg = Some tgt" "broadcast_mode cfg"
  shows "peer (fst (udp_run L cfg core evs h)) =
    (if peers_heard tgt evs = [] then None else Some (last (peers_heard tgt evs)))"
proof (induction evs rule: rev_induct)
  case Nil
  then show ?case by (simp add: udp_run_def udp_new_def peers_heard_def)
next
  case (snoc ev evs)
  obtain u h' where s: "udp_run L cfg core evs h = (u, h')" by force
  show ?case using snoc assms
    by (cases ev) (auto simp: udp_run_snoc s peers_heard_def note_peer_def udp_cleanup_def last_append)
qed

lemma udp_setup_cases:
  assumes "udp_setup env address mode ttl timeout = Inr cfg"
  shows "cleanup_ttl cfg = from_secs ttl \<and> broadcast_timeout cfg = from_secs timeout \<and>
    (if mode = Server then conf_target cfg = None \<and> \<not> broadcast_mode cfg
     else \<exists>tgt rest. to_socket_addrs (lookup_host env) address = Inr (tgt # rest) \<and> conf_target cfg = Some tgt \<and>
       broadcast_mode cfg = is_broadcast_addr tgt)"
  using assms
  by (auto simp: udp_setup_def udp_addresses_def Let_def split: sum.splits option.splits list.splits if_splits)

text \<open>
  A configuration that passed validation has numeric addresses only, for which nothing is looked
  up: both errors of the resolution are out of reach.
\<close>

lemma valid_client_address:
  assumes "well_addressed (Udp_Endpoint address mode t f g)"
  obtains tgt where "parse_socket_addr address = Inr tgt"
    "udp_addresses env address Client = Inr (client_bind_addr tgt, Some tgt)"
  using assms that
  by (auto simp: well_addressed_def claimed_port_def udp_addresses_def to_socket_addrs_literal split: sum.splits)

text \<open>
  C32. Where a UDP client sends. A message that the egress check lets through goes out in one
  datagram to the configured address, or, for a name, to the first address that it resolves to; or,
  when that is a broadcast address, to the unicast sender heard last, as long as it was heard less
  than the timeout ago. Nothing else that happened on the endpoint matters.
\<close>

theorem client_destination:
  assumes "udp_setup env address Client ttl timeout = Inr cfg" "udp_run L cfg core evs h0 = (u, h)"
  shows "\<exists>tgt. (case parse_socket_addr address of
        Inr a \<Rightarrow> tgt = a
      | Inl _ \<Rightarrow> \<exists>rest. to_socket_addrs (lookup_host env) address = Inr (tgt # rest)) \<and>
    (let heard = peers_heard tgt evs;
         dest = (if is_broadcast_addr tgt \<and> heard \<noteq> [] \<and> duration_since now (snd (last heard)) < from_secs timeout
           then fst (last heard) else tgt)
     in attempts (fst (udp_step L cfg core (Bus_Msg now msg [result]) (u, h))) = attempts u @
       (if check_outgoing core (hub_table h) msg then [(dest, serialized_bytes msg, result)] else []))"
proof -
  from udp_setup_cases [OF assms(1)] obtain tgt rest where t: "to_socket_addrs (lookup_host env) address = Inr (tgt # rest)"
    "conf_target cfg = Some tgt" "broadcast_mode cfg = is_broadcast_addr tgt" "broadcast_timeout cfg = from_secs timeout"
    by auto
  have "case parse_socket_addr address of
      Inr a \<Rightarrow> tgt = a | Inl _ \<Rightarrow> \<exists>rest. to_socket_addrs (lookup_host env) address = Inr (tgt # rest)"
    using t(1) by (auto simp: to_socket_addrs_literal split: sum.split)
  moreover have "let heard = peers_heard tgt evs;
         dest = (if is_broadcast_addr tgt \<and> heard \<noteq> [] \<and> duration_since now (snd (last heard)) < from_secs timeout
           then fst (last heard) else tgt)
     in attempts (fst (udp_step L cfg core (Bus_Msg now msg [result]) (u, h))) = attempts u @
       (if check_outgoing core (hub_table h) msg then [(dest, serialized_bytes msg, result)] else [])"
  proof (cases "is_broadcast_addr tgt")
    case True
    with peer_udp_run [OF t(2), of L core evs h0] t(3) assms(2)
    have "peer u = (if peers_heard tgt evs = [] then None else Some (last (peers_heard tgt evs)))" by simp
    with True t show ?thesis
      by (cases "last (peers_heard tgt evs)") (simp add: attempts_udp_send udp_targets_def Let_def)
  next
    case False
    with t show ?thesis by (simp add: attempts_udp_send udp_targets_def)
  qed
  ultimately show ?thesis by blast
qed

section \<open>Server mode\<close>

interpretation udp_ttl: ttl_table "\<lambda>u. hmap_get (clients u)" "\<lambda>now ttl u. udp_cleanup now ttl u" "\<lambda>a ttl. a < ttl" "\<lambda>u. hmap_ok (clients u)"
  by unfold_locales (auto simp: udp_cleanup_def hmap_get_retain split: option.splits)

text \<open>When an address was heard last, and the readings of the clock that the client table sees.\<close>

fun heard_at :: "socket_addr \<Rightarrow> udp_event \<Rightarrow> instant list" where
  "heard_at a (Datagram seen noted addr buf env) = (if addr = a then [seen] else [])"
| "heard_at a _ = []"

fun reading :: "udp_event \<Rightarrow> instant list" where
  "reading (Datagram seen noted addr buf env) = [seen]"
| "reading (Cleanup now) = [now]"
| "reading _ = []"

definition last_heard :: "udp_event list \<Rightarrow> socket_addr \<Rightarrow> instant option" where
  "last_heard evs a = (let ts = concat (map (heard_at a) evs) in if ts = [] then None else Some (last ts))"

definition readings :: "udp_event list \<Rightarrow> instant list" where
  "readings evs = concat (map reading evs)"

lemma last_heard_snoc:
  "last_heard (evs @ [ev]) a = (case heard_at a ev of [] \<Rightarrow> last_heard evs a | t # ts \<Rightarrow> Some (last (t # ts)))"
  by (auto simp: last_heard_def split: list.split)

lemma clients_ok: "hmap_ok (clients (fst (udp_run L cfg core evs h)))"
proof (induction evs rule: rev_induct)
  case Nil
  then show ?case by (simp add: udp_run_def udp_new_def)
next
  case (snoc ev evs)
  obtain u h' where s: "udp_run L cfg core evs h = (u, h')" by force
  show ?case using snoc by (cases ev) (simp_all add: udp_run_snoc s udp_cleanup_def)
qed

lemma clients_after_cleanup:
  assumes "sorted (readings evs @ [later])"
  shows "hmap_get (clients (udp_cleanup later (cleanup_ttl cfg) (fst (udp_run L cfg core evs h)))) a =
    (case last_heard evs a of None \<Rightarrow> None | Some t \<Rightarrow> if later - t < cleanup_ttl cfg then Some t else None)"
  using assms
proof (induction evs rule: rev_induct)
  case Nil
  then show ?case by (simp add: udp_run_def udp_new_def last_heard_def udp_cleanup_def hmap_retain_def)
next
  case (snoc ev evs)
  obtain u h' where s: "udp_run L cfg core evs h = (u, h')" by force
  have ok: "hmap_ok (clients u)" using clients_ok [of L cfg core evs h] s by simp
  have IH: "hmap_get (clients (udp_cleanup later (cleanup_ttl cfg) u)) a =
      (case last_heard evs a of None \<Rightarrow> None | Some t \<Rightarrow> if later - t < cleanup_ttl cfg then Some t else None)"
    using snoc s by (auto simp: readings_def sorted_append)
  show ?case
  proof (cases ev)
    case (Datagram seen noted addr buf env)
    show ?thesis
    proof (cases "addr = a")
      case True
      then show ?thesis using Datagram ok
        by (simp add: udp_run_snoc s udp_ttl.stamp_expire last_heard_snoc duration_since_def)
    next
      case False
      then show ?thesis using Datagram ok IH by (simp add: udp_run_snoc s udp_ttl.stamp_expire last_heard_snoc)
    qed
  next
    case (Cleanup now)
    then have "now \<le> later" using snoc.prems by (simp add: readings_def sorted_append)
    from udp_ttl.expire_absorb [OF ok this, of "cleanup_ttl cfg"] show ?thesis
      using Cleanup IH by (simp add: udp_run_snoc s last_heard_snoc fun_eq_iff)
  qed (use IH ok in \<open>simp_all add: udp_run_snoc s last_heard_snoc udp_ttl.stamp_expire\<close>)
qed

text \<open>
  C33. Whom a UDP server sends to. While the clock does not run backwards, a cleanup leaves exactly
  the addresses that were heard less than the time to live ago, whatever earlier cleanups
  removed; and a message that the egress check lets through then goes out once to each of them.
\<close>

theorem server_destinations:
  assumes "udp_setup env address Server ttl timeout = Inr cfg" "sorted (readings evs @ [now])"
    and "udp_run L cfg core (evs @ [Cleanup now]) h0 = (u, h)"
  shows "\<exists>dests. distinct dests \<and>
    set dests = {a. \<exists>t. last_heard evs a = Some t \<and> now - t < from_secs ttl} \<and>
    attempts (fst (udp_step L cfg core (Bus_Msg at msg results) (u, h))) = attempts u @
      (if check_outgoing core (hub_table h) msg
       then map (\<lambda>(a, r). (a, serialized_bytes msg, r)) (zip dests (outcomes (length dests) results)) else [])"
proof -
  have cfg: "conf_target cfg = None" "cleanup_ttl cfg = from_secs ttl"
    using udp_setup_cases [OF assms(1)] by auto
  have ok: "hmap_ok (clients u)" using clients_ok [of L cfg core "evs @ [Cleanup now]" h0] assms(3) by simp
  obtain v h' where s: "udp_run L cfg core evs h0 = (v, h')" by force
  have "hmap_get (clients u) a = (case last_heard evs a of None \<Rightarrow> None | Some t \<Rightarrow> if now - t < from_secs ttl then Some t else None)" for a
    using clients_after_cleanup [OF assms(2), of cfg L core h0 a, unfolded cfg(2)] assms(3) s cfg(2)
    by (auto simp: udp_run_snoc)
  then have "a \<in> fst ` set (clients u) \<longleftrightarrow> (\<exists>t. last_heard evs a = Some t \<and> now - t < from_secs ttl)" for a
    by (auto simp: dom_map_of_conv_image_fst [symmetric] dom_def split: option.splits)
  with ok cfg show ?thesis
    by (intro exI [of _ "map fst (clients u)"]) (auto simp: hmap_ok_def attempts_udp_send udp_targets_def)
qed

section \<open>Accounting\<close>

definition delivered :: "udp_state \<Rightarrow> byte list list" where
  "delivered u = map (\<lambda>(a, p, r). p) (filter (\<lambda>(a, p, r). r = None) (attempts u))"

definition undelivered :: "udp_state \<Rightarrow> nat" where
  "undelivered u = length (filter (\<lambda>(a, p, r). r \<noteq> None) (attempts u))"

definition receive_failures :: "udp_event list \<Rightarrow> nat" where
  "receive_failures evs = length (filter (\<lambda>ev. ev = Recv_Failed) evs)"

definition udp_books :: "endpoint_core \<Rightarrow> nat \<Rightarrow> udp_state \<times> hub \<Rightarrow> bool" where
  "udp_books core fails = (\<lambda>(u, h). let st = hub_stats h (core_id core) in
     msgs_out st = of_nat (length (delivered u)) \<and> bytes_out st = of_nat (length (concat (delivered u))) \<and>
     errors st = of_nat (undelivered u + fails))"

lemma books_send_to: "udp_books core n s \<Longrightarrow> udp_books core n (send_to core packet addr r s)"
  by (cases r) (auto simp: udp_books_def send_to_def delivered_def undelivered_def count_io_error_def
      record_outgoing_def Let_def split_beta)

lemma books_send_all: "udp_books core n s \<Longrightarrow> udp_books core n (send_all core packet addrs rs s)"
  by (induction core packet addrs rs s rule: send_all.induct) (simp_all add: books_send_to)

lemma books_cong:
  assumes "udp_books core n (u, h)" "attempts u' = attempts u"
    and "msgs_out (hub_stats h' (core_id core)) = msgs_out (hub_stats h (core_id core))"
      "bytes_out (hub_stats h' (core_id core)) = bytes_out (hub_stats h (core_id core))"
      "errors (hub_stats h' (core_id core)) = errors (hub_stats h (core_id core))"
  shows "udp_books core n (u', h')"
  using assms by (simp add: udp_books_def delivered_def undelivered_def Let_def)

lemma books_step:
  assumes "udp_books core n (u, h)"
  shows "udp_books core (n + receive_failures [ev]) (udp_step L cfg core ev (u, h))"
proof (cases ev)
  case (Datagram seen noted addr buf env)
  have "udp_books core n (udp_receive L cfg core seen noted addr buf env (u, h))"
    unfolding udp_receive_def split_beta Let_def
    by (cases "datagram_frame L buf") (auto intro!: books_cong [OF assms] simp: handle_counters)
  then show ?thesis by (simp add: Datagram receive_failures_def)
next
  case Recv_Failed
  with assms show ?thesis
    by (simp add: udp_books_def receive_failures_def count_io_error_def Let_def)
next
  case (Bus_Msg now msg results)
  with assms show ?thesis by (simp add: udp_send_def receive_failures_def books_send_all)
next
  case (Bus_Lagged k)
  then show ?thesis by (auto simp: receive_failures_def intro!: books_cong [OF assms])
next
  case (Cleanup now)
  then show ?thesis by (auto simp: receive_failures_def udp_cleanup_def intro!: books_cong [OF assms])
qed

lemma books_run:
  assumes "udp_books core 0 (udp_new, h0)"
  shows "udp_books core (receive_failures evs) (udp_run L cfg core evs h0)"
proof (induction evs rule: rev_induct)
  case Nil
  then show ?case using assms by (simp add: udp_run_def receive_failures_def)
next
  case (snoc ev evs)
  obtain u h where s: "udp_run L cfg core evs h0 = (u, h)" by force
  have "receive_failures (evs @ [ev]) = receive_failures evs + receive_failures [ev]"
    by (simp add: receive_failures_def)
  with books_step [of core "receive_failures evs" u h ev L cfg] snoc s show ?case by (simp add: udp_run_snoc)
qed

lemma attempts_run:
  "(a, p, r) \<in> set (attempts (fst (udp_run L cfg core evs h))) \<Longrightarrow>
    \<exists>now msg rs. Bus_Msg now msg rs \<in> set evs \<and> p = serialized_bytes msg"
proof (induction evs rule: rev_induct)
  case Nil
  then show ?case by (simp add: udp_run_def udp_new_def)
next
  case (snoc ev evs)
  obtain u h' where s: "udp_run L cfg core evs h = (u, h')" by force
  show ?case
  proof (cases "(a, p, r) \<in> set (attempts u)")
    case True
    with snoc.IH s obtain now msg rs where "Bus_Msg now msg rs \<in> set evs" "p = serialized_bytes msg" by auto
    then show ?thesis by auto
  next
    case False
    with snoc.prems show ?thesis
      by (cases ev) (auto simp: udp_run_snoc s attempts_udp_send udp_cleanup_def split: if_splits)
  qed
qed

text \<open>
  C34. The egress counters of a UDP endpoint are exact and its datagrams are faithful. After any
  run the message and byte counts are, modulo \<open>2^64\<close>, those of the datagrams that the socket
  took, the error count is that of the sends and receives that failed, and every datagram is the
  unchanged bytes of a message from the bus.
\<close>

theorem udp_accounting:
  assumes "hub_stats h0 (core_id core) = endpoint_stats_new" "udp_run L cfg core evs h0 = (u, h)"
  shows "(let st = hub_stats h (core_id core) in
      msgs_out st = of_nat (length (delivered u)) \<and> bytes_out st = of_nat (length (concat (delivered u))) \<and>
      errors st = of_nat (undelivered u + receive_failures evs)) \<and>
    (\<forall>(a, p, r) \<in> set (attempts u). \<exists>now msg rs. Bus_Msg now msg rs \<in> set evs \<and> p = serialized_bytes msg)"
proof
  have "udp_books core 0 (udp_new, h0)"
    using assms(1) by (simp add: udp_books_def udp_new_def delivered_def undelivered_def endpoint_stats_new_def Let_def)
  from books_run [OF this, of evs L cfg] assms(2) show "let st = hub_stats h (core_id core) in
      msgs_out st = of_nat (length (delivered u)) \<and> bytes_out st = of_nat (length (concat (delivered u))) \<and>
      errors st = of_nat (undelivered u + receive_failures evs)" by (simp add: udp_books_def)
  show "\<forall>(a, p, r) \<in> set (attempts u). \<exists>now msg rs. Bus_Msg now msg rs \<in> set evs \<and> p = serialized_bytes msg"
    using attempts_run [of _ _ _ L cfg core evs h0] assms(2) by auto
qed

section \<open>Examples\<close>

definition sample_udp_env :: udp_env where
  "sample_udp_env = \<lparr>lookup_host = (\<lambda>_ _. Inl ''unknown host''), bind_udp = (\<lambda>_. None), set_broadcast = None\<rparr>"

definition sample_hub :: hub where
  "sample_hub = hub_new (from_millis 500) routing_table_new"

definition peer_a :: socket_addr where
  "peer_a = Sock_V4 192 168 1 7 14550"

definition sample_datagram :: "instant \<Rightarrow> udp_event" where
  "sample_datagram t = Datagram t t peer_a [] Hub.sample_env"

lemma sample_address: "parse_socket_addr ''192.168.1.255:14550'' = Inr (Sock_V4 192 168 1 255 14550)"
  by (simp add: parse_addr_eval)

lemma sample_setup:
  "udp_setup sample_udp_env ''192.168.1.255:14550'' Client 300 5 = Inr \<lparr>conf_target = Some (Sock_V4 192 168 1 255 14550),
     broadcast_mode = True, cleanup_ttl = from_secs 300, broadcast_timeout = from_secs 5\<rparr>"
  "udp_setup sample_udp_env ''0.0.0.0:14550'' Server 300 5 = Inr \<lparr>conf_target = None,
     broadcast_mode = False, cleanup_ttl = from_secs 300, broadcast_timeout = from_secs 5\<rparr>"
  by (simp_all add: udp_setup_def udp_addresses_def sample_udp_env_def to_socket_addrs_literal [OF sample_address] Let_def)

theorem client_destination_witness:
  "\<exists>cfg u h. udp_setup sample_udp_env ''192.168.1.255:14550'' Client 300 5 = Inr cfg \<and>
    udp_run sample_lib cfg (sample_core 0) [sample_datagram 7] sample_hub = (u, h) \<and>
    attempts (fst (udp_step sample_lib cfg (sample_core 0) (Bus_Msg 9 sample_message [None]) (u, h))) =
      attempts u @ [(peer_a, serialized_bytes sample_message, None)]"
proof -
  define cfg where "cfg = \<lparr>conf_target = Some (Sock_V4 192 168 1 255 14550),
     broadcast_mode = True, cleanup_ttl = from_secs 300, broadcast_timeout = from_secs 5\<rparr>"
  have c: "udp_setup sample_udp_env ''192.168.1.255:14550'' Client 300 5 = Inr cfg" by (simp add: sample_setup cfg_def)
  obtain u h where r: "udp_run sample_lib cfg (sample_core 0) [sample_datagram 7] sample_hub = (u, h)" by force
  from client_destination [OF c r, of 9 sample_message None] sample_check [of "hub_table h"]
  have "attempts (fst (udp_step sample_lib cfg (sample_core 0) (Bus_Msg 9 sample_message [None]) (u, h))) =
      attempts u @ [(peer_a, serialized_bytes sample_message, None)]"
    by (simp add: sample_address sample_datagram_def peers_heard_def peer_a_def duration_since_def time_simps Let_def)
  with c r show ?thesis by blast
qed

theorem server_destinations_witness:
  "\<exists>cfg u h. udp_setup sample_udp_env ''0.0.0.0:14550'' Server 300 5 = Inr cfg \<and>
    udp_run sample_lib cfg (sample_core 0) [sample_datagram 7, Cleanup 20] sample_hub = (u, h) \<and>
    attempts (fst (udp_step sample_lib cfg (sample_core 0) (Bus_Msg 30 sample_message [None]) (u, h))) =
      attempts u @ [(peer_a, serialized_bytes sample_message, None)]"
proof -
  define cfg where "cfg = \<lparr>conf_target = None,
     broadcast_mode = False, cleanup_ttl = from_secs 300, broadcast_timeout = from_secs 5\<rparr>"
  have c: "udp_setup sample_udp_env ''0.0.0.0:14550'' Server 300 5 = Inr cfg" by (simp add: sample_setup cfg_def)
  obtain u h where r: "udp_run sample_lib cfg (sample_core 0) ([sample_datagram 7] @ [Cleanup 20]) sample_hub = (u, h)" by force
  have "sorted (readings [sample_datagram 7] @ [20])" by (simp add: readings_def sample_datagram_def)
  from server_destinations [OF c this r, of 30 sample_message "[None]"] obtain dests where d: "distinct dests"
      "set dests = {a. \<exists>t. last_heard [sample_datagram 7] a = Some t \<and> 20 - t < from_secs 300}"
      "attempts (fst (udp_step sample_lib cfg (sample_core 0) (Bus_Msg 30 sample_message [None]) (u, h))) = attempts u @
        (if check_outgoing (sample_core 0) (hub_table h) sample_message
         then map (\<lambda>(a, r). (a, serialized_bytes sample_message, r)) (zip dests (outcomes (length dests) [None])) else [])"
    by blast
  have "set dests = {peer_a}"
    using d(2) by (auto simp: last_heard_def sample_datagram_def time_simps)
  with d(1) have "dests = [peer_a]" by (cases dests; cases "tl dests") auto
  with d(3) c r sample_check show ?thesis by auto
qed

theorem udp_accounting_witness:
  "\<exists>u h. udp_run sample_lib \<lparr>conf_target = None, broadcast_mode = False, cleanup_ttl = 1, broadcast_timeout = 1\<rparr> (sample_core 0)
      [sample_datagram 7, Recv_Failed, Bus_Msg 9 sample_message [None]] sample_hub = (u, h) \<and>
    msgs_out (hub_stats h (core_id (sample_core 0))) = of_nat (length (delivered u)) \<and>
    errors (hub_stats h (core_id (sample_core 0))) = of_nat (undelivered u + 1)"
proof -
  obtain u h where r: "udp_run sample_lib \<lparr>conf_target = None, broadcast_mode = False, cleanup_ttl = 1, broadcast_timeout = 1\<rparr> (sample_core 0)
      [sample_datagram 7, Recv_Failed, Bus_Msg 9 sample_message [None]] sample_hub = (u, h)" by force
  have "hub_stats sample_hub (core_id (sample_core 0)) = endpoint_stats_new" by (simp add: sample_hub_def hub_new_def)
  from udp_accounting [OF this r] r show ?thesis
    by (auto simp: Let_def receive_failures_def sample_datagram_def)
qed

end
