(* ===== verification/Backoff.thy ===== *)
theory Backoff
  imports Errors Complex_Main
begin

text \<open>
  Exponential backoff (\<open>src/endpoint_core/backoff.rs\<close>). The product \<open>current * multiplier\<close> is exact here and
  rounded to the nearest nanosecond as \<open>from_secs_f64\<close> does; the router multiplies whole seconds
  by 2, where the floating-point product is exact as well. Like the source, the product panics when
  it is negative or does not fit a duration. The interface \<open>retry_delays\<close> states what
  the users of a backoff need: the supervisor and the TCP client interpret it on theirs.
\<close>

section \<open>Exponential backoff\<close>

record exp_backoff =
  current :: duration
  min_delay :: duration
  max_delay :: duration
  multiplier :: rat

definition backoff_new :: "duration \<Rightarrow> duration \<Rightarrow> rat \<Rightarrow> exp_backoff" where
  "backoff_new lo hi m = \<lparr>current = lo, min_delay = lo, max_delay = hi, multiplier = m\<rparr>"

definition from_secs_f64 :: "rat \<Rightarrow> duration outcome" where
  "from_secs_f64 nanos = (if nanos < 0 \<or> of_nat (2 ^ 64 * NANOS_PER_SEC) \<le> nanos then Panics else Returns (nat (round nanos)))"

definition next_backoff :: "exp_backoff \<Rightarrow> (duration \<times> exp_backoff) outcome" where
  "next_backoff b =
     (let wait = current b in
      case from_secs_f64 (of_nat (current b) * multiplier b) of
        Panics \<Rightarrow> Panics
      | Returns d \<Rightarrow> Returns (wait, b\<lparr>current := min (max_delay b) d\<rparr>))"

definition reset :: "exp_backoff \<Rightarrow> exp_backoff" where
  "reset b = b\<lparr>current := min_delay b\<rparr>"

text \<open>The states that \<open>next_backoff\<close> and \<open>reset\<close> reach from a doubling backoff.\<close>

definition doubling :: "duration \<Rightarrow> duration \<Rightarrow> exp_backoff \<Rightarrow> bool" where
  "doubling lo hi b \<longleftrightarrow> min_delay b = lo \<and> max_delay b = hi \<and> multiplier b = 2 \<and> lo \<le> current b \<and> current b \<le> hi"

lemma from_secs_f64_nat: "d < 2 ^ 64 * NANOS_PER_SEC \<Longrightarrow> from_secs_f64 (of_nat d) = Returns d"
  by (auto simp: from_secs_f64_def simp del: of_nat_mult)

lemma next_backoff_doubling:
  assumes "doubling lo hi b" "hi < 2 ^ 63 * NANOS_PER_SEC"
  shows "next_backoff b = Returns (current b, b\<lparr>current := min hi (2 * current b)\<rparr>)"
proof -
  have "2 * current b < 2 ^ 64 * NANOS_PER_SEC" using assms by (simp add: doubling_def)
  from from_secs_f64_nat [OF this] assms(1) show ?thesis
    by (simp add: next_backoff_def doubling_def Let_def mult.commute)
qed

section \<open>Retry schedules\<close>

text \<open>
  A loop that waits after every attempt and restarts the backoff after some of them. \<open>doublings\<close>
  counts how often the wait after attempt \<open>i\<close> has been doubled: once for each attempt
  since the last restart (for each earlier one, and \<open>k\<close> more, if there was none).
\<close>

fun schedule :: "('b \<Rightarrow> (duration \<times> 'b) outcome) \<Rightarrow> ('b \<Rightarrow> 'b) \<Rightarrow> 'b \<Rightarrow> bool list \<Rightarrow> duration list outcome" where
  "schedule step restart b [] = Returns []"
| "schedule step restart b (r # rs) =
     (case step (if r then restart b else b) of
        Panics \<Rightarrow> Panics
      | Returns (d, b') \<Rightarrow>
          (case schedule step restart b' rs of Panics \<Rightarrow> Panics | Returns ds \<Rightarrow> Returns (d # ds)))"

definition doublings :: "nat \<Rightarrow> bool list \<Rightarrow> nat \<Rightarrow> nat" where
  "doublings k rs i = (let m = length (takeWhile Not (rev (take (Suc i) rs))) in if m = Suc i then k + i else m)"

lemma length_takeWhile_snoc:
  "length (takeWhile P (xs @ [x])) =
    (if length (takeWhile P xs) = length xs then length xs + (if P x then 1 else 0) else length (takeWhile P xs))"
  by (induction xs) (auto simp: takeWhile_eq_all_conv)

lemma doublings_0: "doublings k (r # rs) 0 = (if r then 0 else k)"
  by (simp add: doublings_def)

lemma doublings_Suc:
  assumes "i < length rs"
  shows "doublings k (r # rs) (Suc i) = doublings (if r then 1 else Suc k) rs i"
proof -
  define xs where "xs = rev (take (Suc i) rs)"
  let ?run = "\<lambda>xs. length (takeWhile Not xs)"
  have l: "length xs = Suc i" using assms by (simp add: xs_def)
  have "doublings j rs i = (if ?run xs = Suc i then j + i else ?run xs)" for j
    by (simp add: doublings_def xs_def)
  moreover have "doublings k (r # rs) (Suc i) = (if ?run (xs @ [r]) = Suc (Suc i) then k + Suc i else ?run (xs @ [r]))"
    by (simp add: doublings_def xs_def)
  moreover have "?run (xs @ [r]) = (if ?run xs = Suc i then (if r then Suc i else Suc (Suc i)) else ?run xs)"
    using length_takeWhile_snoc [of Not xs r] l by simp
  moreover have "?run xs \<le> Suc i" using length_takeWhile_le [of Not xs] l by simp
  ultimately show ?thesis by auto
qed

definition delay_after :: "duration \<Rightarrow> duration \<Rightarrow> nat \<Rightarrow> duration" where
  "delay_after lo hi k = min hi (2 ^ k * lo)"

lemma delay_after_Suc: "min hi (2 * delay_after lo hi k) = delay_after lo hi (Suc k)"
  by (auto simp: delay_after_def min_def)

section \<open>The interface\<close>

locale retry_delays =
  fixes step :: "'b \<Rightarrow> (duration \<times> 'b) outcome" and restart :: "'b \<Rightarrow> 'b"
    and due :: "'b \<Rightarrow> duration" and invar :: "'b \<Rightarrow> bool" and lo hi :: duration
  assumes step_due: "invar b \<Longrightarrow> \<exists>b'. step b = Returns (due b, b') \<and> invar b' \<and> due b' = min hi (2 * due b)"
    and restart: "invar b \<Longrightarrow> invar (restart b) \<and> due (restart b) = lo"
    and bounds: "lo \<le> hi"
begin

lemma schedule_delays:
  "invar b \<Longrightarrow> due b = delay_after lo hi k \<Longrightarrow>
    schedule step restart b rs = Returns (map (\<lambda>i. delay_after lo hi (doublings k rs i)) [0..<length rs])"
proof (induction rs arbitrary: b k)
  case (Cons r rs)
  let ?b = "if r then restart b else b" and ?k = "if r then 0 else k"
  have b: "invar ?b" "due ?b = delay_after lo hi ?k"
    using Cons.prems restart [of b] bounds by (auto simp: delay_after_def)
  obtain b' where b': "step ?b = Returns (due ?b, b')" "invar b'" "due b' = delay_after lo hi (Suc ?k)"
    using step_due [OF b(1)] b(2) delay_after_Suc by metis
  have "map (\<lambda>i. delay_after lo hi (doublings (Suc ?k) rs i)) [0..<length rs] =
      map (\<lambda>i. delay_after lo hi (doublings k (r # rs) (Suc i))) [0..<length rs]"
    by (auto simp: doublings_Suc)
  with b b' Cons.IH [OF b'(2,3)] show ?case
    by (simp add: doublings_0 map_Suc_upt [symmetric] upt_conv_Cons del: upt_Suc)
qed simp

lemma schedule_returns:
  assumes "invar b" "due b = lo"
  obtains ds where "schedule step restart b rs = Returns ds" "length ds = length rs" "\<forall>d\<in>set ds. lo \<le> d \<and> d \<le> hi"
proof -
  have "due b = delay_after lo hi 0" using assms(2) bounds by (simp add: delay_after_def)
  from schedule_delays [OF assms(1) this, of rs] show thesis
    by (rule that) (auto simp: delay_after_def bounds)
qed

end

lemma doubling_retry:
  assumes "lo \<le> hi" "hi < 2 ^ 63 * NANOS_PER_SEC"
  shows "retry_delays next_backoff reset current (doubling lo hi) lo hi"
  using assms next_backoff_doubling [of lo hi]
  by unfold_locales (auto simp: doubling_def reset_def)

lemma doubling_new: "lo \<le> hi \<Longrightarrow> doubling lo hi (backoff_new lo hi 2) \<and> current (backoff_new lo hi 2) = delay_after lo hi 0"
  by (simp add: doubling_def backoff_new_def delay_after_def)

end
