(* ===== verification/Supervisor.thy ===== *)
theory Supervisor
  imports Backoff
begin

text \<open>
  The supervisor (\<open>src/orchestration/supervisor.rs\<close>): the loop that restarts a task until its
  cancellation token fires, on scripts of attempts.
\<close>

definition supervisor_backoff :: exp_backoff where
  "supervisor_backoff = backoff_new (from_secs 1) (from_secs 30) 2"

interpretation sup_delays: retry_delays next_backoff reset current "doubling (from_secs 1) (from_secs 30)" "from_secs 1" "from_secs 30"
  by (rule doubling_retry) (simp_all add: time_simps)

section \<open>The supervisor\<close>

text \<open>
  One attempt: cancelled while the task runs, or the task returned after some time; and whether the
  cancellation arrived during the wait that follows. When the script ends, the task still runs.
\<close>

datatype attempt = Cancelled_Running | Ran duration "router_error + unit" bool

datatype supervision = Supervising | Stopped | Supervisor_Panicked

definition STABLE_RUN :: duration where
  "STABLE_RUN = from_secs 60"

fun supervise_loop :: "exp_backoff \<Rightarrow> attempt list \<Rightarrow> duration list \<times> supervision" where
  "supervise_loop b [] = ([], Supervising)"
| "supervise_loop b (Cancelled_Running # as) = ([], Stopped)"
| "supervise_loop b (Ran elapsed result cancelled_waiting # as) =
     (let b' = (if elapsed > STABLE_RUN then reset b else b) in
      case next_backoff b' of
        Panics \<Rightarrow> ([], Supervisor_Panicked)
      | Returns (wait, b'') \<Rightarrow>
          if cancelled_waiting then ([wait], Stopped)
          else let (waits, end) = supervise_loop b'' as in (wait # waits, end))"

definition supervise :: "attempt list \<Rightarrow> duration list \<times> supervision" where
  "supervise as = supervise_loop supervisor_backoff as"

section \<open>Correctness of the supervisor\<close>

fun stable :: "attempt \<Rightarrow> bool" where
  "stable Cancelled_Running = False"
| "stable (Ran elapsed _ _) = (STABLE_RUN < elapsed)"

fun cancelling :: "attempt \<Rightarrow> bool" where
  "cancelling Cancelled_Running = True"
| "cancelling (Ran _ _ cancelled_waiting) = cancelled_waiting"

text \<open>The attempts after which the supervisor starts to wait.\<close>

fun waited :: "attempt list \<Rightarrow> attempt list" where
  "waited [] = []"
| "waited (Cancelled_Running # as) = []"
| "waited (Ran e r c # as) = Ran e r c # (if c then [] else waited as)"

lemma length_waited: "length (waited as) \<le> length as"
  by (induction as rule: waited.induct) simp_all

lemma supervise_loop_schedule:
  assumes "schedule next_backoff reset b (map stable (waited as)) = Returns ds"
  shows "supervise_loop b as = (ds, if \<exists>a\<in>set as. cancelling a then Stopped else Supervising)"
  using assms
proof (induction as arbitrary: b ds rule: waited.induct)
  case (3 e r c as)
  let ?b = "if e > STABLE_RUN then reset b else b"
  from "3.prems" obtain d b' where d: "next_backoff ?b = Returns (d, b')"
    by (auto split: outcome.splits)
  show ?case
  proof (cases c)
    case True
    then show ?thesis using d "3.prems" by (simp add: Let_def)
  next
    case False
    with "3.prems" d obtain ds' where "schedule next_backoff reset b' (map stable (waited as)) = Returns ds'" "ds = d # ds'"
      by (auto split: outcome.splits)
    with "3.IH" [OF False] False d show ?thesis by (simp add: Let_def)
  qed
qed simp_all

text \<open>
  C31. The supervisor never panics and never gives up: it stops exactly when the cancellation
  arrives, whatever the task returned. The wait after its i-th run is 1 s doubled once for
  every run since the last one that lasted over 60 s (since the start, if none did), at most 30 s.
\<close>

theorem supervisor_schedule:
  "supervise as =
    (map (\<lambda>i. delay_after (from_secs 1) (from_secs 30) (doublings 0 (map stable (waited as)) i)) [0..<length (waited as)],
     if \<exists>a\<in>set as. cancelling a then Stopped else Supervising)"
proof -
  have "doubling (from_secs 1) (from_secs 30) supervisor_backoff"
    "current supervisor_backoff = delay_after (from_secs 1) (from_secs 30) 0"
    using doubling_new [of "from_secs 1" "from_secs 30"] by (simp_all add: supervisor_backoff_def time_simps)
  from sup_delays.schedule_delays [OF this, of "map stable (waited as)"] show ?thesis
    unfolding supervise_def by (simp add: supervise_loop_schedule)
qed

end
