(* ===== verification/Tcp.thy ===== *)
theory Tcp
  imports Stream_Loop Supervisor Config
begin

text \<open>
  The TCP endpoint (\<open>src/endpoints/tcp.rs\<close>). The counter of client ids is global, so the servers
  of the router share one state: an event is a branch that the select loop of one of them takes. The running
  router (theory \<open>System\<close>) takes them in any order, and theory \<open>Identities\<close> has what follows for the ids.
  A client is its retry loop on a script of connection attempts. What happens on a
  connection is \<open>run_stream_loop\<close> (theory \<open>Stream_Loop\<close>).
\<close>

section \<open>Servers\<close>

definition FIRST_TCP_CLIENT_ID :: nat where
  "FIRST_TCP_CLIENT_ID = 10000"

definition MAX_TCP_CLIENTS :: nat where
  "MAX_TCP_CLIENTS = 100"

text \<open>
  \<open>join_set\<close> holds the clients of a server that it has not joined yet, \<open>spawned\<close> every client
  core ever started, with the server that started it.
\<close>

record tcp_state =
  next_tcp_client_id :: nat
  join_set :: "nat \<Rightarrow> nat list"
  spawned :: "(nat \<times> endpoint_core) list"

text \<open>
  The state when the process begins. The counter is a static: it survives a reload and counts for every router of
  the process, so that a later router starts from where it stands (\<open>tcp_taken\<close>: so many ids are gone).
\<close>

definition tcp_new :: tcp_state where
  "tcp_new = \<lparr>next_tcp_client_id = FIRST_TCP_CLIENT_ID, join_set = (\<lambda>_. []), spawned = []\<rparr>"

definition tcp_taken :: "nat \<Rightarrow> tcp_state" where
  "tcp_taken n = tcp_new\<lparr>next_tcp_client_id := FIRST_TCP_CLIENT_ID + n\<rparr>"

definition tcp_accept :: "nat \<Rightarrow> endpoint_core \<Rightarrow> tcp_state \<Rightarrow> tcp_state" where
  "tcp_accept server core st =
     (if length (join_set st server) \<ge> MAX_TCP_CLIENTS then st
      else let client_id = next_tcp_client_id st;
               core_client = child_for_client client_id core
           in st\<lparr>next_tcp_client_id := wrapping_add client_id 1,
                 join_set := (join_set st)(server := join_set st server @ [client_id]),
                 spawned := spawned st @ [(server, core_client)]\<rparr>)"

text \<open>The branches of the select loop; cancellation leaves it and shuts the join set down.\<close>

datatype tcp_event =
    Accepted nat endpoint_core
  | Accept_Error nat
  | Joined nat nat
  | Server_Cancelled nat

fun tcp_step :: "tcp_event \<Rightarrow> tcp_state \<Rightarrow> tcp_state" where
  "tcp_step (Accepted server core) st = tcp_accept server core st"
| "tcp_step (Accept_Error server) st = st"
| "tcp_step (Joined server client) st =
     st\<lparr>join_set := (join_set st)(server := removeAll client (join_set st server))\<rparr>"
| "tcp_step (Server_Cancelled server) st = st\<lparr>join_set := (join_set st)(server := [])\<rparr>"

text \<open>A server that cannot bind its address fails; the supervisor retries it.\<close>

definition tcp_listen :: "(string \<Rightarrow> io_error option) \<Rightarrow> string \<Rightarrow> router_error + unit" where
  "tcp_listen bind_tcp address = (case bind_tcp address of Some e \<Rightarrow> Inl (network_error address e) | None \<Rightarrow> Inr ())"

text \<open>
  The clients of a run that began when the counter stood at \<open>lo\<close>: their ids increase from \<open>lo\<close> on, below
  the counter.
\<close>

definition tcp_ok :: "nat \<Rightarrow> tcp_state \<Rightarrow> bool" where
  "tcp_ok lo st \<longleftrightarrow> (\<forall>(server, core) \<in> set (spawned st). update_routing core) \<and> lo \<le> next_tcp_client_id st \<and>
     sorted_wrt (<) (map (core_id \<circ> snd) (spawned st)) \<and>
     (\<forall>(server, core) \<in> set (spawned st). \<exists>i. lo \<le> i \<and> i < next_tcp_client_id st \<and> core_id core = EndpointId i) \<and>
     (\<forall>server. length (join_set st server) \<le> MAX_TCP_CLIENTS \<and> distinct (join_set st server) \<and>
        (\<forall>client \<in> set (join_set st server). client < next_tcp_client_id st))"

lemma tcp_ok_step:
  assumes "tcp_ok lo st" "next_tcp_client_id st < USIZE_MAX"
  shows "tcp_ok lo (tcp_step ev st)"
proof (cases ev)
  case (Accepted server core)
  show ?thesis
  proof (cases "length (join_set st server) \<ge> MAX_TCP_CLIENTS")
    case True
    with assms Accepted show ?thesis by (simp add: tcp_accept_def)
  next
    case False
    have "wrapping_add (next_tcp_client_id st) 1 = Suc (next_tcp_client_id st)"
      using assms(2) by (simp add: wrapping_add_def USIZE_MAX_def)
    moreover have "core_id c < EndpointId (next_tcp_client_id st)" if "(s, c) \<in> set (spawned st)" for s c
      using assms(1) that by (fastforce simp: tcp_ok_def)
    ultimately show ?thesis
      using assms(1) Accepted False
      by (fastforce simp: tcp_ok_def tcp_accept_def child_for_client_def sorted_wrt_append Let_def less_Suc_eq)
  qed
next
  case (Joined server client)
  have "length (removeAll client xs) \<le> length xs" for xs :: "nat list" by (simp add: removeAll_filter_not_eq)
  then have "length (removeAll client (join_set st server)) \<le> MAX_TCP_CLIENTS"
    using assms(1) by (meson order_trans tcp_ok_def)
  with assms(1) Joined show ?thesis by (auto simp: tcp_ok_def distinct_removeAll)
qed (use assms(1) in \<open>auto simp: tcp_ok_def\<close>)

text \<open>The counter counts the clients, and the ids taken elsewhere in the process do no harm.\<close>

lemma tcp_step_counts:
  assumes "next_tcp_client_id st < USIZE_MAX" "next_tcp_client_id st = n + length (spawned st)"
  shows "next_tcp_client_id (tcp_step ev st) = n + length (spawned (tcp_step ev st))"
  using assms by (cases ev) (simp_all add: tcp_accept_def wrapping_add_def USIZE_MAX_def Let_def)

lemma tcp_ok_taken: "tcp_ok lo st \<Longrightarrow> next_tcp_client_id st \<le> n \<Longrightarrow> tcp_ok lo (st\<lparr>next_tcp_client_id := n\<rparr>)"
  by (fastforce simp: tcp_ok_def)

lemma tcp_client_id:
  assumes "tcp_ok lo t" "(server, core) \<in> set (spawned t)"
  obtains i where "lo \<le> i" "i < next_tcp_client_id t" "core_id core = EndpointId i" "update_routing core"
  using assms by (fastforce simp: tcp_ok_def)

lemma tcp_client_unique:
  assumes "tcp_ok lo t" "(server, c) \<in> set (spawned t)" "(server', c') \<in> set (spawned t)" "core_id c = core_id c'"
  shows "c = c'"
proof -
  have "distinct (map (core_id \<circ> snd) (spawned t))"
    using assms(1) by (simp add: tcp_ok_def strict_sorted_iff)
  then have "inj_on (core_id \<circ> snd) (set (spawned t))" by (simp add: distinct_map)
  from inj_onD [OF this _ assms(2,3)] assms(4) show ?thesis by simp
qed

section \<open>The client\<close>

definition tcp_backoff :: exp_backoff where
  "tcp_backoff = backoff_new (from_secs 1) (from_secs 60) 2"

interpretation tcp_delays: retry_delays next_backoff reset current "doubling (from_secs 1) (from_secs 60)" "from_secs 1" "from_secs 60"
  by (rule doubling_retry) (simp_all add: time_simps)

text \<open>
  One round: the token is found cancelled at its start, or the connection fails, or a session runs
  and ends in some way; in the latter two the cancellation may arrive during the wait.
\<close>

datatype client_round = Already_Cancelled | Connect_Failed io_error bool | Session loop_end bool

datatype client_end = Trying | Client_Done | Client_Panicked

definition wait_retry :: "exp_backoff \<Rightarrow> bool \<Rightarrow> (exp_backoff \<Rightarrow> duration list \<times> client_end) \<Rightarrow> duration list \<times> client_end" where
  "wait_retry b cancelled continue =
     (case next_backoff b of
        Panics \<Rightarrow> ([], Client_Panicked)
      | Returns (wait, b') \<Rightarrow>
          if cancelled then ([wait], Client_Done)
          else (let (waits, end) = continue b' in (wait # waits, end)))"

fun tcp_client_loop :: "exp_backoff \<Rightarrow> client_round list \<Rightarrow> duration list \<times> client_end" where
  "tcp_client_loop b [] = ([], Trying)"
| "tcp_client_loop b (Already_Cancelled # rs) = ([], Client_Done)"
| "tcp_client_loop b (Connect_Failed e c # rs) = wait_retry b c (\<lambda>b'. tcp_client_loop b' rs)"
| "tcp_client_loop b (Session r c # rs) = wait_retry (reset b) c (\<lambda>b'. tcp_client_loop b' rs)"

definition tcp_client :: "client_round list \<Rightarrow> duration list \<times> client_end" where
  "tcp_client rs = tcp_client_loop tcp_backoff rs"

text \<open>Whether each round that reaches the wait had a connection, and whether a round is the last.\<close>

fun connected :: "client_round list \<Rightarrow> bool list" where
  "connected [] = []"
| "connected (Already_Cancelled # rs) = []"
| "connected (Connect_Failed e c # rs) = False # (if c then [] else connected rs)"
| "connected (Session r c # rs) = True # (if c then [] else connected rs)"

fun cancelled_round :: "client_round \<Rightarrow> bool" where
  "cancelled_round Already_Cancelled = True"
| "cancelled_round (Connect_Failed e c) = c"
| "cancelled_round (Session r c) = c"

lemma tcp_client_schedule_eq:
  assumes "schedule next_backoff reset b (connected rs) = Returns ds"
  shows "tcp_client_loop b rs = (ds, if \<exists>r\<in>set rs. cancelled_round r then Client_Done else Trying)"
  using assms
  by (induction rs arbitrary: b ds rule: connected.induct)
    (auto simp: wait_retry_def Let_def split: outcome.splits if_splits prod.splits)

text \<open>
  C36. The TCP client never panics and gives up only when it is cancelled. It waits 1 s after a
  session, however that ended, and after a failed connection 1 s doubled once for every
  attempt since the last session (since the start, if there was none), at most 60 s.
\<close>

theorem tcp_client_schedule:
  "tcp_client rs =
    (map (\<lambda>i. delay_after (from_secs 1) (from_secs 60) (doublings 0 (connected rs) i)) [0..<length (connected rs)],
     if \<exists>r\<in>set rs. cancelled_round r then Client_Done else Trying)"
proof -
  have "doubling (from_secs 1) (from_secs 60) tcp_backoff" "current tcp_backoff = delay_after (from_secs 1) (from_secs 60) 0"
    using doubling_new [of "from_secs 1" "from_secs 60"] by (simp_all add: tcp_backoff_def time_simps)
  from tcp_delays.schedule_delays [OF this, of "connected rs"] show ?thesis
    unfolding tcp_client_def by (rule tcp_client_schedule_eq)
qed

end
