(* ===== verification/End_To_End.thy ===== *)
theory End_To_End
  imports Stream_Loop
begin

text \<open>
  A stream endpoint to another, through the parser, the ingress pipeline, the deduplicator, the
  bus and the writer: the components of the preceding theories in the order in which a byte passes
  them.
\<close>

section \<open>From frames to the bus\<close>

text \<open>The reader's handler: each frame with the readings and channel results of its moment.\<close>

definition ingest :: "mavlink_lib \<Rightarrow> (mavlink_frame \<Rightarrow> ingress_env) \<Rightarrow> endpoint_core \<Rightarrow> mavlink_frame \<Rightarrow> hub \<Rightarrow> hub" where
  "ingest L env core frame h = handle_incoming_frame L (env frame) core frame h"

lemma fold_ingest: "fold (ingest L env core) fs h = hub_run L (map (\<lambda>f. Ingress (env f) core f) fs) h"
  by (induction fs arbitrary: h) (simp_all add: ingest_def)

lemma fresh_frames_on_bus:
  assumes "\<not> is_zero p" "\<And>f. ahash (env f) = H" "\<And>f. bus_send_ok (env f)"
    and "distinct (map (H \<circ> raw_bytes) (filter (accepted L core) fs))"
  shows "hub_bus (hub_run L (map (\<lambda>f. Ingress (env f) core f) fs) (hub_new p t)) =
    map (\<lambda>f. routed_of (env f) core f (msg_id_of L (frame_message f))) (filter (accepted L core) fs)"
  using assms(4)
proof (induction fs rule: rev_induct)
  case (snoc f fs)
  let ?evs = "map (\<lambda>f. Ingress (env f) core f) fs"
  have "\<not> known_payload H f (hub_run L ?evs (hub_new p t))" if "accepted L core f"
  proof
    assume "known_payload H f (hub_run L ?evs (hub_new p t))"
    moreover have "\<forall>ev \<in> set ?evs. same_hash H ev" by (auto simp: same_hash_def assms(2))
    ultimately obtain before e c first after where "?evs = before @ Ingress e c first # after"
      "accepted L c first" "H (raw_bytes first) = H (raw_bytes f)"
      using known_payload_exact [OF assms(1)] by blast
    then have "Ingress e c first \<in> set ?evs" by simp
    then have "first \<in> set fs" "c = core" by auto
    with \<open>accepted L c first\<close> have "H (raw_bytes first) \<in> (H \<circ> raw_bytes) ` set (filter (accepted L core) fs)" by simp
    moreover have "H (raw_bytes f) \<notin> (H \<circ> raw_bytes) ` set (filter (accepted L core) fs)" using snoc.prems that by simp
    ultimately show False using \<open>H (raw_bytes first) = H (raw_bytes f)\<close> by metis
  qed
  with snoc show ?case by (simp add: bus_ingress assms(2,3))
qed (simp add: hub_new_def)

section \<open>From the bus to the socket\<close>

text \<open>The messages that the writer polls, each with the routing table it sees.\<close>

definition polled :: "poll list \<Rightarrow> (routed_message \<times> routing_table) list" where
  "polled ps = concat (map (\<lambda>p. case poll_res p of Poll_Msg m \<Rightarrow> [(m, poll_table p)] | _ \<Rightarrow> []) ps)"

lemma outgoing_polled: "outgoing core ps = map fst (filter (\<lambda>(m, t). check_outgoing core t m) (polled ps))"
  by (induction ps) (auto simp: polled_def split: poll_result.split)

lemma payload_zip:
  "map fst mts = map g fs \<Longrightarrow> (\<And>f. serialized_bytes (g f) = raw_bytes f) \<Longrightarrow>
   payload (map fst (filter (\<lambda>(m, t). P t m) mts)) =
     concat (map (\<lambda>(f, t). if P t (g f) then raw_bytes f else []) (zip fs (map snd mts)))"
proof (induction fs arbitrary: mts)
  case (Cons f fs)
  then obtain m t mts' where "mts = (m, t) # mts'" "m = g f" "map fst mts' = map g fs" by (cases mts) auto
  with Cons show ?case by simp
qed simp

lemma writer_output:
  assumes "\<forall>p \<in> set ps. \<not> poll_cancelled p \<and> poll_res p \<noteq> Poll_Closed" "wr_io w = []" "all_flushed w"
  obtains w' where "writer_loop core name ps w = (Waiting, w')" "all_flushed w'" "wr_bytes w' = wr_bytes w @ payload (outgoing core ps)"
proof -
  obtain r w' where run: "writer_loop core name ps w = (r, w')" by force
  from writer_loop_result [OF this] obtain d rest where d: "ps = d @ rest" "stopped core name d rest r w w'"
    "r = Waiting \<and> all_flushed w \<longrightarrow> all_flushed w'" by blast
  have "r = Waiting"
    using d assms by (cases r) (auto simp: stopped_def failed_with_def)
  with d that [of w'] run assms(3) show ?thesis by (auto simp: stopped_def processed_def)
qed

section \<open>What the channel drops\<close>

text \<open>
  The documented contract of a receiver of the broadcast channel, as a check of a script of poll results
  against the messages sent since it subscribed: messages arrive in order, each once; a receiver that fell
  behind is told how many messages were overwritten and goes on after them; and the channel is closed
  only when all is read. The value is what is left unread, or \<open>None\<close> when the script breaks the contract.
\<close>

fun reads :: "poll_result list \<Rightarrow> routed_message list \<Rightarrow> routed_message list option" where
  "reads [] log = Some log"
| "reads (Poll_Msg m # rs) log = (case log of [] \<Rightarrow> None | x # log' \<Rightarrow> if x = m then reads rs log' else None)"
| "reads (Poll_Lagged n # rs) log = (if unat n \<le> length log then reads rs (drop (unat n) log) else None)"
| "reads (Poll_Empty # rs) log = reads rs log"
| "reads (Poll_Closed # rs) log = (if log = [] then reads rs log else None)"

lemma reads_append: "reads (rs @ rs') log = Option.bind (reads rs log) (reads rs')"
  by (induction rs log rule: reads.induct) (auto split: list.split)

lemma polled_simps [simp]:
  "polled [] = []"
  "polled (p # ps) = (case poll_res p of Poll_Msg m \<Rightarrow> (m, poll_table p) # polled ps | _ \<Rightarrow> polled ps)"
  by (simp_all add: polled_def split: poll_result.split)

lemma reads_accounted:
  "reads (map poll_res ps) log = Some unread \<Longrightarrow>
     \<exists>k \<le> length log. unread = drop k log \<and> subseq (map fst (polled ps)) (take k log) \<and>
       of_nat k = of_nat (length (polled ps)) + lags ps"
proof (induction ps arbitrary: log)
  case Nil
  then show ?case by (intro exI [of _ 0]) simp
next
  case (Cons p ps)
  show ?case
  proof (cases "poll_res p")
    case (Poll_Msg m)
    with Cons.prems obtain log' where log: "log = m # log'" "reads (map poll_res ps) log' = Some unread"
      by (auto split: list.splits if_splits)
    from Cons.IH [OF log(2)] obtain k where "k \<le> length log'" "unread = drop k log'"
      "subseq (map fst (polled ps)) (take k log')" "of_nat k = of_nat (length (polled ps)) + lags ps" by blast
    with Poll_Msg log(1) show ?thesis by (intro exI [of _ "Suc k"]) simp
  next
    case (Poll_Lagged n)
    with Cons.prems have n: "unat n \<le> length log" "reads (map poll_res ps) (drop (unat n) log) = Some unread"
      by (auto split: if_splits)
    from Cons.IH [OF n(2)] obtain k where k: "k \<le> length log - unat n" "unread = drop k (drop (unat n) log)"
      "subseq (map fst (polled ps)) (take k (drop (unat n) log))" "of_nat k = of_nat (length (polled ps)) + lags ps" by auto
    have "subseq (map fst (polled ps)) (take (unat n + k) log)"
      unfolding take_add using k(3) by (rule list_emb_append2)
    moreover have "unat n + k \<le> length log" "unread = drop (unat n + k) log" using k(1,2) n(1) by (simp_all add: add.commute)
    moreover have "of_nat (unat n + k) = of_nat (length (polled (p # ps))) + lags (p # ps)" using Poll_Lagged k(4) by simp
    ultimately show ?thesis using Poll_Lagged by (intro exI [of _ "unat n + k"]) simp
  next
    case Poll_Closed
    with Cons.prems have "log = []" "reads (map poll_res ps) log = Some unread" by (simp_all split: if_splits)
    with Cons.IH [OF this(2)] Poll_Closed show ?thesis by simp
  next
    case Poll_Empty
    with Cons show ?thesis by simp
  qed
qed

text \<open>
  C22. No message is lost unnoticed. Give the writer of an endpoint a receiver of the bus that
  keeps the channel's contract. Wherever the writer stops, there is a number \<open>k\<close> such that each of the
  first \<open>k\<close> messages of the bus was put to the egress check, in order and at most once, or is
  counted as lagged; what was written is exactly what passed the check; and a parked writer has accounted in
  this way for all that the channel has handed over. With nothing lagged, all \<open>k\<close> were put to the check.
\<close>

theorem no_silent_loss:
  assumes "reads (map poll_res ps) log = Some unread" "length log < 2 ^ 64"
    and "writer_loop core name ps w = (r, w')"
  shows "\<exists>d k. prefix d ps \<and> k \<le> length log \<and> subseq (map fst (polled d)) (take k log) \<and>
    wr_bytes w' = wr_bytes w @ payload (map fst (filter (\<lambda>(m, t). check_outgoing core t m) (polled d))) \<and>
    of_nat k = of_nat (length (polled d)) + (bus_lagged (wr_stats w') - bus_lagged (wr_stats w)) \<and>
    (bus_lagged (wr_stats w') = bus_lagged (wr_stats w) \<longrightarrow> map fst (polled d) = take k log) \<and>
    (r = Waiting \<longrightarrow> d = ps \<and> unread = drop k log)"
proof -
  obtain d rest where d: "ps = d @ rest" "stopped core name d rest r w w'"
    using writer_loop_result [OF assms(3)] by blast
  from d(2) obtain e where p: "processed core d e w w'" by (cases r) (auto simp: stopped_def)
  from assms(1) d(1) obtain unread' where reads: "reads (map poll_res d) log = Some unread'"
    by (auto simp: reads_append split: bind_splits)
  from reads_accounted [OF reads] obtain k where k: "k \<le> length log" "unread' = drop k log"
    "subseq (map fst (polled d)) (take k log)" "of_nat k = of_nat (length (polled d)) + lags d" by blast
  have lag: "bus_lagged (wr_stats w') - bus_lagged (wr_stats w) = lags d" using p by (simp add: processed_def)
  have "map fst (polled d) = take k log" if "lags d = 0"
  proof -
    have "length (polled d) \<le> k" using list_emb_length [OF k(3)] k(1) by simp
    moreover have "unat (of_nat (length (polled d)) :: u64) = unat (of_nat k :: u64)" using k(4) that by simp
    ultimately have "length (polled d) = k" using assms(2) k(1) by (simp add: unat_of_nat)
    with k(1,3) show ?thesis by (metis length_map length_take min.absorb2 subseq_same_length)
  qed
  moreover have "d = ps \<and> unread = drop k log" if "r = Waiting"
    using that d assms(1) reads k(2) by (auto simp: stopped_def)
  ultimately show ?thesis
    using d(1) k p lag by (intro exI [of _ d] exI [of _ k]) (auto simp: processed_def outgoing_polled prefix_def)
qed

theorem no_silent_loss_witness:
  "\<exists>d k. prefix d [sample_poll (Poll_Lagged 1), sample_poll (Poll_Msg sample_message)] \<and> k \<le> 2 \<and>
    subseq (map fst (polled d)) (take k [sample_message\<lparr>message_id := 7\<rparr>, sample_message]) \<and>
    of_nat k = of_nat (length (polled d)) + bus_lagged (wr_stats (snd (writer_loop (sample_core 0) ''tcp''
      [sample_poll (Poll_Lagged 1), sample_poll (Poll_Msg sample_message)] writer_new)))"
proof -
  let ?ps = "[sample_poll (Poll_Lagged 1), sample_poll (Poll_Msg sample_message)]"
  obtain r w' where run: "writer_loop (sample_core 0) ''tcp'' ?ps writer_new = (r, w')" by force
  let ?log = "[sample_message\<lparr>message_id := 7\<rparr>, sample_message]"
  have script: "reads (map poll_res ?ps) ?log = Some []" and len: "length ?log < 2 ^ 64"
    by (simp_all add: sample_poll_def)
  have zero: "bus_lagged (wr_stats writer_new) = 0" by (simp add: writer_new_def endpoint_stats_new_def)
  obtain d k where "prefix d ?ps" "k \<le> length ?log" "subseq (map fst (polled d)) (take k ?log)"
      "of_nat k = of_nat (length (polled d)) + (bus_lagged (wr_stats w') - bus_lagged (wr_stats writer_new))"
    using no_silent_loss [OF script len run] by blast
  then show ?thesis unfolding run zero by (intro exI [of _ d] exI [of _ k]) simp
qed

section \<open>From socket to socket\<close>

text \<open>
  C1. What goes in at one stream endpoint comes out at another, byte for byte. A router
  with deduplication on reads version 2 traffic that fits the parser's buffer, in reads of any size,
  the accepted frames of which have different hashes. Then the bus carries those frames, and an
  endpoint whose writer polls the bus writes and flushes exactly the bytes of the frames that pass its
  egress check at that moment: unchanged, whole, in the order of the input and each once.
\<close>

theorem stream_to_stream:
  assumes "lib_ok L" "reader_sequential (read_v2_msg L)" "reader_sequential (read_v1_msg L)"
    and "\<forall>c \<in> set chunks. c \<noteq> []" "length (concat chunks) \<le> MAX_BUFFER_SIZE"
    and "\<forall>n fs b. drain L (take n (concat chunks)) = Some (Returns (fs, b)) \<longrightarrow> (\<forall>f \<in> set fs. frame_version f = V2)"
    and "drain L (concat chunks) = Some (Returns (frames, rest))"
    and "\<not> is_zero p" "\<forall>f. ahash (env f) = H \<and> bus_send_ok (env f)"
    and "distinct (map (H \<circ> raw_bytes) (filter (accepted L a) frames))"
    and "\<forall>p \<in> set ps. \<not> poll_cancelled p \<and> poll_res p \<noteq> Poll_Closed"
  shows "\<exists>h. reader_loop L (ingest L env a) name (map (\<lambda>c. (False, Read_Bytes c)) chunks) (parser_new, hub_new p t) =
      Some (Returns (Waiting, rest, h)) \<and>
    hub_bus h = map (\<lambda>f. routed_of (env f) a f (msg_id_of L (frame_message f))) (filter (accepted L a) frames) \<and>
    (map fst (polled ps) = hub_bus h \<longrightarrow>
      (\<exists>w. writer_loop b name' ps writer_new = (Waiting, w) \<and> wr_flushed w = length (wr_bytes w) \<and>
         wr_bytes w = concat (map (\<lambda>(f, tab). if check_outgoing b tab (routed_of (env f) a f (msg_id_of L (frame_message f)))
           then raw_bytes f else []) (zip (filter (accepted L a) frames) (map snd (polled ps))))))"
proof -
  let ?h = "fold (ingest L env a) frames (hub_new p t)"
  have "reader_loop L (ingest L env a) name (map (\<lambda>c. (False, Read_Bytes c)) chunks) (parser_new, hub_new p t) =
      Some (Returns (Waiting, rest, ?h))"
    using reader_from_start [OF assms(1-6), of "ingest L env a" name "hub_new p t"] assms(7) by auto
  moreover have "hub_bus ?h =
      map (\<lambda>f. routed_of (env f) a f (msg_id_of L (frame_message f))) (filter (accepted L a) frames)"
    unfolding fold_ingest using assms(8-10) by (intro fresh_frames_on_bus) auto
  moreover obtain w where "writer_loop b name' ps writer_new = (Waiting, w)" "all_flushed w"
      "wr_bytes w = wr_bytes writer_new @ payload (outgoing b ps)"
    using writer_output [OF assms(11), of writer_new b name'] by (auto simp: writer_new_def all_flushed_def)
  ultimately show ?thesis
    using payload_zip [of "polled ps" "\<lambda>f. routed_of (env f) a f (msg_id_of L (frame_message f))"
        "filter (accepted L a) frames" "\<lambda>t m. check_outgoing b t m"]
    by (auto simp: outgoing_polled all_flushed_def writer_new_def routed_of_def)
qed

definition sample_stream :: "byte list list" where
  "sample_stream = [[7, 0xFD, 1], [2, 3, 9]]"

definition stream_frame :: mavlink_frame where
  "stream_frame = \<lparr>frame_header = \<lparr>system_id = 1, component_id = 2, sequence = 3\<rparr>,
     frame_message = OTHER_MESSAGE 0, frame_version = V2, raw_bytes = [0xFD, 1, 2, 3]\<rparr>"

lemma sample_stream_v2:
  "drain sample_lib (take n (concat sample_stream)) = Some (Returns (fs, b)) \<longrightarrow> (\<forall>f \<in> set fs. frame_version f = V2)"
  using sample_v2_only [of "take n [7, 0xFD, 1, 2, 3, 9]" fs b] in_set_takeD [of "0xFE :: byte" n "[7, 0xFD, 1, 2, 3, 9]"]
  by (auto simp: drain_iff [OF sample_lib_ok(1)] sample_stream_def)

lemma sample_stream_drain: "drain sample_lib (concat sample_stream) = Some (Returns ([stream_frame], []))"
  by (simp add: sample_eval sample_stream_def stream_frame_def)

theorem stream_to_stream_witness:
  "\<exists>w. writer_loop (sample_core 1) ''tcp'' [sample_poll (Poll_Msg (routed_of Hub.sample_env (sample_core 0) stream_frame 0))] writer_new =
      (Waiting, w) \<and> wr_bytes w = [0xFD, 1, 2, 3] \<and> wr_flushed w = 4"
proof -
  define m where "m = routed_of Hub.sample_env (sample_core 0) stream_frame 0"
  define ps where "ps = [sample_poll (Poll_Msg m)]"
  define b where "b = sample_core 1"
  have acc: "accepted sample_lib (sample_core 0) stream_frame"
    by (simp add: accepted_def accept_frame_def sample_core_def stream_frame_def)
  have out: "check_outgoing b tab m" for tab
    by (simp add: check_outgoing_def routed_of_def sample_core_def stream_frame_def extract_target_def b_def m_def)
  have ps: "polled ps = [(m, routing_table_new)]" "\<forall>p \<in> set ps. \<not> poll_cancelled p \<and> poll_res p \<noteq> Poll_Closed"
    by (simp_all add: polled_def ps_def sample_poll_def)
  have m: "routed_of Hub.sample_env (sample_core 0) stream_frame (msg_id_of sample_lib (frame_message stream_frame)) = m"
    by (simp add: m_def sample_lib_def)
  have "\<not> is_zero (from_millis 500)" by (simp add: is_zero_def time_simps)
  moreover have "\<forall>c \<in> set sample_stream. c \<noteq> []" "length (concat sample_stream) \<le> MAX_BUFFER_SIZE"
    by (simp_all add: sample_stream_def MAX_BUFFER_SIZE_def)
  moreover have "bus_send_ok Hub.sample_env" by (simp add: Hub.sample_env_def)
  ultimately have "\<exists>w. writer_loop b ''tcp'' ps writer_new = (Waiting, w) \<and>
      wr_flushed w = length (wr_bytes w) \<and> wr_bytes w = raw_bytes stream_frame"
    using stream_to_stream [OF sample_lib_ok, of sample_stream "[stream_frame]" "[]" "from_millis 500" "\<lambda>_. Hub.sample_env"
        "ahash Hub.sample_env" "sample_core 0" ps "''in''" routing_table_new b "''tcp''"] sample_stream_v2 sample_stream_drain ps
    by (auto simp: acc out m)
  then show ?thesis unfolding b_def ps_def m_def by (auto simp: stream_frame_def)
qed

end
