(* ===== verification/Serial.thy ===== *)
theory Serial
  imports Stream_Loop
begin

text \<open>
  The serial endpoint (\<open>src/endpoints/serial.rs\<close>) and the rotation through its baud rates
  (\<open>src/orchestration.rs\<close>). Opening the device is an outcome of the environment: when it completes,
  if ever, and how; the stream loop on the open port is a parameter.
\<close>

definition OPEN_TIMEOUT :: duration where
  "OPEN_TIMEOUT = from_secs 3"

text \<open>The future is polled before the timer, so completing at the deadline is in time.\<close>

definition apply_open_timeout :: "string \<Rightarrow> duration \<Rightarrow> (duration \<times> (serial_error + 'a)) option \<Rightarrow> router_error + 'a" where
  "apply_open_timeout device timeout open_fut =
     (case (case open_fut of Some (at, r) \<Rightarrow> if at \<le> timeout then Some r else None | None \<Rightarrow> None) of
        Some (Inr v) \<Rightarrow> Inr v
      | Some (Inl e) \<Rightarrow> Inl (serial_error device e)
      | None \<Rightarrow> Inl (serial_timeout device (as_secs timeout)))"

text \<open>The blocking open runs on its own thread; a panic there becomes an error.\<close>

datatype 'a spawn_result = Completed "serial_error + 'a" | Join_Error string

definition open_result :: "'a spawn_result \<Rightarrow> serial_error + 'a" where
  "open_result r = (case r of
      Completed inner \<Rightarrow> inner
    | Join_Error join_err \<Rightarrow> Inl (''serial open task panicked: '' @ join_err))"

definition open_and_run :: "string \<Rightarrow> (duration \<times> 'a spawn_result) option \<Rightarrow> ('a \<Rightarrow> loop_end) \<Rightarrow> loop_end" where
  "open_and_run device opening stream_loop =
     (case apply_open_timeout device OPEN_TIMEOUT (map_option (\<lambda>(at, r). (at, open_result r)) opening) of
        Inl e \<Rightarrow> Ended_Err e
      | Inr port \<Rightarrow> stream_loop port)"

text \<open>An endpoint that reads and writes: its core learns routes.\<close>

definition serial_run :: "spawn_context \<Rightarrow> string \<Rightarrow> (duration \<times> 'a spawn_result) option \<Rightarrow> (endpoint_core \<Rightarrow> 'a \<Rightarrow> loop_end) \<Rightarrow> loop_end" where
  "serial_run ctx device opening stream_loop =
     (let core = endpoint_core_of True ctx in open_and_run device opening (stream_loop core))"

text \<open>The rate of each restart: the attempts count up through the list and around.\<close>

definition baud_of_attempt :: "u32 list \<Rightarrow> nat \<Rightarrow> u32 outcome" where
  "baud_of_attempt bauds idx = (if length bauds = 0 then Panics else Returns (bauds ! (idx mod length bauds)))"

lemma open_never_hangs:
  "open_and_run device opening stream_loop = Ended_Err (serial_timeout device 3) \<or>
    (\<exists>at r. opening = Some (at, r) \<and> at \<le> OPEN_TIMEOUT \<and>
      (case open_result r of
         Inl e \<Rightarrow> open_and_run device opening stream_loop = Ended_Err (serial_error device e)
       | Inr port \<Rightarrow> open_and_run device opening stream_loop = stream_loop port))"
  by (auto simp: open_and_run_def apply_open_timeout_def OPEN_TIMEOUT_def time_simps split: option.split sum.split)

lemma baud_cycle:
  assumes "bauds \<noteq> []"
  shows "map (baud_of_attempt bauds) [n * length bauds..<Suc n * length bauds] = map Returns bauds"
proof -
  have "[n * length bauds..<Suc n * length bauds] = map (\<lambda>i. n * length bauds + i) [0..<length bauds]"
    by (simp add: map_add_upt add.commute [of "n * length bauds"])
  then show ?thesis using assms by (auto simp: baud_of_attempt_def intro!: nth_equalityI)
qed

end
