(* ===== verification/Orchestration.thy ===== *)
theory Orchestration
  imports Hub Config Serial Tcp
begin

text \<open>
  What is started from a configuration (\<open>spawn_all\<close> and \<open>build_endpoint_context\<close> in
  \<open>src/orchestration.rs\<close>) and how it is stopped (\<open>src/orchestration/shutdown.rs\<close>). A spawned task is
  described by its name and what it runs on; whether its first steps panic is a function of that
  description. The channels and the cancellation tokens that the tasks share are those of the
  theories that model the tasks.
\<close>

section \<open>Tasks\<close>

datatype task_kind =
    Dedup_Rotator duration
  | Routing_Updater duration duration
  | Tcp_Task spawn_context string endpoint_mode
  | Tlog_Task string
  | Udp_Task spawn_context string endpoint_mode nat nat
  | Serial_Task spawn_context string "u32 list" flow_control

record named_task =
  task_name :: string
  task_kind :: task_kind

definition build_endpoint_context :: "nat \<Rightarrow> endpoint_config \<Rightarrow> string \<times> spawn_context" where
  "build_endpoint_context i cfg =
     (let (name, filters) = (case cfg of
            Udp_Endpoint address _ _ filters _ \<Rightarrow> (''UDP Endpoint '' @ show_nat i @ '' ('' @ address @ '')'', filters)
          | Tcp_Endpoint address _ filters _ \<Rightarrow> (''TCP Endpoint '' @ show_nat i @ '' ('' @ address @ '')'', filters)
          | Serial_Endpoint device _ _ filters _ \<Rightarrow> (''Serial Endpoint '' @ show_nat i @ '' ('' @ device @ '')'', filters))
      in (name, \<lparr>ctx_id = i, ctx_filters = filters\<rparr>))"

definition endpoint_task :: "nat \<Rightarrow> spawn_context \<Rightarrow> endpoint_config \<Rightarrow> task_kind" where
  "endpoint_task prune_ttl ctx cfg =
     (case cfg of
        Udp_Endpoint address mode bcast_timeout _ _ \<Rightarrow> Udp_Task ctx address mode prune_ttl bcast_timeout
      | Tcp_Endpoint address mode _ _ \<Rightarrow> Tcp_Task ctx address mode
      | Serial_Endpoint device baud flow _ _ \<Rightarrow> Serial_Task ctx device (rates baud) flow)"

text \<open>\<open>broadcast::channel\<close> panics without capacity, or when the capacity exceeds half of \<open>usize\<close>.\<close>

definition create_bus :: "nat \<Rightarrow> unit outcome" where
  "create_bus capacity = (if capacity = 0 \<or> capacity > USIZE_MAX div 2 then Panics else Returns ())"

definition register_groups :: "endpoint_config list \<Rightarrow> routing_table \<Rightarrow> routing_table" where
  "register_groups es rt = fold (\<lambda>(i, e) t. case group_name e of
      Some grp \<Rightarrow> set_endpoint_group (EndpointId i) grp t | None \<Rightarrow> t) (enumerate 0 es) rt"

definition register_sniffers :: "u8 list \<Rightarrow> routing_table \<Rightarrow> routing_table" where
  "register_sniffers sysids rt = (if sysids \<noteq> [] then set_sniffer_sysids sysids rt else rt)"

record orchestrated =
  tasks :: "named_task list"
  orch_table :: routing_table
  orch_dedup :: concurrent_dedup
  orch_stats :: "(endpoint_id \<times> string) list"

definition rotator_tasks :: "concurrent_dedup \<Rightarrow> named_task list" where
  "rotator_tasks dedup = (if \<not> is_zero (cd_rotation_interval dedup)
     then [\<lparr>task_name = ''Dedup Rotator'', task_kind = Dedup_Rotator (cd_rotation_interval dedup)\<rparr>] else [])"

definition implicit_tcp :: "config \<Rightarrow> (named_task \<times> endpoint_id \<times> string) list" where
  "implicit_tcp cfg = (case tcp_port (general cfg) of
      None \<Rightarrow> []
    | Some port \<Rightarrow>
        let name = ''Implicit TCP Server :'' @ show_nat (unat port);
            id = length (endpoint cfg);
            addr = ''0.0.0.0:'' @ show_nat (unat port);
            ctx = \<lparr>ctx_id = id, ctx_filters = default_filters\<rparr>
        in [(\<lparr>task_name = name, task_kind = Tcp_Task ctx addr Server\<rparr>, EndpointId id, name)])"

definition tlog_tasks :: "config \<Rightarrow> named_task list" where
  "tlog_tasks cfg = (case log_dir (general cfg) of
      Some dir \<Rightarrow> if log_telemetry (general cfg)
        then [\<lparr>task_name = ''TLog Logger '' @ dir, task_kind = Tlog_Task dir\<rparr>] else []
    | None \<Rightarrow> [])"

definition endpoint_tasks :: "config \<Rightarrow> (named_task \<times> endpoint_id \<times> string) list" where
  "endpoint_tasks cfg = map (\<lambda>(i, e).
     let (name, ctx) = build_endpoint_context i e
     in (\<lparr>task_name = name, task_kind = endpoint_task (routing_table_ttl_secs (general cfg)) ctx e\<rparr>, EndpointId i, name))
     (enumerate 0 (endpoint cfg))"

text \<open>The check before anything is started, in \<open>Router::start\<close> and \<open>run_with_signals\<close>.\<close>

definition has_endpoints :: "config \<Rightarrow> bool" where
  "has_endpoints cfg \<longleftrightarrow> endpoint cfg \<noteq> [] \<or> tcp_port (general cfg) \<noteq> None"

definition updater_task :: "general_config \<Rightarrow> named_task" where
  "updater_task g = \<lparr>task_name = ''Routing Updater'',
     task_kind = Routing_Updater (from_secs (routing_table_ttl_secs g)) (from_secs (routing_table_prune_interval_secs g))\<rparr>"

definition config_period :: "general_config \<Rightarrow> duration" where
  "config_period g = from_millis (case dedup_period_ms g of Some ms \<Rightarrow> ms | None \<Rightarrow> 0)"

definition spawn_all :: "config \<Rightarrow> orchestrated outcome" where
  "spawn_all cfg =
     (case create_bus (bus_capacity (general cfg)) of
        Panics \<Rightarrow> Panics
      | Returns _ \<Rightarrow>
          let g = general cfg;
              rt = register_sniffers (cfg_sniffer_sysids g) (register_groups (endpoint cfg) routing_table_new)
          in if \<not> wheel_fits (config_period g) then Panics
             else let dedup = concurrent_dedup_new (config_period g)
          in Returns \<lparr>
            tasks = rotator_tasks dedup @ [updater_task g] @ map fst (implicit_tcp cfg) @ tlog_tasks cfg @ map fst (endpoint_tasks cfg),
            orch_table = rt, orch_dedup = dedup,
            orch_stats = map snd (implicit_tcp cfg) @ map snd (endpoint_tasks cfg)\<rparr>)"

text \<open>
  The panics in the first steps of a task: a timer without a period, and choosing from an empty list
  of baud rates.
\<close>

fun task_panics :: "task_kind \<Rightarrow> bool" where
  "task_panics (Dedup_Rotator interval) = is_zero interval"
| "task_panics (Routing_Updater ttl interval) = is_zero interval"
| "task_panics (Serial_Task ctx device bauds flow) = (baud_of_attempt bauds 0 = Panics)"
| "task_panics _ = False"

section \<open>Stopping\<close>

text \<open>When a task exits after the cancellation, if it does.\<close>

record running_task =
  running_name :: string
  exits_after :: "duration option"

definition finished_by :: "duration \<Rightarrow> running_task \<Rightarrow> bool" where
  "finished_by d t \<longleftrightarrow> (case exits_after t of Some e \<Rightarrow> e \<le> d | None \<Rightarrow> False)"

text \<open>Whether all tasks exited in time, and the tasks that are reported and aborted otherwise.\<close>

definition shutdown_with_timeout :: "running_task list \<Rightarrow> duration \<Rightarrow> bool \<times> running_task list" where
  "shutdown_with_timeout ts timeout_dur =
     (if ts = [] then (True, [])
      else if list_all (finished_by timeout_dur) ts then (True, [])
      else (False, filter (\<lambda>t. \<not> finished_by timeout_dur t) ts))"

lemma shutdown_exact:
  "shutdown_with_timeout ts d = (list_all (finished_by d) ts, filter (\<lambda>t. \<not> finished_by d t) ts)"
  by (auto simp: shutdown_with_timeout_def list_all_iff filter_empty_conv)

section \<open>The table at the start\<close>

text \<open>The configuration events that the start-up performs on the table.\<close>

definition startup_events :: "config \<Rightarrow> table_event list" where
  "startup_events cfg =
     concat (map (\<lambda>(i, e). case group_name e of Some grp \<Rightarrow> [Set_Group (EndpointId i) grp] | None \<Rightarrow> [])
       (enumerate 0 (endpoint cfg))) @
     (if cfg_sniffer_sysids (general cfg) \<noteq> [] then [Set_Sniffers (cfg_sniffer_sysids (general cfg))] else [])"

lemma startup_table:
  "register_sniffers (cfg_sniffer_sysids (general cfg)) (register_groups (endpoint cfg) routing_table_new) =
     table_run (startup_events cfg)"
proof -
  have "fold (\<lambda>(i, e) t. case group_name e of Some grp \<Rightarrow> set_endpoint_group (EndpointId i) grp t | None \<Rightarrow> t) ies t =
      fold table_step (concat (map (\<lambda>(i, e). case group_name e of Some grp \<Rightarrow> [Set_Group (EndpointId i) grp] | None \<Rightarrow> []) ies)) t"
    for ies t
    by (induction ies arbitrary: t) (auto split: option.split)
  then show ?thesis
    by (simp add: startup_events_def table_run_def register_groups_def register_sniffers_def)
qed

lemma fst_enumerate: "map fst (enumerate n xs) = [n..<n + length xs]"
  by (simp add: enumerate_eq_zip)

lemma startup_ids:
  "map fst (map snd (implicit_tcp cfg)) = (case tcp_port (general cfg) of None \<Rightarrow> [] | Some p \<Rightarrow> [EndpointId (length (endpoint cfg))])"
  "map fst (map snd (endpoint_tasks cfg)) = map EndpointId [0..<length (endpoint cfg)]"
proof -
  show "map fst (map snd (implicit_tcp cfg)) = (case tcp_port (general cfg) of None \<Rightarrow> [] | Some p \<Rightarrow> [EndpointId (length (endpoint cfg))])"
    by (simp add: implicit_tcp_def Let_def split: option.split)
  have "map fst (map snd (endpoint_tasks cfg)) = map EndpointId (map fst (enumerate 0 (endpoint cfg)))"
    unfolding endpoint_tasks_def map_map by (rule map_cong) (auto simp: Let_def split: prod.splits)
  then show "map fst (map snd (endpoint_tasks cfg)) = map EndpointId [0..<length (endpoint cfg)]"
    by (simp add: fst_enumerate)
qed

section \<open>Starting a valid configuration\<close>

lemma rotator_interval:
  "t \<in> set (rotator_tasks d) \<Longrightarrow> \<not> task_panics (task_kind t)"
  by (auto simp: rotator_tasks_def split: if_splits)

lemma endpoint_task_runs:
  assumes "well_addressed e"
  shows "\<not> task_panics (endpoint_task ttl ctx e)"
  using assms by (auto simp: well_addressed_def endpoint_task_def baud_of_attempt_def split: endpoint_config.split)

lemma context_of [simp]: "snd (build_endpoint_context i e) = \<lparr>ctx_id = i, ctx_filters = endpoint_filters_of e\<rparr>"
  by (cases e) (simp_all add: build_endpoint_context_def endpoint_filters_of_def)

lemma endpoint_task_list:
  "map (task_kind \<circ> fst) (endpoint_tasks cfg) =
     map (\<lambda>(i, e). endpoint_task (routing_table_ttl_secs (general cfg)) \<lparr>ctx_id = i, ctx_filters = endpoint_filters_of e\<rparr> e)
       (enumerate 0 (endpoint cfg))"
  unfolding endpoint_tasks_def map_map
proof (rule map_cong)
  fix x :: "nat \<times> endpoint_config"
  obtain i e name ctx where "x = (i, e)" "build_endpoint_context i e = (name, ctx)" by (metis surj_pair)
  moreover from this have "ctx = \<lparr>ctx_id = i, ctx_filters = endpoint_filters_of e\<rparr>" using context_of [of i e] by simp
  ultimately show "(task_kind \<circ> fst \<circ> (\<lambda>(i, e). let (name, ctx) = build_endpoint_context i e
      in (\<lparr>task_name = name, task_kind = endpoint_task (routing_table_ttl_secs (general cfg)) ctx e\<rparr>, EndpointId i, name))) x =
    (case x of (i, e) \<Rightarrow> endpoint_task (routing_table_ttl_secs (general cfg)) \<lparr>ctx_id = i, ctx_filters = endpoint_filters_of e\<rparr> e)"
    by simp
qed simp

fun rotator_of :: "task_kind \<Rightarrow> duration list" where
  "rotator_of (Dedup_Rotator interval) = [interval]"
| "rotator_of _ = []"

lemma rotator_of_endpoint [simp]: "rotator_of (endpoint_task ttl ctx e) = []"
  by (simp add: endpoint_task_def split: endpoint_config.split)

lemma rotators:
  "concat (map (rotator_of \<circ> task_kind) (rotator_tasks (concurrent_dedup_new p) @ [updater] @ map fst (implicit_tcp cfg) @
      tlog_tasks cfg @ map fst (endpoint_tasks cfg))) =
    (if is_zero p then [] else [from_millis 100]) @ rotator_of (task_kind updater)"
proof -
  have "concat (map (rotator_of \<circ> task_kind) (map fst (endpoint_tasks cfg))) =
      concat (map rotator_of (map (task_kind \<circ> fst) (endpoint_tasks cfg)))" by (simp add: comp_assoc)
  also have "\<dots> = []" unfolding endpoint_task_list by auto
  finally show ?thesis
    by (auto simp: rotator_tasks_def cd_rotation_interval_def concurrent_dedup_new_def implicit_tcp_def tlog_tasks_def
        is_zero_def time_simps Let_def split: option.split)
qed

text \<open>What a start-up that does not panic returns.\<close>

definition started :: "config \<Rightarrow> orchestrated" where
  "started cfg = (let dedup = concurrent_dedup_new (config_period (general cfg)) in
     \<lparr>tasks = rotator_tasks dedup @ [updater_task (general cfg)] @ map fst (implicit_tcp cfg) @ tlog_tasks cfg @ map fst (endpoint_tasks cfg),
      orch_table = table_run (startup_events cfg), orch_dedup = dedup,
      orch_stats = map snd (implicit_tcp cfg) @ map snd (endpoint_tasks cfg)\<rparr>)"

lemma spawn_all_started:
  "spawn_all cfg = (case create_bus (bus_capacity (general cfg)) of
      Panics \<Rightarrow> Panics
    | Returns _ \<Rightarrow> if wheel_fits (config_period (general cfg)) then Returns (started cfg) else Panics)"
  by (simp add: spawn_all_def started_def startup_table Let_def split: outcome.split)

lemma spawn_all_valid:
  "valid_config cfg \<Longrightarrow> spawn_all cfg = (if wheel_fits (config_period (general cfg)) then Returns (started cfg) else Panics)"
  by (simp add: spawn_all_started valid_config_def create_bus_def USIZE_MAX_def)

lemma endpoint_task_kinds:
  "task_kind ` set (map fst (endpoint_tasks cfg)) =
     (\<lambda>i. endpoint_task (routing_table_ttl_secs (general cfg)) \<lparr>ctx_id = i, ctx_filters = endpoint_filters_of (endpoint cfg ! i)\<rparr>
        (endpoint cfg ! i)) ` {..<length (endpoint cfg)}"
proof -
  have "task_kind ` set (map fst (endpoint_tasks cfg)) = set (map (task_kind \<circ> fst) (endpoint_tasks cfg))"
    by (simp add: image_image)
  also have "\<dots> = (\<lambda>(i, e). endpoint_task (routing_table_ttl_secs (general cfg)) \<lparr>ctx_id = i, ctx_filters = endpoint_filters_of e\<rparr> e) `
      set (enumerate 0 (endpoint cfg))" unfolding endpoint_task_list by simp
  finally show ?thesis by (force simp: in_set_enumerate_eq image_iff)
qed

lemma started_tasks_run:
  assumes v: "valid_config cfg" and t: "t \<in> set (tasks (started cfg))"
  shows "\<not> task_panics (task_kind t)"
proof -
  have "\<not> task_panics (task_kind u)" if "u \<in> set (map fst (endpoint_tasks cfg))" for u
  proof -
    from that endpoint_task_kinds [of cfg] obtain i where "i < length (endpoint cfg)" "task_kind u = endpoint_task
        (routing_table_ttl_secs (general cfg)) \<lparr>ctx_id = i, ctx_filters = endpoint_filters_of (endpoint cfg ! i)\<rparr> (endpoint cfg ! i)"
      by (metis (no_types, lifting) imageE imageI lessThan_iff)
    moreover from v this(1) have "well_addressed (endpoint cfg ! i)" by (simp add: valid_config_def)
    ultimately show ?thesis using endpoint_task_runs by simp
  qed
  then show ?thesis
    using t v rotator_interval
    by (auto simp: started_def updater_task_def is_zero_def time_simps valid_config_def implicit_tcp_def tlog_tasks_def Let_def
        split: option.splits if_splits)
qed

lemma started_endpoint_tasks:
  assumes "i < length (endpoint cfg)"
  shows "\<exists>t \<in> set (tasks (started cfg)). task_kind t = endpoint_task (routing_table_ttl_secs (general cfg))
    \<lparr>ctx_id = i, ctx_filters = endpoint_filters_of (endpoint cfg ! i)\<rparr> (endpoint cfg ! i)"
proof -
  from assms endpoint_task_kinds [of cfg] obtain t where t: "t \<in> set (map fst (endpoint_tasks cfg))"
    "task_kind t = endpoint_task (routing_table_ttl_secs (general cfg))
       \<lparr>ctx_id = i, ctx_filters = endpoint_filters_of (endpoint cfg ! i)\<rparr> (endpoint cfg ! i)"
    by (metis (no_types, lifting) imageE imageI lessThan_iff)
  from t(1) have "t \<in> set (tasks (started cfg))" by (simp add: started_def Let_def)
  with t(2) show ?thesis by blast
qed

lemma started_ids: "distinct (map fst (orch_stats (started cfg)))"
  using startup_ids [of cfg] by (auto simp: started_def Let_def distinct_map inj_on_def split: option.splits)

text \<open>The ids under which the tasks run, and the implicit server.\<close>

fun ids_of :: "task_kind \<Rightarrow> nat list" where
  "ids_of (Tcp_Task ctx address mode) = [ctx_id ctx]"
| "ids_of (Udp_Task ctx address mode ttl timeout) = [ctx_id ctx]"
| "ids_of (Serial_Task ctx device bauds flow) = [ctx_id ctx]"
| "ids_of _ = []"

lemma ids_of_endpoint [simp]: "ids_of (endpoint_task ttl ctx e) = [ctx_id ctx]"
  by (simp add: endpoint_task_def split: endpoint_config.split)

lemma started_run_ids:
  "concat (map (ids_of \<circ> task_kind) (tasks (started cfg))) =
     (if tcp_port (general cfg) = None then [] else [length (endpoint cfg)]) @ [0..<length (endpoint cfg)]"
proof -
  have "concat (map (ids_of \<circ> task_kind) (map fst (endpoint_tasks cfg))) =
      concat (map ids_of (map (task_kind \<circ> fst) (endpoint_tasks cfg)))" by (simp add: comp_assoc)
  also have "\<dots> = map fst (enumerate 0 (endpoint cfg))"
  proof -
    have "concat (map ids_of (map (\<lambda>(i, e). endpoint_task ttl \<lparr>ctx_id = i, ctx_filters = endpoint_filters_of e\<rparr> e) ies)) = map fst ies" for ttl ies
      by (induction ies) auto
    then show ?thesis unfolding endpoint_task_list by simp
  qed
  finally show ?thesis
    by (auto simp: started_def rotator_tasks_def updater_task_def implicit_tcp_def tlog_tasks_def Let_def fst_enumerate split: option.split)
qed

lemma started_implicit:
  "tcp_port (general cfg) = Some port \<Longrightarrow> Tcp_Task \<lparr>ctx_id = length (endpoint cfg), ctx_filters = default_filters\<rparr>
     (''0.0.0.0:'' @ show_nat (unat port)) Server \<in> task_kind ` set (tasks (started cfg))"
  by (simp add: started_def implicit_tcp_def Let_def)

text \<open>
  C30. Starting a valid configuration works and starts what it says, unless the deduplication
  period is so long that its buckets cannot be reserved, which validation lets pass: then the start-up
  panics. Otherwise the bus can be created and no task panics in its first steps; every configured
  endpoint is run by the task built from it under its own index as id; the implicit TCP server listens on
  its port on all addresses, without filters, and runs under the next id; so the tasks run under
  distinct ids, and they are those that the counters are registered for, in the same order; there is a
  rotator exactly when deduplication is on, and it ticks every 100 ms; and the routing table is the
  empty one with the groups and sniffers of the configuration.
\<close>

theorem valid_config_starts:
  assumes "validate cfg = Inr ()"
  shows "if \<not> wheel_fits (config_period (general cfg)) then spawn_all cfg = Panics else
    \<exists>orch. spawn_all cfg = Returns orch \<and>
    (\<forall>t \<in> set (tasks orch). \<not> task_panics (task_kind t)) \<and>
    (\<forall>i < length (endpoint cfg). \<exists>t \<in> set (tasks orch). task_kind t =
       endpoint_task (routing_table_ttl_secs (general cfg)) \<lparr>ctx_id = i, ctx_filters = endpoint_filters_of (endpoint cfg ! i)\<rparr>
         (endpoint cfg ! i)) \<and>
    (\<forall>port. tcp_port (general cfg) = Some port \<longrightarrow>
       Tcp_Task \<lparr>ctx_id = length (endpoint cfg), ctx_filters = default_filters\<rparr> (''0.0.0.0:'' @ show_nat (unat port)) Server
         \<in> task_kind ` set (tasks orch)) \<and>
    concat (map (ids_of \<circ> task_kind) (tasks orch)) =
      (if tcp_port (general cfg) = None then [] else [length (endpoint cfg)]) @ [0..<length (endpoint cfg)] \<and>
    map EndpointId (concat (map (ids_of \<circ> task_kind) (tasks orch))) = map fst (orch_stats orch) \<and>
    distinct (map fst (orch_stats orch)) \<and>
    concat (map (rotator_of \<circ> task_kind) (tasks orch)) =
      (case dedup_period_ms (general cfg) of None \<Rightarrow> [] | Some ms \<Rightarrow> if ms = 0 then [] else [from_millis 100]) \<and>
    orch_table orch = table_run (startup_events cfg)"
proof -
  have v: "valid_config cfg" using assms validate_valid by blast
  have "concat (map (rotator_of \<circ> task_kind) (tasks (started cfg))) =
      (case dedup_period_ms (general cfg) of None \<Rightarrow> [] | Some ms \<Rightarrow> if ms = 0 then [] else [from_millis 100])"
    using rotators [of _ "updater_task (general cfg)" cfg]
    by (simp add: started_def Let_def updater_task_def config_period_def is_zero_def time_simps split: option.splits)
  moreover have "orch_table (started cfg) = table_run (startup_events cfg)" by (simp add: started_def Let_def)
  moreover have "map EndpointId (concat (map (ids_of \<circ> task_kind) (tasks (started cfg)))) = map fst (orch_stats (started cfg))"
    unfolding started_run_ids using startup_ids [of cfg] by (auto simp: started_def Let_def split: option.split)
  ultimately show ?thesis
    using spawn_all_valid [OF v] started_tasks_run [OF v] started_endpoint_tasks started_implicit [of cfg] started_ids started_run_ids [of cfg]
    by (cases "wheel_fits (config_period (general cfg))") simp_all
qed

text \<open>The panic is real: a period of this many milliseconds passes validation.\<close>

lemma long_period_panics:
  assumes "validate cfg = Inr ()" "dedup_period_ms (general cfg) = Some (2 ^ 64 - 1)"
  shows "spawn_all cfg = Panics"
proof -
  have "\<not> wheel_fits (config_period (general cfg))"
    using assms(2) by (simp add: wheel_fits_def config_period_def num_buckets_new is_zero_def time_simps BUCKET_BYTES_def
        usize_try_from_or_max_def USIZE_MAX_def)
  moreover have "valid_config cfg" using assms(1) validate_valid by blast
  ultimately show ?thesis by (simp add: spawn_all_valid)
qed

definition sample_config :: config where
  "sample_config = default_config\<lparr>general := default_general\<lparr>dedup_period_ms := Some 500, tcp_port := Some 5760\<rparr>,
     endpoint := [Udp_Endpoint ''0.0.0.0:14550'' Server 5 default_filters (Some ''a''),
       Tcp_Endpoint ''0.0.0.0:5761'' Server default_filters (Some ''a''),
       Serial_Endpoint ''ttyACM0'' (Auto [57600, 115200]) Flow_None default_filters None]\<rparr>"

lemma sample_config_valid: "validate sample_config = Inr ()"
proof -
  have "claimed_ports (endpoint sample_config) = [(Udp, 14550), (Tcp, 5761)]"
    by (simp add: sample_config_def claimed_ports_def claimed_port_def parse_addr_eval)
  moreover have "well_addressed e" if "e \<in> set (endpoint sample_config)" for e
    using that by (auto simp: sample_config_def well_addressed_def claimed_port_def parse_addr_eval rates_def)
  moreover have "filters_in_range (endpoint_filters_of e)" if "e \<in> set (endpoint sample_config)" for e
    using that by (auto simp: sample_config_def endpoint_filters_of_def filters_in_range_def default_filters_def)
  ultimately show ?thesis
    unfolding validate_valid valid_config_def
    by (simp add: sample_config_def default_config_def default_general_def default_bus_capacity_def
        default_routing_table_prune_interval_secs_def)
qed

lemma sample_wheel_fits: "wheel_fits (config_period (general sample_config))"
  by (simp add: sample_config_def config_period_def wheel_fits_def num_buckets_new is_zero_def time_simps BUCKET_BYTES_def
        usize_try_from_or_max_def USIZE_MAX_def)

lemma sample_fits: "\<not> \<not> wheel_fits (config_period (general sample_config))"
  using sample_wheel_fits by simp

theorem valid_config_starts_witness:
  "\<exists>orch. spawn_all sample_config = Returns orch \<and> (\<forall>t \<in> set (tasks orch). \<not> task_panics (task_kind t)) \<and>
    map fst (orch_stats orch) = [EndpointId 3, EndpointId 0, EndpointId 1, EndpointId 2]"
proof -
  from valid_config_starts [OF sample_config_valid, unfolded if_not_P [OF sample_fits]] obtain orch where
    runs: "spawn_all sample_config = Returns orch" "\<forall>t \<in> set (tasks orch). \<not> task_panics (task_kind t)" and
    ids: "concat (map (ids_of \<circ> task_kind) (tasks orch)) =
      (if tcp_port (general sample_config) = None then [] else [length (endpoint sample_config)]) @ [0..<length (endpoint sample_config)]"
    "map EndpointId (concat (map (ids_of \<circ> task_kind) (tasks orch))) = map fst (orch_stats orch)" by blast
  have "map fst (orch_stats orch) = [EndpointId 3, EndpointId 0, EndpointId 1, EndpointId 2]"
    unfolding ids(2) [symmetric] unfolding ids(1) by (simp add: sample_config_def upt_rec)
  with runs show ?thesis by (intro exI conjI)
qed

section \<open>Groups and TCP servers\<close>

lemma group_of_none: "(\<And>grp. Set_Group ep grp \<notin> set evs) \<Longrightarrow> group_of evs ep = None"
proof -
  have "(\<And>grp. Set_Group ep grp \<notin> set evs) \<Longrightarrow>
      fold (\<lambda>ev g. case ev of Set_Group e grp \<Rightarrow> (if e = ep then Some grp else g) | _ \<Rightarrow> g) evs g = g" for g
    by (induction evs arbitrary: g) (auto split: table_event.split)
  then show "(\<And>grp. Set_Group ep grp \<notin> set evs) \<Longrightarrow> group_of evs ep = None" by (simp add: group_of_def)
qed

lemma startup_groups: "Set_Group ep grp \<in> set (startup_events cfg) \<Longrightarrow> \<exists>i < length (endpoint cfg). ep = EndpointId i"
  by (auto simp: startup_events_def in_set_enumerate_eq split: option.splits if_splits)

end
