(* ===== verification/System.thy ===== *)
theory System
  imports Stream_Steps Updater Udp Tcp End_To_End Orchestration
begin

text \<open>
  The running router: the endpoints that \<open>spawn_all\<close> started from the configuration, the clients that its
  TCP servers accept, the routing updater and the dedup rotator, interleaved step by step over the
  shared state that it created. An endpoint may step in any order, be started again at any time, and a client that
  has left may still step; so the runs include those of the code. Every step uses the functions of the theories of the parts, and does to the
  shared state what the hub steps in its label do; so what is shown of the runs of \<open>Hub\<close> holds for
  the router.
\<close>

section \<open>What the parts do to the shared state\<close>

definition send_event :: "endpoint_core \<Rightarrow> byte list \<Rightarrow> io_error option \<Rightarrow> hub_event" where
  "send_event core packet result =
     (case result of None \<Rightarrow> Wrote (core_id core) (of_nat (length packet)) | Some e \<Rightarrow> Write_Failed (core_id core))"

fun udp_events :: "mavlink_lib \<Rightarrow> udp_conf \<Rightarrow> endpoint_core \<Rightarrow> udp_event \<Rightarrow> udp_state \<times> hub \<Rightarrow> hub_event list" where
  "udp_events L cfg core (Datagram seen noted addr buf env) s =
     (case datagram_frame L buf of Some frame \<Rightarrow> [Ingress env core frame] | None \<Rightarrow> [])"
| "udp_events L cfg core Recv_Failed s = [Write_Failed (core_id core)]"
| "udp_events L cfg core (Bus_Msg now msg results) (u, h) =
     (if check_outgoing core (hub_table h) msg
      then map (send_event core (serialized_bytes msg)) (outcomes (length (udp_targets cfg now u)) results) else [])"
| "udp_events L cfg core (Bus_Lagged n) s = [Lagged_Behind (core_id core) n]"
| "udp_events L cfg core (Cleanup now) s = []"

lemma send_to_hub: "snd (send_to core packet addr r s) = hub_step L (send_event core packet r) (snd s)"
  by (cases r) (simp_all add: send_to_def send_event_def count_io_error_def split_beta)

lemma send_all_hub:
  "snd (send_all core packet addrs rs s) = hub_run L (map (send_event core packet) (outcomes (length addrs) rs)) (snd s)"
  by (induction core packet addrs rs s rule: send_all.induct) (simp_all add: send_to_hub [where L = L])

lemma udp_step_hub: "snd (udp_step L cfg core ev (u, h)) = hub_run L (udp_events L cfg core ev (u, h)) h"
  by (cases ev) (auto simp: udp_receive_def udp_send_def count_io_error_def Let_def send_all_hub [where L = L] split: option.split)

text \<open>
  A step of a stream endpoint's writer (theory \<open>Stream_Steps\<close>), on its counters in the shared state. The outcomes of
  the write and of the flush that it makes are \<open>io\<close>; those that are not given are successes.
\<close>

definition flush_events :: "endpoint_core \<Rightarrow> io_error option list \<Rightarrow> hub_event list" where
  "flush_events core io = (case io of Some e # _ \<Rightarrow> [Write_Failed (core_id core)] | _ \<Rightarrow> [])"

fun ends_batch :: "writer_phase \<Rightarrow> bool" where
  "ends_batch (In_Batch n) = (n = 0)"
| "ends_batch _ = False"

definition writer_events :: "endpoint_core \<Rightarrow> routing_table \<Rightarrow> poll_result \<Rightarrow> writer_phase \<Rightarrow> io_error option list \<Rightarrow> hub_event list" where
  "writer_events core t p ph io =
     (case p of
        Poll_Msg m \<Rightarrow>
          if check_outgoing core t m
          then (case io of
              [] \<Rightarrow> [send_event core (serialized_bytes m) None]
            | r # rs \<Rightarrow> send_event core (serialized_bytes m) r # (if r = None \<and> ends_batch ph then flush_events core rs else []))
          else if ends_batch ph then flush_events core io else []
      | Poll_Lagged n \<Rightarrow> Lagged_Behind (core_id core) n # (if ends_batch ph then flush_events core io else [])
      | Poll_Empty \<Rightarrow> if \<exists>n. ph = In_Batch n then flush_events core io else []
      | Poll_Closed \<Rightarrow> [])"

definition writer_at :: "hub \<Rightarrow> endpoint_core \<Rightarrow> io_error option list \<Rightarrow> writer \<Rightarrow> writer" where
  "writer_at h core io w = w\<lparr>wr_stats := hub_stats h (core_id core), wr_io := io\<rparr>"

definition with_stats :: "hub \<Rightarrow> endpoint_core \<Rightarrow> writer \<Rightarrow> hub" where
  "with_stats h core w = h\<lparr>hub_stats := (hub_stats h)(core_id core := wr_stats w)\<rparr>"

lemma with_stats_keep [simp]: "with_stats h core (w\<lparr>wr_flushed := n\<rparr>) = with_stats h core w"
  "with_stats h core (w\<lparr>wr_io := io\<rparr>) = with_stats h core w"
  by (simp_all add: with_stats_def)

lemma end_batch_hub:
  assumes "end_batch name w = (ph', w')" "with_stats h core w = h'"
  shows "with_stats h core w' = hub_run L (flush_events core (wr_io w)) h'"
  using assms
  by (auto simp: end_batch_def flush_writer_def next_io_def count_error_def flush_events_def edit_stats_def with_stats_def
      split: list.splits option.splits)

lemma batch_on_hub:
  assumes "batch_on name n w = (ph', w')" "with_stats h core w = h'"
  shows "with_stats h core w' = hub_run L (if n = 0 then flush_events core (wr_io w) else []) h'"
  using assms end_batch_hub [of name w ph' w' h core h' L] by (cases n) auto

lemma write_on_hub:
  assumes "write_on name n m (writer_at h core io w) = (ph', w')"
  shows "with_stats h core w' = hub_run L (case io of
      [] \<Rightarrow> [send_event core (serialized_bytes m) None]
    | r # rs \<Rightarrow> send_event core (serialized_bytes m) r # (if r = None \<and> n = 0 then flush_events core rs else [])) h"
proof -
  let ?sent = "\<lambda>rs. writer_at h core rs w\<lparr>wr_bytes := wr_bytes w @ serialized_bytes m,
      wr_stats := record_outgoing (of_nat (length (serialized_bytes m))) (hub_stats h (core_id core))\<rparr>"
  have sent: "with_stats h core (?sent rs) = hub_step L (send_event core (serialized_bytes m) None) h" for rs
    by (simp add: with_stats_def send_event_def edit_stats_def)
  show ?thesis
  proof (cases io)
    case Nil
    with assms have "batch_on name n (?sent []) = (ph', w')"
      by (simp add: write_on_def send_message_def next_io_def writer_at_def)
    from batch_on_hub [OF this sent, of L] Nil show ?thesis by (simp add: writer_at_def flush_events_def)
  next
    case (Cons r rs)
    show ?thesis
    proof (cases r)
      case None
      with assms Cons have "batch_on name n (?sent rs) = (ph', w')"
        by (simp add: write_on_def send_message_def next_io_def writer_at_def)
      from batch_on_hub [OF this sent, of L] Cons None show ?thesis by (simp add: writer_at_def)
    next
      case (Some e)
      with assms Cons show ?thesis
        by (auto simp: write_on_def send_message_def next_io_def writer_at_def count_error_def send_event_def with_stats_def
            edit_stats_def)
    qed
  qed
qed

lemma writer_step_hub:
  assumes "writer_step core name \<lparr>poll_res = p, poll_table = hub_table h, poll_cancelled = False\<rparr> (ph, writer_at h core io w) = (ph', w')"
    and "\<And>r. ph \<noteq> Left_Loop r"
  shows "with_stats h core w' = hub_run L (writer_events core (hub_table h) p ph io) h"
proof -
  have same: "with_stats h core (writer_at h core io w) = h" by (simp add: with_stats_def writer_at_def)
  have lag: "with_stats h core (count_lagged n (writer_at h core io w)) = hub_step L (Lagged_Behind (core_id core) n) h" for n
    by (simp add: with_stats_def writer_at_def count_lagged_def edit_stats_def)
  have io [simp]: "wr_io (writer_at h core io w) = io" "wr_io (count_lagged n (writer_at h core io w)) = io" for n
    by (simp_all add: writer_at_def count_lagged_def)
  show ?thesis
  proof (cases ph)
    case Parked
    show ?thesis
    proof (cases p)
      case (Poll_Msg m)
      with assms(1) Parked same write_on_hub [of name BATCH_SIZE m h core io w ph' w' L] show ?thesis
        by (cases "check_outgoing core (hub_table h) m") (auto simp: writer_events_def BATCH_SIZE_def split: list.split)
    qed (use assms(1) Parked same lag in \<open>auto simp: writer_events_def\<close>)
  next
    case (In_Batch n)
    show ?thesis
    proof (cases p)
      case (Poll_Msg m)
      show ?thesis
      proof (cases "check_outgoing core (hub_table h) m")
        case True
        with assms(1) In_Batch Poll_Msg write_on_hub [of name n m h core io w ph' w' L] show ?thesis
          by (simp add: writer_events_def ends_batch.simps cong: list.case_cong)
      next
        case False
        with assms(1) In_Batch Poll_Msg batch_on_hub [OF _ same, of name n ph' w' L] show ?thesis
          by (simp add: writer_events_def)
      qed
    next
      case (Poll_Lagged k)
      with assms(1) In_Batch batch_on_hub [OF _ lag, of name n k ph' w' L] show ?thesis by (simp add: writer_events_def)
    next
      case Poll_Empty
      with assms(1) In_Batch end_batch_hub [OF _ same, of name ph' w' L] show ?thesis by (simp add: writer_events_def)
    qed (use assms(1) In_Batch same in \<open>simp add: writer_events_def\<close>)
  qed (use assms(2) in simp)
qed

lemma writer_events_quiet: "ev \<in> set (writer_events core t p ph io) \<Longrightarrow> \<not> by_updater ev"
  by (auto simp: writer_events_def by_updater_def flush_events_def send_event_def split: poll_result.splits list.splits option.splits if_splits)

section \<open>Receivers of the bus\<close>

text \<open>
  The receiver of an endpoint, by the documented contract of the broadcast channel: where in the log of
  the bus it began and how far it has come, with the reading of the lag counter when it began.
\<close>

record receiver =
  rx_from :: nat
  rx_next :: nat
  rx_lag :: u64

definition rx_new :: receiver where
  "rx_new = \<lparr>rx_from = 0, rx_next = 0, rx_lag = 0\<rparr>"

definition rx_poll :: "routed_message list \<Rightarrow> poll_result \<Rightarrow> receiver \<Rightarrow> receiver option" where
  "rx_poll bus p rx =
     (case p of
        Poll_Msg m \<Rightarrow> if rx_next rx < length bus \<and> bus ! rx_next rx = m then Some (rx\<lparr>rx_next := rx_next rx + 1\<rparr>) else None
      | Poll_Lagged n \<Rightarrow> if rx_next rx + unat n \<le> length bus then Some (rx\<lparr>rx_next := rx_next rx + unat n\<rparr>) else None
      | Poll_Empty \<Rightarrow> Some rx
      | Poll_Closed \<Rightarrow> None)"

text \<open>It is the contract that \<open>reads\<close> checks, one poll at a time; the bus is open while the router runs.\<close>

lemma rx_poll_reads:
  assumes "p \<noteq> Poll_Closed" "rx_next rx \<le> length bus"
  shows "map_option (\<lambda>rx'. drop (rx_next rx') bus) (rx_poll bus p rx) = reads [p] (drop (rx_next rx) bus)"
proof (cases p)
  case (Poll_Msg m)
  show ?thesis
  proof (cases "rx_next rx < length bus")
    case True
    then show ?thesis using Poll_Msg Cons_nth_drop_Suc [OF True] by (auto simp: rx_poll_def split: list.split)
  qed (use Poll_Msg in \<open>simp add: rx_poll_def\<close>)
qed (use assms in \<open>auto simp: rx_poll_def add.commute\<close>)

fun udp_poll :: "udp_event \<Rightarrow> poll_result" where
  "udp_poll (Bus_Msg now msg results) = Poll_Msg msg"
| "udp_poll (Bus_Lagged n) = Poll_Lagged n"
| "udp_poll ev = Poll_Empty"

text \<open>
  What an endpoint is handed by the bus since it subscribed, each message with the state that the endpoint finds at
  that moment: the script that it works off. Nothing here is an output.
\<close>

datatype turn =
    Udp_Turn endpoint_core routing_table udp_conf instant udp_state routed_message
  | Stream_Turn endpoint_core routing_table routed_message

fun turn_message :: "turn \<Rightarrow> routed_message" where
  "turn_message (Udp_Turn core t cfg now u m) = m"
| "turn_message (Stream_Turn core t m) = m"

fun turn_core :: "turn \<Rightarrow> endpoint_core" where
  "turn_core (Udp_Turn core t cfg now u m) = core"
| "turn_core (Stream_Turn core t m) = core"

fun udp_turns :: "udp_conf \<Rightarrow> endpoint_core \<Rightarrow> udp_event \<Rightarrow> udp_state \<times> hub \<Rightarrow> turn list" where
  "udp_turns cfg core (Bus_Msg now msg results) (u, h) = [Udp_Turn core (hub_table h) cfg now u msg]"
| "udp_turns cfg core ev s = []"

definition stream_turns :: "endpoint_core \<Rightarrow> poll_result \<Rightarrow> hub \<Rightarrow> turn list" where
  "stream_turns core p h = (case p of Poll_Msg m \<Rightarrow> [Stream_Turn core (hub_table h) m] | _ \<Rightarrow> [])"

section \<open>Endpoints\<close>

text \<open>Which endpoints there are, by the tasks of the start-up and the clients that were accepted.\<close>

definition kinds :: "orchestrated \<Rightarrow> task_kind set" where
  "kinds orch = task_kind ` set (tasks orch)"

definition udp_core :: "orchestrated \<Rightarrow> endpoint_core \<Rightarrow> bool" where
  "udp_core orch core \<longleftrightarrow> (\<exists>ctx address mode ttl timeout.
     Udp_Task ctx address mode ttl timeout \<in> kinds orch \<and> core = endpoint_core_of True ctx)"

text \<open>The endpoints with a stream of their own: serial ports and TCP clients.\<close>

definition link_core :: "orchestrated \<Rightarrow> endpoint_core \<Rightarrow> bool" where
  "link_core orch core \<longleftrightarrow>
     (\<exists>ctx device bauds flow. Serial_Task ctx device bauds flow \<in> kinds orch \<and> core = endpoint_core_of True ctx) \<or>
     (\<exists>ctx address. Tcp_Task ctx address Client \<in> kinds orch \<and> core = endpoint_core_of True ctx)"

definition stream_core :: "orchestrated \<Rightarrow> tcp_state \<Rightarrow> endpoint_core \<Rightarrow> bool" where
  "stream_core orch t core \<longleftrightarrow> link_core orch core \<or> core \<in> snd ` set (spawned t)"

definition live_core :: "orchestrated \<Rightarrow> tcp_state \<Rightarrow> endpoint_core \<Rightarrow> bool" where
  "live_core orch t core \<longleftrightarrow> udp_core orch core \<or> stream_core orch t core"

section \<open>Steps of the router\<close>

text \<open>
  \<open>sys_conf\<close> is the set-up of a running UDP endpoint, \<open>sys_tcp\<close> the clients of the TCP servers, \<open>sys_taken\<close> the number
  of client ids that went to others, routers that ran before in the process or run beside this one.
  The rest is what each endpoint holds: the parser's buffer, where its writer waits and what
  that has taken, and its receiver with what it was handed.
\<close>

record system =
  sys_hub :: hub
  sys_conf :: "endpoint_id \<Rightarrow> udp_conf option"
  sys_udp :: "endpoint_id \<Rightarrow> udp_state"
  sys_tcp :: tcp_state
  sys_taken :: nat
  sys_buffer :: "endpoint_id \<Rightarrow> byte list"
  sys_phase :: "endpoint_id \<Rightarrow> writer_phase"
  sys_writer :: "endpoint_id \<Rightarrow> writer"
  sys_rx :: "endpoint_id \<Rightarrow> receiver"
  sys_turns :: "endpoint_id \<Rightarrow> turn list"

abbreviation sys_bus :: "system \<Rightarrow> routed_message list" where
  "sys_bus s \<equiv> hub_bus (sys_hub s)"

abbreviation egress :: "endpoint_core \<Rightarrow> system \<Rightarrow> routed_message \<Rightarrow> bool" where
  "egress core s \<equiv> check_outgoing core (hub_table (sys_hub s))"

text \<open>
  A start of an endpoint, or a new connection: it subscribes behind the last message, and begins with a parser, a
  buffered writer and a client table of its own.
\<close>

definition begin_anew :: "endpoint_id \<Rightarrow> system \<Rightarrow> system" where
  "begin_anew ep s = s\<lparr>
     sys_udp := (sys_udp s)(ep := udp_new), sys_buffer := (sys_buffer s)(ep := parser_new),
     sys_phase := (sys_phase s)(ep := Parked), sys_writer := (sys_writer s)(ep := writer_new),
     sys_rx := (sys_rx s)(ep := \<lparr>rx_from = length (sys_bus s), rx_next = length (sys_bus s), rx_lag = bus_lagged (hub_stats (sys_hub s) ep)\<rparr>),
     sys_turns := (sys_turns s)(ep := [])\<rparr>"

text \<open>
  The label of a step is the list of hub steps that it stands for. The reader of a stream endpoint
  appends a read and takes one frame at a time; its writer takes one poll. An endpoint that is started again, or a
  connection that is opened, subscribes to the bus anew. The updater and the rotator step with the
  parameters of their tasks. Elsewhere in the process, other routers may accept clients.
\<close>

inductive system_step :: "mavlink_lib \<Rightarrow> orchestrated \<Rightarrow> system \<Rightarrow> hub_event list \<Rightarrow> system \<Rightarrow> bool"
  for L orch where
  udp_start: "Udp_Task ctx address mode ttl timeout \<in> kinds orch \<Longrightarrow> udp_setup env address mode ttl timeout = Inr cfg \<Longrightarrow>
    ep = EndpointId (ctx_id ctx) \<Longrightarrow>
    system_step L orch s [] (begin_anew ep (s\<lparr>sys_conf := (sys_conf s)(ep := Some cfg)\<rparr>))"
| udp: "udp_core orch core \<Longrightarrow> sys_conf s (core_id core) = Some cfg \<Longrightarrow>
    udp_step L cfg core ev (sys_udp s (core_id core), sys_hub s) = (u, h) \<Longrightarrow>
    rx_poll (sys_bus s) (udp_poll ev) (sys_rx s (core_id core)) = Some rx \<Longrightarrow>
    system_step L orch s (udp_events L cfg core ev (sys_udp s (core_id core), sys_hub s))
      (s\<lparr>sys_udp := (sys_udp s)(core_id core := u), sys_hub := h, sys_rx := (sys_rx s)(core_id core := rx),
         sys_turns := (sys_turns s)(core_id core := sys_turns s (core_id core) @ udp_turns cfg core ev (sys_udp s (core_id core), sys_hub s))\<rparr>)"
| tcp_accepted: "Tcp_Task ctx address Server \<in> kinds orch \<Longrightarrow>
    tcp_step (Accepted (ctx_id ctx) (endpoint_core_of True ctx)) (sys_tcp s) = t \<Longrightarrow>
    spawned t = spawned (sys_tcp s) @ [(ctx_id ctx, client)] \<Longrightarrow>
    system_step L orch s [] (begin_anew (core_id client) (s\<lparr>sys_tcp := t\<rparr>))"
| tcp_left: "system_step L orch s [] (s\<lparr>sys_tcp := tcp_step (Joined server client) (sys_tcp s)\<rparr>)"
| tcp_elsewhere: "system_step L orch s []
    (s\<lparr>sys_tcp := (sys_tcp s)\<lparr>next_tcp_client_id := wrapping_add (next_tcp_client_id (sys_tcp s)) n\<rparr>, sys_taken := sys_taken s + n\<rparr>)"
| stream_start: "link_core orch core \<Longrightarrow> system_step L orch s [] (begin_anew (core_id core) s)"
| stream_read: "stream_core orch (sys_tcp s) core \<Longrightarrow>
    system_step L orch s [] (s\<lparr>sys_buffer := (sys_buffer s)(core_id core := push (sys_buffer s (core_id core)) chunk)\<rparr>)"
| stream_frame: "stream_core orch (sys_tcp s) core \<Longrightarrow> parse_next L (sys_buffer s (core_id core)) = Returns (Some frame, rest) \<Longrightarrow>
    system_step L orch s [Ingress env core frame]
      (s\<lparr>sys_buffer := (sys_buffer s)(core_id core := rest), sys_hub := handle_incoming_frame L env core frame (sys_hub s)\<rparr>)"
| stream_poll: "stream_core orch (sys_tcp s) core \<Longrightarrow> (\<And>r. sys_phase s (core_id core) \<noteq> Left_Loop r) \<Longrightarrow>
    rx_poll (sys_bus s) p (sys_rx s (core_id core)) = Some rx \<Longrightarrow>
    writer_step core name \<lparr>poll_res = p, poll_table = hub_table (sys_hub s), poll_cancelled = False\<rparr>
      (sys_phase s (core_id core), writer_at (sys_hub s) core io (sys_writer s (core_id core))) = (ph, w) \<Longrightarrow>
    system_step L orch s (writer_events core (hub_table (sys_hub s)) p (sys_phase s (core_id core)) io)
      (s\<lparr>sys_hub := with_stats (sys_hub s) core w, sys_phase := (sys_phase s)(core_id core := ph),
         sys_writer := (sys_writer s)(core_id core := w), sys_rx := (sys_rx s)(core_id core := rx),
         sys_turns := (sys_turns s)(core_id core := sys_turns s (core_id core) @ stream_turns core p (sys_hub s))\<rparr>)"
| updater: "Routing_Updater prune_ttl interval \<in> kinds orch \<Longrightarrow>
    updater_loop L prune_ttl [([], p)] (sys_hub s) = (Updater_Waiting, h) \<Longrightarrow>
    system_step L orch s
      (if hub_routes_tx (sys_hub s) \<noteq> [] then [Updater_Batch (up_clock p)]
       else case up_tick p of Some clk \<Rightarrow> [Updater_Prune clk prune_ttl] | None \<Rightarrow> [])
      (s\<lparr>sys_hub := h\<rparr>)"
| rotator: "Dedup_Rotator interval \<in> kinds orch \<Longrightarrow> rotator_loop L [([], False)] (sys_hub s) = (ended, h) \<Longrightarrow>
    system_step L orch s [Rotate_Dedup] (s\<lparr>sys_hub := h\<rparr>)"

inductive_cases system_stepE: "system_step L orch s evs s'"

text \<open>The reachable states, each with the hub steps that led to it.\<close>

inductive reaches :: "mavlink_lib \<Rightarrow> orchestrated \<Rightarrow> system \<Rightarrow> hub_event list \<Rightarrow> system \<Rightarrow> bool"
  for L orch s where
  here: "reaches L orch s [] s"
| onward: "reaches L orch s evs s' \<Longrightarrow> system_step L orch s' evs' s'' \<Longrightarrow> reaches L orch s (evs @ evs') s''"

text \<open>The start, in a process in which \<open>taken\<close> client ids were given out before, by routers that ran until a reload or run beside.\<close>

definition system_start :: "nat \<Rightarrow> orchestrated \<Rightarrow> system" where
  "system_start taken orch = \<lparr>sys_hub = \<lparr>hub_dedup = orch_dedup orch, hub_table = orch_table orch, hub_routes_tx = [], hub_bus = [],
     hub_stats = (\<lambda>_. endpoint_stats_new)\<rparr>, sys_conf = (\<lambda>_. None), sys_udp = (\<lambda>_. udp_new), sys_tcp = tcp_taken taken,
     sys_taken = taken, sys_buffer = (\<lambda>_. parser_new), sys_phase = (\<lambda>_. Parked), sys_writer = (\<lambda>_. writer_new),
     sys_rx = (\<lambda>_. rx_new), sys_turns = (\<lambda>_. [])\<rparr>"

lemma begin_anew_simps [simp]:
  "sys_hub (begin_anew ep s) = sys_hub s" "sys_tcp (begin_anew ep s) = sys_tcp s" "sys_taken (begin_anew ep s) = sys_taken s"
  "sys_udp (begin_anew ep s) ep' = (if ep' = ep then udp_new else sys_udp s ep')"
  "sys_phase (begin_anew ep s) ep' = (if ep' = ep then Parked else sys_phase s ep')"
  "sys_writer (begin_anew ep s) ep' = (if ep' = ep then writer_new else sys_writer s ep')"
  "sys_buffer (begin_anew ep s) ep' = (if ep' = ep then parser_new else sys_buffer s ep')"
  "sys_rx (begin_anew ep s) ep' = (if ep' = ep then \<lparr>rx_from = length (sys_bus s), rx_next = length (sys_bus s),
     rx_lag = bus_lagged (hub_stats (sys_hub s) ep)\<rparr> else sys_rx s ep')"
  "sys_turns (begin_anew ep s) ep' = (if ep' = ep then [] else sys_turns s ep')"
  by (simp_all add: begin_anew_def)

section \<open>The router refines its specification\<close>

lemma system_step_hub: "system_step L orch s evs s' \<Longrightarrow> sys_hub s' = hub_run L evs (sys_hub s)"
proof (induction rule: system_step.induct)
  case (udp core s cfg ev u h rx)
  with udp_step_hub [of L cfg core ev "sys_udp s (core_id core)" "sys_hub s"] show ?case by simp
next
  case (stream_poll s core p rx name io ph w)
  from writer_step_hub [OF stream_poll(4,2), of L] show ?case by simp
qed (auto simp: Let_def split: if_splits option.splits)

lemma reaches_hub: "reaches L orch s evs s' \<Longrightarrow> sys_hub s' = hub_run L evs (sys_hub s)"
  by (induction rule: reaches.induct) (simp_all add: system_step_hub)

text \<open>A step prunes only on an empty queue.\<close>

lemma settled_system_step:
  assumes "system_step L orch s evs s'" "rt_ok (hub_table (sys_hub s))"
  shows "settled (sys_hub s') = fold take_effect (effects L evs (sys_hub s)) (settled (sys_hub s))"
proof (cases "\<exists>ev \<in> set evs. by_updater ev")
  case False
  then show ?thesis unfolding system_step_hub [OF assms(1)] using assms(2) by (intro settled_run) auto
next
  case True
  have "\<exists>ev. evs = [ev] \<and> (\<forall>clk ttl. ev = Updater_Prune clk ttl \<longrightarrow> hub_routes_tx (sys_hub s) = [])"
    using assms(1) True
  proof cases
    case (udp core cfg ev u h rx)
    with True show ?thesis
      by (cases ev) (auto simp: by_updater_def send_event_def split: option.splits if_splits)
  next
    case (stream_poll core p rx name io ph w)
    with True writer_events_quiet show ?thesis by metis
  qed (auto simp: by_updater_def send_event_def split: option.splits if_splits)
  then obtain ev where "evs = [ev]" "\<forall>clk ttl. ev = Updater_Prune clk ttl \<longrightarrow> hub_routes_tx (sys_hub s) = []" by blast
  with settled_step [OF assms(2), of ev L] system_step_hub [OF assms(1)] show ?thesis by simp
qed

lemma settled_reaches:
  "reaches L orch s evs s' \<Longrightarrow> rt_ok (hub_table (sys_hub s)) \<Longrightarrow>
     settled (sys_hub s') = fold take_effect (effects L evs (sys_hub s)) (settled (sys_hub s))"
proof (induction rule: reaches.induct)
  case (onward evs s' evs' s'')
  have "rt_ok (hub_table (sys_hub s'))"
    unfolding reaches_hub [OF onward.hyps(1)] by (rule rt_ok_hub_run [OF onward.prems])
  from settled_system_step [OF onward.hyps(2) this] onward show ?case
    by (simp add: effects_append reaches_hub [OF onward.hyps(1)])
qed simp

lemma started_hub:
  "spawn_all cfg = Returns orch \<Longrightarrow>
     sys_hub (system_start taken orch) = hub_new (config_period (general cfg)) (table_run (startup_events cfg))"
  by (auto simp: spawn_all_started started_def system_start_def hub_new_def Let_def split: outcome.splits if_splits)

lemma system_egress:
  assumes "spawn_all cfg = Returns orch" "reaches L orch (system_start taken orch) evs s"
  shows "egress core s m = spec_outgoing (startup_events cfg) core m (abs_hub (sys_hub s))"
proof -
  have "sys_hub s = hub_run L evs (hub_new (config_period (general cfg)) (table_run (startup_events cfg)))"
    using reaches_hub [OF assms(2)] started_hub [OF assms(1)] by simp
  with run_refines_spec [OF hub_start(1), of "config_period (general cfg)" "startup_events cfg" L evs]
  show ?thesis by (intro egress_refines) (simp_all add: hub_invar_def view_abs)
qed

text \<open>
  C2. The router implements its specification. Start any configuration that can be started, and let its UDP
  and stream endpoints, its TCP clients, its updater and its rotator take any steps: datagrams and
  reads in any cut, frames, sends and their failures, lost messages, restarts of endpoints. Then the shared state
  is what the abstract router holds after the labels of the steps; every egress decision is the
  abstract one over the configured groups and sniffers; the state is well formed; and the table with
  the queued updates applied is that of a router that learns and prunes without delay.
\<close>
theorem system_refines:
  assumes "spawn_all cfg = Returns orch" "reaches L orch (system_start taken orch) evs s"
  shows "abs_hub (sys_hub s) = spec_run L (window_of (config_period (general cfg))) evs (spec_new (startup_events cfg)) \<and>
    check_outgoing core (hub_table (sys_hub s)) m = spec_outgoing (startup_events cfg) core m (abs_hub (sys_hub s)) \<and>
    hub_typed (config_period (general cfg)) (sys_hub s) \<and>
    settled (sys_hub s) = fold take_effect (effects L evs (sys_hub (system_start taken orch))) (flat_run (startup_events cfg))"
proof -
  let ?p = "config_period (general cfg)" and ?t = "table_run (startup_events cfg)"
  have h: "sys_hub s = hub_run L evs (hub_new ?p ?t)"
    using reaches_hub [OF assms(2)] started_hub [OF assms(1)] by simp
  note run = run_refines_spec [OF hub_start(1), of ?p "startup_events cfg" L evs, unfolded hub_start(2) h [symmetric]]
  note system_egress [OF assms, of core m]
  moreover have "hub_typed ?p (sys_hub s)" unfolding h by (rule hub_typed_run)
  moreover have "settled (sys_hub s) = fold take_effect (effects L evs (sys_hub (system_start taken orch))) (flat_run (startup_events cfg))"
    using settled_reaches [OF assms(2)] by (simp add: started_hub [OF assms(1)] settled_def hub_new_def view_run)
  ultimately show ?thesis using run by blast
qed

section \<open>The tasks of the start-up\<close>

abbreviation ctx_of :: "config \<Rightarrow> nat \<Rightarrow> spawn_context" where
  "ctx_of cfg i \<equiv> \<lparr>ctx_id = i, ctx_filters = endpoint_filters_of (endpoint cfg ! i)\<rparr>"

lemma kinds_endpoint:
  "i < length (endpoint cfg) \<Longrightarrow>
     endpoint_task (routing_table_ttl_secs (general cfg)) (ctx_of cfg i) (endpoint cfg ! i) \<in> kinds (started cfg)"
  using started_endpoint_tasks [of i cfg] by (force simp: kinds_def)

lemma kinds_rotator: "\<not> is_zero (config_period (general cfg)) \<Longrightarrow> Dedup_Rotator (from_millis 100) \<in> kinds (started cfg)"
  by (auto simp: kinds_def started_def rotator_tasks_def cd_rotation_interval_def concurrent_dedup_new_def is_zero_def time_simps Let_def)

text \<open>The context of a task: that of a configured endpoint, or, for a TCP server, that of the implicit one.\<close>

fun task_ctx :: "task_kind \<Rightarrow> spawn_context option" where
  "task_ctx (Udp_Task ctx address mode ttl timeout) = Some ctx"
| "task_ctx (Serial_Task ctx device bauds flow) = Some ctx"
| "task_ctx (Tcp_Task ctx address mode) = (if mode = Client then Some ctx else None)"
| "task_ctx _ = None"

lemma task_ctx_endpoint: "task_ctx (endpoint_task ttl ctx e) = Some ctx' \<Longrightarrow> ctx' = ctx"
  by (auto simp: endpoint_task_def split: endpoint_config.splits if_splits)

lemma kinds_started:
  assumes "k \<in> kinds (started cfg)" "task_ctx k = Some ctx"
  shows "\<exists>i < length (endpoint cfg). ctx = ctx_of cfg i"
proof -
  have "k \<in> task_kind ` set (map fst (endpoint_tasks cfg))"
    using assms
    by (auto simp: kinds_def started_def rotator_tasks_def updater_task_def implicit_tcp_def tlog_tasks_def Let_def
        split: option.splits if_splits)
  with assms(2) show ?thesis unfolding endpoint_task_kinds by (auto dest: task_ctx_endpoint)
qed

lemma live_cases:
  assumes "live_core (started cfg) t core"
  obtains (configured) i where "i < length (endpoint cfg)" "core = endpoint_core_of True (ctx_of cfg i)"
    | (client) server where "(server, core) \<in> set (spawned t)"
proof (cases "core \<in> snd ` set (spawned t)")
  case True
  then show thesis using client by auto
next
  case False
  then have "udp_core (started cfg) core \<or> link_core (started cfg) core"
    using assms by (simp add: live_core_def stream_core_def)
  then have "\<exists>k ctx. k \<in> kinds (started cfg) \<and> task_ctx k = Some ctx \<and> core = endpoint_core_of True ctx"
    unfolding udp_core_def link_core_def using task_ctx.simps(1-3) by metis
  then show thesis using kinds_started configured by blast
qed

section \<open>A sample run\<close>

lemma sample_started: "spawn_all sample_config = Returns (started sample_config)"
  using spawn_all_valid [OF sample_config_valid [unfolded validate_valid]] sample_fits by simp

lemma sample_serial: "link_core (started sample_config) (sample_core 2)"
proof -
  have "Serial_Task (ctx_of sample_config 2) ''ttyACM0'' [57600, 115200] Flow_None \<in> kinds (started sample_config)"
    using kinds_endpoint [of 2 sample_config] by (simp add: sample_config_def endpoint_task_def rates_def)
  moreover have "sample_core 2 = endpoint_core_of True (ctx_of sample_config 2)"
    by (simp add: sample_core_def endpoint_core_of_def sample_config_def endpoint_filters_of_def)
  ultimately show ?thesis unfolding link_core_def by blast
qed

text \<open>A client connects to the TCP server, a frame is read from it, and it is written to the serial port.\<close>

lemma sample_run:
  obtains evs s where "reaches sample_lib (started sample_config) (system_start taken (started sample_config)) evs s"
    "wr_bytes (sys_writer s (EndpointId 2)) = [0xFD, 1, 2, 3]" "length (sys_turns s (EndpointId 2)) = 1"
    "sys_taken s = taken" "map (core_id \<circ> snd) (spawned (sys_tcp s)) = [EndpointId (10000 + taken)]"
    "map source_id (sys_bus s) = [EndpointId (10000 + taken)]"
proof -
  let ?orch = "started sample_config" and ?ctx = "ctx_of sample_config 1" and ?start = "system_start taken (started sample_config)"
  define a b where "a = child_for_client (10000 + taken) (endpoint_core_of True ?ctx)" and "b = sample_core 2"
  define m where "m = routed_of Hub.sample_env a stream_frame 0"
  define s0 where "s0 = ?start"
  define t where "t = tcp_step (Accepted 1 (endpoint_core_of True ?ctx)) (sys_tcp s0)"
  define s1 where "s1 = begin_anew (core_id a) (s0\<lparr>sys_tcp := t\<rparr>)"
  define s2 where "s2 = s1\<lparr>sys_buffer := (sys_buffer s1)(core_id a := push (sys_buffer s1 (core_id a)) [0xFD, 1, 2, 3])\<rparr>"
  define s3 where "s3 = s2\<lparr>sys_buffer := (sys_buffer s2)(core_id a := []),
    sys_hub := handle_incoming_frame sample_lib Hub.sample_env a stream_frame (sys_hub s2)\<rparr>"
  have ids: "core_id a = EndpointId (10000 + taken)" "core_id b = EndpointId 2"
    by (simp_all add: a_def b_def sample_core_def child_for_client_def)
  have filters: "core_filters a = default_filters"
    by (simp add: a_def child_for_client_def endpoint_core_of_def endpoint_filters_of_def sample_config_def)
  have server: "Tcp_Task ?ctx ''0.0.0.0:5761'' Server \<in> kinds ?orch"
    using kinds_endpoint [of 1 sample_config] by (simp add: sample_config_def endpoint_task_def)
  have new: "spawned (sys_tcp s0) = []" "join_set (sys_tcp s0) n = []" "next_tcp_client_id (sys_tcp s0) = 10000 + taken" for n
    by (simp_all add: s0_def system_start_def tcp_taken_def tcp_new_def FIRST_TCP_CLIENT_ID_def)
  have first: "spawned t = [(1, a)]"
    by (simp add: t_def tcp_accept_def new MAX_TCP_CLIENTS_def a_def Let_def)
  then have step1: "system_step sample_lib ?orch s0 [] s1"
    unfolding s1_def by (intro tcp_accepted [OF server]) (simp_all add: new t_def)
  from first have live: "stream_core ?orch (sys_tcp s1) a" "stream_core ?orch (sys_tcp s2) a" "stream_core ?orch (sys_tcp s3) b"
    using sample_serial by (simp_all add: stream_core_def s3_def s2_def s1_def b_def)
  have hub: "sys_hub s0 = hub_new (config_period (general sample_config)) (table_run (startup_events sample_config))"
    unfolding s0_def by (rule started_hub [OF sample_started])
  have same: "sys_hub s2 = sys_hub s0" by (simp add: s2_def s1_def)
  have "sys_buffer s2 (core_id a) = [0xFD, 1, 2, 3]"
    by (simp add: s2_def s1_def push_def parser_new_def MAX_BUFFER_SIZE_def saturating_add_def USIZE_MAX_def)
  then have "parse_next sample_lib (sys_buffer s2 (core_id a)) = Returns (Some stream_frame, [])"
    by (simp add: sample_eval stream_frame_def)
  from stream_frame [OF live(2) this, of Hub.sample_env]
  have step3: "system_step sample_lib ?orch s2 [Ingress Hub.sample_env a stream_frame] s3" unfolding s3_def .
  have "\<not> is_zero (config_period (general sample_config))"
    by (simp add: sample_config_def config_period_def is_zero_def time_simps)
  then have "\<not> known_payload (ahash Hub.sample_env) stream_frame
      (hub_run sample_lib [] (hub_new (config_period (general sample_config)) (table_run (startup_events sample_config))))"
    by (subst known_payload_run [of _ _ "ahash Hub.sample_env"]) simp_all
  then have fresh: "\<not> known_payload (ahash Hub.sample_env) stream_frame (sys_hub s0)" unfolding hub by simp
  have "accepted sample_lib a stream_frame" by (simp add: accepted_def accept_frame_def filters stream_frame_def)
  with fresh have bus: "sys_bus s3 = [m]"
    by (simp add: s3_def same bus_ingress hub) (simp add: hub_new_def Hub.sample_env_def m_def sample_lib_def)
  have out: "egress b s3 m"
    by (simp add: check_outgoing_def routed_of_def sample_core_def stream_frame_def extract_target_def ids(1) b_def m_def)
  have idle: "sys_rx s3 (core_id b) = rx_new" "sys_phase s3 (core_id b) = Parked" "sys_writer s3 (core_id b) = writer_new"
    "sys_turns s3 (core_id b) = []"
    by (simp_all add: s3_def s2_def s1_def ids new) (simp_all add: s0_def system_start_def)
  obtain rx where poll: "rx_poll (sys_bus s3) (Poll_Msg m) (sys_rx s3 (core_id b)) = Some rx"
    unfolding idle bus by (simp add: rx_poll_def rx_new_def)
  obtain ph w where taken: "writer_step b ''serial'' \<lparr>poll_res = Poll_Msg m, poll_table = hub_table (sys_hub s3), poll_cancelled = False\<rparr>
      (sys_phase s3 (core_id b), writer_at (sys_hub s3) b [] (sys_writer s3 (core_id b))) = (ph, w)" by force
  have bytes: "wr_bytes w = [0xFD, 1, 2, 3]"
    using taken out
    by (auto simp: idle write_on_def send_message_def next_io_def writer_at_def writer_new_def batch_on_first m_def routed_of_def
        stream_frame_def)
  define s4 where "s4 = s3\<lparr>sys_hub := with_stats (sys_hub s3) b w, sys_phase := (sys_phase s3)(core_id b := ph),
    sys_writer := (sys_writer s3)(core_id b := w), sys_rx := (sys_rx s3)(core_id b := rx),
    sys_turns := (sys_turns s3)(core_id b := sys_turns s3 (core_id b) @ stream_turns b (Poll_Msg m) (sys_hub s3))\<rparr>"
  have parked: "\<And>r. sys_phase s3 (core_id b) \<noteq> Left_Loop r" by (simp add: idle)
  from onward [OF onward [OF onward [OF onward [OF here step1] stream_read [OF live(1)]] step3 [unfolded s2_def]]]
    stream_poll [OF live(3) parked poll taken]
  obtain evs where run: "reaches sample_lib ?orch s0 evs s4" unfolding s4_def by blast
  moreover have "wr_bytes (sys_writer s4 (EndpointId 2)) = [0xFD, 1, 2, 3]" by (simp add: s4_def ids(2) bytes)
  moreover have "length (sys_turns s4 (EndpointId 2)) = 1" using idle(4) by (simp add: s4_def ids(2) stream_turns_def)
  moreover have "sys_taken s4 = taken" by (simp add: s4_def s3_def s2_def s1_def s0_def system_start_def)
  moreover have "spawned (sys_tcp s4) = [(1, a)]" using first by (simp add: s4_def s3_def s2_def s1_def)
  moreover have "map source_id (sys_bus s4) = [EndpointId (10000 + taken)]"
    using bus by (simp add: s4_def with_stats_def m_def routed_of_def ids)
  ultimately show thesis using that [of evs s4] by (simp add: s0_def ids)
qed

theorem system_refines_witness:
  "\<exists>evs s. spawn_all sample_config = Returns (started sample_config) \<and>
    reaches sample_lib (started sample_config) (system_start 0 (started sample_config)) evs s \<and>
    length (sys_bus s) = 1 \<and> hub_typed (config_period (general sample_config)) (sys_hub s)"
proof -
  obtain evs s where run: "reaches sample_lib (started sample_config) (system_start 0 (started sample_config)) evs s"
    and bus: "map source_id (sys_bus s) = [EndpointId (10000 + 0)]" by (rule sample_run)
  have "length (sys_bus s) = 1" using arg_cong [OF bus, of length] by simp
  with system_refines [OF sample_started run] run sample_started show ?thesis by blast
qed

end
