(* ===== verification/Delivery.thy ===== *)
theory Delivery
  imports System
begin

text \<open>
  What leaves the running router, at every endpoint: what it was handed by the bus accounts for every message
  since it subscribed, and what its socket or writer was given is, exactly, what that calls for.
\<close>

section \<open>What a turn calls for\<close>

fun turn_table :: "turn \<Rightarrow> routing_table" where
  "turn_table (Udp_Turn core t cfg now u m) = t"
| "turn_table (Stream_Turn core t m) = t"

text \<open>The egress check, on the table of the moment.\<close>

definition passes :: "turn \<Rightarrow> bool" where
  "passes turn \<longleftrightarrow> check_outgoing (turn_core turn) (turn_table turn) (turn_message turn)"

text \<open>
  A UDP endpoint owes one datagram to each of its targets of the moment, a stream endpoint the bytes of the message.
\<close>

definition due_datagrams :: "turn \<Rightarrow> (socket_addr \<times> byte list) list" where
  "due_datagrams turn = (case turn of
      Udp_Turn core t cfg now u m \<Rightarrow> if passes turn then map (\<lambda>a. (a, serialized_bytes m)) (udp_targets cfg now u) else []
    | Stream_Turn core t m \<Rightarrow> [])"

definition due_messages :: "turn \<Rightarrow> routed_message list" where
  "due_messages turn = (case turn of Udp_Turn core t cfg now u m \<Rightarrow> [] | Stream_Turn core t m \<Rightarrow> if passes turn then [m] else [])"

definition sent_datagrams :: "udp_state \<Rightarrow> (socket_addr \<times> byte list) list" where
  "sent_datagrams u = map (\<lambda>(a, p, r). (a, p)) (attempts u)"

text \<open>A writer has taken the messages; when it left the loop for an error, all but the last.\<close>

fun has_taken :: "routed_message list \<Rightarrow> writer_phase \<Rightarrow> writer \<Rightarrow> bool" where
  "has_taken ms Parked w \<longleftrightarrow> wr_bytes w = payload ms \<and> wr_flushed w = length (wr_bytes w)"
| "has_taken ms (In_Batch n) w \<longleftrightarrow> wr_bytes w = payload ms"
| "has_taken ms (Left_Loop r) w \<longleftrightarrow> wr_bytes w = payload ms \<or> wr_bytes w = payload (butlast ms)"

lemma has_taken_stats [simp]:
  "has_taken ms ph (w\<lparr>wr_stats := st\<rparr>) = has_taken ms ph w" "has_taken ms ph (w\<lparr>wr_io := io\<rparr>) = has_taken ms ph w"
  "has_taken ms ph (writer_at h core io w) = has_taken ms ph w" "has_taken ms ph (count_lagged n w) = has_taken ms ph w"
  by (cases ph; simp add: writer_at_def count_lagged_def)+

lemma has_taken_end_batch:
  "wr_bytes w = payload ms \<Longrightarrow> end_batch name w = (ph', w') \<Longrightarrow> has_taken ms ph' w'"
  by (auto simp: end_batch_def flush_writer_def next_io_def count_error_def split: list.splits option.splits)

lemma has_taken_batch_on:
  "wr_bytes w = payload ms \<Longrightarrow> batch_on name n w = (ph', w') \<Longrightarrow> has_taken ms ph' w'"
  by (cases n) (auto intro: has_taken_end_batch)

lemma has_taken_write_on:
  assumes "wr_bytes w = payload ms" "write_on name n m w = (ph', w')"
  shows "has_taken (ms @ [m]) ph' w'"
proof (cases "send_message name m w")
  case (Pair r w1)
  with assms(1) have "case r of Inl e \<Rightarrow> wr_bytes w1 = payload ms | Inr _ \<Rightarrow> wr_bytes w1 = payload (ms @ [m])"
    by (auto simp: send_message_def next_io_def count_error_def split: list.splits option.splits)
  with Pair assms(2) show ?thesis by (cases r) (auto simp: write_on_def intro: has_taken_batch_on)
qed

lemma has_taken_step:
  assumes "has_taken ms ph w" "\<And>r. ph \<noteq> Left_Loop r" "p \<noteq> Poll_Closed"
    and "writer_step core name \<lparr>poll_res = p, poll_table = t, poll_cancelled = False\<rparr> (ph, w) = (ph', w')"
  shows "has_taken (ms @ (case p of Poll_Msg m \<Rightarrow> if check_outgoing core t m then [m] else [] | _ \<Rightarrow> [])) ph' w'"
proof -
  have bytes: "wr_bytes w = payload ms" using assms(1,2) by (cases ph) auto
  moreover from this have "wr_bytes (count_lagged n w) = payload ms" "wr_flushed (count_lagged n w) = wr_flushed w" for n
    by (simp_all add: count_lagged_def)
  ultimately show ?thesis
    using assms
    by (cases ph; cases p)
      (auto simp: intro: has_taken_write_on has_taken_batch_on has_taken_end_batch split: if_splits)
qed

section \<open>The receivers\<close>

definition rx_ok :: "routed_message list \<Rightarrow> u64 \<Rightarrow> receiver \<Rightarrow> turn list \<Rightarrow> bool" where
  "rx_ok bus lagged rx turns \<longleftrightarrow> rx_from rx \<le> rx_next rx \<and> rx_next rx \<le> length bus \<and>
     subseq (map turn_message turns) (take (rx_next rx - rx_from rx) (drop (rx_from rx) bus)) \<and>
     lagged = rx_lag rx + of_nat (rx_next rx - rx_from rx - length turns)"

lemma rx_ok_length: "rx_ok bus lagged rx turns \<Longrightarrow> length turns \<le> rx_next rx - rx_from rx"
  unfolding rx_ok_def using list_emb_length [of "(=)" "map turn_message turns"] by fastforce

lemma rx_ok_append: "rx_ok bus lagged rx turns \<Longrightarrow> rx_ok (bus @ ms) lagged rx turns"
  by (simp add: rx_ok_def)

lemma rx_ok_begin: "rx_ok bus lagged \<lparr>rx_from = length bus, rx_next = length bus, rx_lag = lagged\<rparr> []"
  by (simp add: rx_ok_def)

lemma rx_ok_poll:
  assumes "rx_poll bus p rx = Some rx'" "rx_ok bus lagged rx turns"
    and "map turn_message new = (case p of Poll_Msg m \<Rightarrow> [m] | _ \<Rightarrow> [])"
  shows "rx_ok bus (lagged + (case p of Poll_Lagged n \<Rightarrow> n | _ \<Rightarrow> 0)) rx' (turns @ new)"
proof (cases p)
  case (Poll_Msg m)
  with assms(1) have n: "rx_next rx < length bus" "bus ! rx_next rx = m" and rx': "rx' = rx\<lparr>rx_next := rx_next rx + 1\<rparr>"
    by (auto simp: rx_poll_def split: if_splits)
  from assms(2) have "rx_from rx \<le> rx_next rx" by (simp add: rx_ok_def)
  then have "take (rx_next rx + 1 - rx_from rx) (drop (rx_from rx) bus) =
      take (rx_next rx - rx_from rx) (drop (rx_from rx) bus) @ [m]"
    using n by (simp add: Suc_diff_le take_Suc_conv_app_nth)
  moreover have "length new = 1" using arg_cong [OF assms(3), of length] Poll_Msg by simp
  ultimately show ?thesis using assms(2,3) n rx' Poll_Msg \<open>rx_from rx \<le> rx_next rx\<close>
    by (simp add: rx_ok_def Suc_diff_le list_emb_append_mono)
next
  case (Poll_Lagged n)
  with assms(1) have n: "rx_next rx + unat n \<le> length bus" and rx': "rx' = rx\<lparr>rx_next := rx_next rx + unat n\<rparr>"
    by (auto simp: rx_poll_def split: if_splits)
  have "new = []" using assms(3) Poll_Lagged by simp
  from assms(2) have ok: "rx_from rx \<le> rx_next rx" "subseq (map turn_message turns) (take (rx_next rx - rx_from rx) (drop (rx_from rx) bus))"
    by (simp_all add: rx_ok_def)
  have "rx_next rx + unat n - rx_from rx = (rx_next rx - rx_from rx) + unat n" using ok(1) by simp
  with ok(2) have "subseq (map turn_message turns) (take (rx_next rx + unat n - rx_from rx) (drop (rx_from rx) bus))"
    unfolding take_add by (simp add: take_add subseq_rev_drop_many)
  moreover have "rx_next rx + unat n - rx_from rx - length turns = (rx_next rx - rx_from rx - length turns) + unat n"
    using ok(1) rx_ok_length [OF assms(2)] by simp
  ultimately show ?thesis using assms(2) n rx' Poll_Lagged \<open>new = []\<close> by (simp add: rx_ok_def)
qed (use assms in \<open>auto simp: rx_poll_def\<close>)

section \<open>The shared state\<close>

definition lag_of :: "endpoint_id \<Rightarrow> hub_event \<Rightarrow> u64" where
  "lag_of ep ev = (case ev of Lagged_Behind ep' n \<Rightarrow> if ep' = ep then n else 0 | _ \<Rightarrow> 0)"

lemma lagged_step: "bus_lagged (hub_stats (hub_step L ev h) ep) = bus_lagged (hub_stats h ep) + lag_of ep ev"
proof (cases ev)
  case (Ingress env core frame)
  then show ?thesis
    by (cases rule: handle_cases [of L core frame _ env h])
      (simp_all add: handle_simps publish_frame_def bump_in_def lag_of_def Let_def)
qed (simp_all add: lag_of_def edit_stats_def record_outgoing_def)

lemma lagged_run:
  "bus_lagged (hub_stats (hub_run L evs h) ep) = bus_lagged (hub_stats h ep) + sum_list (map (lag_of ep) evs)"
  by (induction evs arbitrary: h) (simp_all add: lagged_step)

lemma bus_grows: "\<exists>ms. hub_bus (hub_run L evs h) = hub_bus h @ ms"
proof (induction evs arbitrary: h)
  case (Cons ev evs)
  obtain ms where "hub_bus (hub_run L evs (hub_step L ev h)) = hub_bus (hub_step L ev h) @ ms" using Cons by blast
  then show ?case by (simp add: bus_step)
qed simp

lemma lag_of_sends [simp]: "lag_of ep (send_event core bytes r) = 0" "sum_list (map (lag_of ep) (flush_events core io)) = 0"
  by (simp_all add: send_event_def flush_events_def lag_of_def split: option.split list.split)

lemma lag_of_events:
  "sum_list (map (lag_of ep) (udp_events L cfg core ev s)) =
     (case udp_poll ev of Poll_Lagged n \<Rightarrow> if core_id core = ep then n else 0 | _ \<Rightarrow> 0)"
proof -
  have "sum_list (map (lag_of ep \<circ> send_event core bytes) rs) = 0" for bytes rs by (induction rs) simp_all
  then show ?thesis by (cases ev; cases s) (auto simp: lag_of_def split: option.split)
qed

lemma lag_of_writer:
  "sum_list (map (lag_of ep) (writer_events core t p ph io)) = (case p of Poll_Lagged n \<Rightarrow> if core_id core = ep then n else 0 | _ \<Rightarrow> 0)"
  by (cases p) (auto simp: writer_events_def lag_of_def [of _ "Lagged_Behind _ _"] split: list.split)

section \<open>Every step keeps the books\<close>

text \<open>What holds of an endpoint.\<close>

definition endpoint_ok :: "orchestrated \<Rightarrow> system \<Rightarrow> endpoint_id \<Rightarrow> bool" where
  "endpoint_ok orch s ep \<longleftrightarrow>
     rx_ok (sys_bus s) (bus_lagged (hub_stats (sys_hub s) ep)) (sys_rx s ep) (sys_turns s ep) \<and>
     list_all (\<lambda>turn. core_id (turn_core turn) = ep \<and> live_core orch (sys_tcp s) (turn_core turn)) (sys_turns s ep) \<and>
     sent_datagrams (sys_udp s ep) = concat (map due_datagrams (sys_turns s ep)) \<and>
     has_taken (concat (map due_messages (sys_turns s ep))) (sys_phase s ep) (sys_writer s ep)"

lemma writer_new_simps [simp]: "wr_bytes writer_new = []" "wr_flushed writer_new = 0"
  by (simp_all add: writer_new_def)

lemma endpoint_ok_start: "endpoint_ok orch (system_start taken orch) ep"
  by (simp add: endpoint_ok_def system_start_def rx_ok_def rx_new_def udp_new_def sent_datagrams_def endpoint_stats_new_def)

lemma endpoint_ok_begin:
  assumes "endpoint_ok orch s ep" "sys_hub s' = sys_hub s" "sys_rx s' = sys_rx s" "sys_turns s' = sys_turns s"
    "sys_udp s' = sys_udp s" "sys_phase s' = sys_phase s" "sys_writer s' = sys_writer s"
    and "\<And>core. live_core orch (sys_tcp s) core \<Longrightarrow> live_core orch (sys_tcp s') core"
  shows "endpoint_ok orch (begin_anew ep' s') ep" "endpoint_ok orch s' ep"
  using assms by (auto simp: endpoint_ok_def rx_ok_begin udp_new_def sent_datagrams_def list_all_iff)

text \<open>The clients only become more.\<close>

lemma spawned_tcp_step: "\<exists>cs. spawned (tcp_step ev t) = spawned t @ cs"
  by (cases ev) (simp_all add: tcp_accept_def Let_def)

lemma live_core_mono: "live_core orch t core \<Longrightarrow> spawned t' = spawned t @ cs \<Longrightarrow> live_core orch t' core"
  by (auto simp: live_core_def stream_core_def)

lemma live_core_step: "live_core orch t core \<Longrightarrow> live_core orch (tcp_step ev t) core"
  using spawned_tcp_step [of ev t] live_core_mono by blast

lemma sent_datagrams_step:
  "sent_datagrams (fst (udp_step L cfg core ev (u, h))) = sent_datagrams u @ concat (map due_datagrams (udp_turns cfg core ev (u, h)))"
proof (cases ev)
  case (Bus_Msg now m rs)
  have "length (outcomes n rs) = n" for n rs by (induction n rs rule: outcomes.induct) (auto split: list.split)
  moreover have "length xs = length ys \<Longrightarrow> map (\<lambda>(a, p, r). (a, p)) (map (\<lambda>(addr, r). (addr, bytes, r)) (zip xs ys)) =
      map (\<lambda>a. (a, bytes)) xs" for xs :: "socket_addr list" and ys :: "io_error option list" and bytes :: "byte list"
    by (induction xs ys rule: list_induct2) simp_all
  ultimately have "map (\<lambda>(a, p, r). (a, p)) (map (\<lambda>(addr, r). (addr, bytes, r)) (zip addrs (outcomes (length addrs) rs))) =
      map (\<lambda>a. (a, bytes)) addrs" for addrs :: "socket_addr list" and bytes :: "byte list" by simp
  with Bus_Msg show ?thesis
    by (simp add: sent_datagrams_def attempts_udp_send due_datagrams_def passes_def)
qed (simp_all add: sent_datagrams_def udp_cleanup_def)

text \<open>A step that takes a poll of the endpoint, and one that does not concern it.\<close>

lemma endpoint_ok_poll:
  assumes "endpoint_ok orch s ep" "rx_poll (sys_bus s) p (sys_rx s ep) = Some rx" "live_core orch (sys_tcp s) core" "core_id core = ep"
    and new: "sys_rx s' ep = rx" "sys_turns s' ep = sys_turns s ep @ new" "sys_tcp s' = sys_tcp s" "sys_bus s' = sys_bus s @ ms"
    and "bus_lagged (hub_stats (sys_hub s') ep) =
      bus_lagged (hub_stats (sys_hub s) ep) + (case p of Poll_Lagged n \<Rightarrow> n | _ \<Rightarrow> 0)"
    and turns: "map turn_message new = (case p of Poll_Msg m \<Rightarrow> [m] | _ \<Rightarrow> [])" "list_all (\<lambda>turn. turn_core turn = core) new"
    and "sent_datagrams (sys_udp s' ep) = sent_datagrams (sys_udp s ep) @ concat (map due_datagrams new)"
    and "has_taken (concat (map due_messages (sys_turns s ep @ new))) (sys_phase s' ep) (sys_writer s' ep)"
  shows "endpoint_ok orch s' ep"
proof -
  have "rx_ok (sys_bus s) (bus_lagged (hub_stats (sys_hub s') ep)) rx (sys_turns s ep @ new)"
    unfolding assms(9) using assms(1,2) turns(1) by (intro rx_ok_poll) (auto simp: endpoint_ok_def)
  then have "rx_ok (sys_bus s') (bus_lagged (hub_stats (sys_hub s') ep)) (sys_rx s' ep) (sys_turns s' ep)"
    unfolding new by (rule rx_ok_append)
  with assms show ?thesis by (auto simp: endpoint_ok_def list_all_iff)
qed

lemma endpoint_ok_idle:
  assumes "endpoint_ok orch s ep" "sys_rx s' ep = sys_rx s ep" "sys_turns s' ep = sys_turns s ep" "sys_bus s' = sys_bus s @ ms"
    and "\<And>core. live_core orch (sys_tcp s) core \<Longrightarrow> live_core orch (sys_tcp s') core"
    and "bus_lagged (hub_stats (sys_hub s') ep) = bus_lagged (hub_stats (sys_hub s) ep)"
    and "sent_datagrams (sys_udp s' ep) = sent_datagrams (sys_udp s ep)" "sys_phase s' ep = sys_phase s ep" "sys_writer s' ep = sys_writer s ep"
  shows "endpoint_ok orch s' ep"
  using assms rx_ok_append [of "sys_bus s" _ "sys_rx s ep" "sys_turns s ep" ms] by (auto simp: endpoint_ok_def list_all_iff)

text \<open>A step changes the bus and the lag counters as its label says.\<close>

lemma step_bus:
  assumes "system_step L orch s evs s'"
  obtains ms where "sys_bus s' = sys_bus s @ ms"
  using bus_grows [of L evs "sys_hub s"] system_step_hub [OF assms] by auto

lemma step_lagged:
  "system_step L orch s evs s' \<Longrightarrow>
     bus_lagged (hub_stats (sys_hub s') ep) = bus_lagged (hub_stats (sys_hub s) ep) + sum_list (map (lag_of ep) evs)"
  by (simp add: system_step_hub lagged_run)

lemma endpoint_ok_udp:
  assumes "endpoint_ok orch s ep" "udp_core orch core" "sys_bus s' = sys_bus s @ ms"
    and "bus_lagged (hub_stats (sys_hub s') ep) = bus_lagged (hub_stats (sys_hub s) ep) +
      sum_list (map (lag_of ep) (udp_events L cfg core ev (sys_udp s (core_id core), sys_hub s)))"
    and "udp_step L cfg core ev (sys_udp s (core_id core), sys_hub s) = (u, h)"
    and "rx_poll (sys_bus s) (udp_poll ev) (sys_rx s (core_id core)) = Some rx"
    and s': "s' = s\<lparr>sys_udp := (sys_udp s)(core_id core := u), sys_hub := h, sys_rx := (sys_rx s)(core_id core := rx),
         sys_turns := (sys_turns s)(core_id core := sys_turns s (core_id core) @ udp_turns cfg core ev (sys_udp s (core_id core), sys_hub s))\<rparr>"
  shows "endpoint_ok orch s' ep"
proof (cases "core_id core = ep")
  case True
  have "sent_datagrams u = sent_datagrams (sys_udp s ep) @ concat (map due_datagrams (udp_turns cfg core ev (sys_udp s ep, sys_hub s)))"
    using sent_datagrams_step [of L cfg core ev "sys_udp s ep" "sys_hub s"] assms(5) True by simp
  moreover have "map turn_message (udp_turns cfg core ev (sys_udp s ep, sys_hub s)) = (case udp_poll ev of Poll_Msg m \<Rightarrow> [m] | _ \<Rightarrow> [])"
    "list_all (\<lambda>turn. turn_core turn = core) (udp_turns cfg core ev (sys_udp s ep, sys_hub s))"
    by (cases ev; simp)+
  moreover have "concat (map due_messages (sys_turns s ep @ udp_turns cfg core ev (sys_udp s ep, sys_hub s))) =
      concat (map due_messages (sys_turns s ep))"
    by (cases ev) (simp_all add: due_messages_def)
  moreover have "has_taken (concat (map due_messages (sys_turns s ep))) (sys_phase s ep) (sys_writer s ep)"
    using assms(1) by (simp add: endpoint_ok_def)
  ultimately show ?thesis
    using assms(1-4,6) True
    by (intro endpoint_ok_poll [OF assms(1), where p = "udp_poll ev" and core = core and rx = rx and ms = ms
          and new = "udp_turns cfg core ev (sys_udp s ep, sys_hub s)"])
      (simp_all add: s' live_core_def lag_of_events cong: poll_result.case_cong del: map_append concat_append)
next
  case False
  with assms(4) have "bus_lagged (hub_stats (sys_hub s') ep) = bus_lagged (hub_stats (sys_hub s) ep)"
    by (simp add: lag_of_events split: poll_result.splits)
  with False assms(1,3) show ?thesis by (intro endpoint_ok_idle [OF assms(1) _ _ assms(3)]) (simp_all add: s')
qed

lemma endpoint_ok_stream:
  assumes "endpoint_ok orch s ep" "stream_core orch (sys_tcp s) core" "sys_bus s' = sys_bus s @ ms"
    and "bus_lagged (hub_stats (sys_hub s') ep) = bus_lagged (hub_stats (sys_hub s) ep) +
      sum_list (map (lag_of ep) (writer_events core (hub_table (sys_hub s)) p (sys_phase s (core_id core)) io))"
    and "\<And>r. sys_phase s (core_id core) \<noteq> Left_Loop r" "rx_poll (sys_bus s) p (sys_rx s (core_id core)) = Some rx"
    and "writer_step core name \<lparr>poll_res = p, poll_table = hub_table (sys_hub s), poll_cancelled = False\<rparr>
      (sys_phase s (core_id core), writer_at (sys_hub s) core io (sys_writer s (core_id core))) = (ph, w)"
    and s': "s' = s\<lparr>sys_hub := with_stats (sys_hub s) core w, sys_phase := (sys_phase s)(core_id core := ph),
         sys_writer := (sys_writer s)(core_id core := w), sys_rx := (sys_rx s)(core_id core := rx),
         sys_turns := (sys_turns s)(core_id core := sys_turns s (core_id core) @ stream_turns core p (sys_hub s))\<rparr>"
  shows "endpoint_ok orch s' ep"
proof (cases "core_id core = ep")
  case True
  have not_closed: "p \<noteq> Poll_Closed" using assms(6) by (auto simp: rx_poll_def)
  have new: "map turn_message (stream_turns core p (sys_hub s)) = (case p of Poll_Msg m \<Rightarrow> [m] | _ \<Rightarrow> [])"
    "list_all (\<lambda>turn. turn_core turn = core) (stream_turns core p (sys_hub s))"
    "concat (map due_datagrams (stream_turns core p (sys_hub s))) = []"
    "concat (map due_messages (stream_turns core p (sys_hub s))) =
      (case p of Poll_Msg m \<Rightarrow> if check_outgoing core (hub_table (sys_hub s)) m then [m] else [] | _ \<Rightarrow> [])"
    by (cases p; simp add: stream_turns_def due_datagrams_def due_messages_def passes_def)+
  have "has_taken (concat (map due_messages (sys_turns s ep))) (sys_phase s ep) (writer_at (sys_hub s) core io (sys_writer s ep))"
    using assms(1) by (simp add: endpoint_ok_def)
  from has_taken_step [OF this _ not_closed] assms(5,7) True new(4)
  have "has_taken (concat (map due_messages (sys_turns s ep @ stream_turns core p (sys_hub s)))) ph w" by simp
  then show ?thesis
    using assms(2-4,6) True new(1-3)
    by (intro endpoint_ok_poll [OF assms(1), where p = p and core = core and rx = rx and ms = ms and new = "stream_turns core p (sys_hub s)"])
      (simp_all add: s' live_core_def lag_of_writer cong: poll_result.case_cong)
next
  case False
  with assms(4) have "bus_lagged (hub_stats (sys_hub s') ep) = bus_lagged (hub_stats (sys_hub s) ep)"
    by (simp add: lag_of_writer split: poll_result.splits)
  with False assms(1,3) show ?thesis by (intro endpoint_ok_idle [OF assms(1) _ _ assms(3)]) (simp_all add: s')
qed

lemma endpoint_ok_step:
  assumes "system_step L orch s evs s'" "endpoint_ok orch s ep"
  shows "endpoint_ok orch s' ep"
proof -
  obtain ms where bus: "sys_bus s' = sys_bus s @ ms" by (rule step_bus [OF assms(1)])
  note lag = step_lagged [OF assms(1), of ep]
  from assms(1) show ?thesis
  proof cases
    case (udp_start ctx address mode ttl timeout env cfg ep')
    then show ?thesis using endpoint_ok_begin(1) [OF assms(2), of "s\<lparr>sys_conf := (sys_conf s)(ep' := Some cfg)\<rparr>" ep'] by simp
  next
    case (udp core cfg ev u h rx)
    then show ?thesis using endpoint_ok_udp [OF assms(2) udp(3) bus lag [unfolded udp(1)] udp(5,6,2)] by simp
  next
    case (tcp_accepted ctx address t client)
    have "live_core orch t core" if "live_core orch (sys_tcp s) core" for core
      using live_core_step [OF that] unfolding tcp_accepted(4) [symmetric] .
    with tcp_accepted(2) show ?thesis using endpoint_ok_begin(1) [OF assms(2), of "s\<lparr>sys_tcp := t\<rparr>" "core_id client"] by simp
  next
    case (tcp_left server client)
    then show ?thesis using endpoint_ok_begin(2) [OF assms(2), of s'] live_core_step [of _ _ _ "Joined server client"] by simp
  next
    case (tcp_elsewhere n)
    then show ?thesis using endpoint_ok_begin(2) [OF assms(2), of s'] by (auto simp: live_core_def stream_core_def)
  next
    case (stream_start core)
    then show ?thesis using endpoint_ok_begin(1) [OF assms(2), of s "core_id core"] by simp
  next
    case (stream_poll core p rx name io ph w)
    then show ?thesis
      using endpoint_ok_stream [OF assms(2) stream_poll(3) bus lag [unfolded stream_poll(1)] stream_poll(4,5,6,2)] by simp
  qed (rule endpoint_ok_idle [OF assms(2) _ _ bus]; use lag in \<open>auto simp: lag_of_def split: if_splits option.splits\<close>)+
qed

lemma endpoint_ok_reaches:
  "reaches L orch s evs s' \<Longrightarrow> endpoint_ok orch s ep \<Longrightarrow> endpoint_ok orch s' ep"
  by (induction rule: reaches.induct) (auto intro: endpoint_ok_step)

section \<open>The turns are those of the run\<close>

text \<open>
  A turn is taken in a state of the router: with the table, the set-up and the UDP clients of that moment, by an
  endpoint that is there, for a message that is on the bus.
\<close>

definition taken_in :: "orchestrated \<Rightarrow> endpoint_id \<Rightarrow> system \<Rightarrow> turn \<Rightarrow> bool" where
  "taken_in orch ep s turn \<longleftrightarrow>
     core_id (turn_core turn) = ep \<and> live_core orch (sys_tcp s) (turn_core turn) \<and>
     turn_table turn = hub_table (sys_hub s) \<and> turn_message turn \<in> set (sys_bus s) \<and>
     (case turn of
        Udp_Turn core t cfg now u m \<Rightarrow> sys_conf s ep = Some cfg \<and> u = sys_udp s ep
      | Stream_Turn core t m \<Rightarrow> True)"

lemma rx_poll_on_bus: "rx_poll bus (Poll_Msg m) rx = Some rx' \<Longrightarrow> m \<in> set bus"
  by (auto simp: rx_poll_def split: if_splits)

lemma turns_step:
  assumes "system_step L orch s evs s'" "turn \<in> set (sys_turns s' ep)"
  shows "turn \<in> set (sys_turns s ep) \<or> taken_in orch ep s turn"
  using assms
proof cases
  case (udp core cfg ev u h rx)
  with assms(2) rx_poll_on_bus show ?thesis
    by (cases ev) (auto simp: taken_in_def live_core_def split: if_splits)
next
  case (stream_poll core p rx name io ph w)
  with assms(2) rx_poll_on_bus show ?thesis
    by (cases p) (auto simp: taken_in_def live_core_def stream_turns_def split: if_splits)
qed (auto split: if_splits)

lemma turns_reaches:
  "reaches L orch start evs s \<Longrightarrow> sys_turns start ep = [] \<Longrightarrow> turn \<in> set (sys_turns s ep) \<Longrightarrow>
     \<exists>evs1 s1 evs2. reaches L orch start evs1 s1 \<and> reaches L orch s1 evs2 s \<and> taken_in orch ep s1 turn"
proof (induction rule: reaches.induct)
  case (onward evs s evs' s')
  from turns_step [OF onward.hyps(2) onward.prems(2)] show ?case
  proof
    assume "turn \<in> set (sys_turns s ep)"
    with onward obtain evs1 s1 evs2 where "reaches L orch start evs1 s1" "reaches L orch s1 evs2 s" "taken_in orch ep s1 turn" by blast
    with reaches.onward [OF _ onward.hyps(2)] show ?thesis by blast
  next
    assume "taken_in orch ep s turn"
    with onward.hyps(1) reaches.onward [OF reaches.here onward.hyps(2)] show ?thesis by blast
  qed
qed simp

section \<open>Delivery\<close>

lemma passing_source: "passes turn \<Longrightarrow> source_id (turn_message turn) \<noteq> core_id (turn_core turn)"
  by (auto simp: passes_def check_outgoing_def)

text \<open>
  C3. Nothing is lost unnoticed and nothing is made up, in the whole running router. Start any configuration that
  can be started, in a process where any number of client ids are gone, and let its parts take any steps. Then of the
  messages that were published between an endpoint's subscription and where its receiver has come, each was handed to it,
  in order and once, or is counted as lagged in its statistics. What it did with them is exact. A UDP
  endpoint attempted, for the messages that pass the egress check, one datagram of the message's bytes to each
  of its targets, and no other. The bytes that a stream endpoint gave to its writer are those of the messages that pass, one
  after the other, all of them flushed when it waits for the next one; when it left its loop for an error, all but at most
  the last. The check and the targets are those of the table, the set-up and the clients in a state of that run.
  No message is one of the endpoint's own, and each carries the frame that an endpoint accepted, field by field.
\<close>

theorem system_delivery:
  assumes "spawn_all cfg = Returns orch" "reaches L orch (system_start taken orch) evs s"
  shows "let rx = sys_rx s ep; turns = sys_turns s ep; n = rx_next rx - rx_from rx in
    rx_from rx \<le> rx_next rx \<and> rx_next rx \<le> length (sys_bus s) \<and>
    subseq (map turn_message turns) (take n (drop (rx_from rx) (sys_bus s))) \<and>
    bus_lagged (hub_stats (sys_hub s) ep) = rx_lag rx + of_nat (n - length turns) \<and>
    sent_datagrams (sys_udp s ep) = concat (map due_datagrams turns) \<and>
    has_taken (concat (map due_messages turns)) (sys_phase s ep) (sys_writer s ep) \<and>
    list_all (\<lambda>turn.
      (\<exists>evs1 s1 evs2. reaches L orch (system_start taken orch) evs1 s1 \<and> reaches L orch s1 evs2 s \<and> taken_in orch ep s1 turn) \<and>
      (\<exists>env core frame. Ingress env core frame \<in> set evs \<and> accepted L core frame \<and> carries L (turn_message turn) (core, frame)) \<and>
      \<not> (passes turn \<and> source_id (turn_message turn) = ep)) turns"
proof -
  have ok: "endpoint_ok orch s ep" by (rule endpoint_ok_reaches [OF assms(2) endpoint_ok_start])
  have "\<exists>env core frame. Ingress env core frame \<in> set evs \<and> accepted L core frame \<and> carries L (turn_message turn) (core, frame)"
    if turn: "turn \<in> set (sys_turns s ep)" for turn
  proof -
    have "subseq (map turn_message (sys_turns s ep))
        (take (rx_next (sys_rx s ep) - rx_from (sys_rx s ep)) (drop (rx_from (sys_rx s ep)) (sys_bus s)))"
      using ok by (simp add: endpoint_ok_def rx_ok_def)
    moreover have "turn_message turn \<in> set (map turn_message (sys_turns s ep))" using turn by simp
    ultimately have "turn_message turn \<in> set (sys_bus s)" using subseq_member in_set_takeD in_set_dropD by metis
    then have "turn_message turn \<in> set (hub_bus (hub_run L evs (hub_new (config_period (general cfg)) (table_run (startup_events cfg)))))"
      unfolding reaches_hub [OF assms(2)] started_hub [OF assms(1)] .
    then show ?thesis by (rule bus_source) (auto simp: carries_def routed_of_def)
  qed
  moreover have "\<not> (passes turn \<and> source_id (turn_message turn) = ep)" if "turn \<in> set (sys_turns s ep)" for turn
  proof -
    have "core_id (turn_core turn) = ep" using ok that by (simp add: endpoint_ok_def list_all_iff)
    with passing_source [of turn] show ?thesis by metis
  qed
  moreover have "sys_turns (system_start taken orch) ep = []" by (simp add: system_start_def)
  ultimately show ?thesis
    using ok turns_reaches [OF assms(2)] unfolding endpoint_ok_def rx_ok_def Let_def list_all_iff by simp
qed

text \<open>In the sample run the serial port is handed the frame of the TCP client, and has written it.\<close>

theorem system_delivery_witness:
  "\<exists>evs s. spawn_all sample_config = Returns (started sample_config) \<and>
    reaches sample_lib (started sample_config) (system_start 0 (started sample_config)) evs s \<and>
    wr_bytes (sys_writer s (EndpointId 2)) = [0xFD, 1, 2, 3] \<and> length (sys_turns s (EndpointId 2)) = 1 \<and>
    has_taken (concat (map due_messages (sys_turns s (EndpointId 2)))) (sys_phase s (EndpointId 2)) (sys_writer s (EndpointId 2))"
proof -
  obtain evs s where run: "reaches sample_lib (started sample_config) (system_start 0 (started sample_config)) evs s"
    "wr_bytes (sys_writer s (EndpointId 2)) = [0xFD, 1, 2, 3]" "length (sys_turns s (EndpointId 2)) = 1" by (rule sample_run)
  from system_delivery [OF sample_started run(1), of "EndpointId 2"]
  have "has_taken (concat (map due_messages (sys_turns s (EndpointId 2)))) (sys_phase s (EndpointId 2)) (sys_writer s (EndpointId 2))"
    unfolding Let_def by (elim conjE)
  with run sample_started show ?thesis by blast
qed

end
