(* ===== verification/Identities.thy ===== *)
theory Identities
  imports Delivery
begin

text \<open>
  The endpoint ids of the running router: which endpoints there can be, that no two share an id, and
  what this means for the groups of the configuration.
\<close>

section \<open>The servers and their clients\<close>

text \<open>
  The counter of client ids is a static of the process. A step leaves it, or lets a server accept a client, or
  is one that other routers of the process take.
\<close>

lemma step_tcp:
  assumes "system_step L orch s evs s'"
  obtains (stays) "sys_tcp s' = sys_tcp s" "sys_taken s' = sys_taken s"
    | (event) ev where "sys_tcp s' = tcp_step ev (sys_tcp s)" "sys_taken s' = sys_taken s"
    | (elsewhere) n where "sys_tcp s' = (sys_tcp s)\<lparr>next_tcp_client_id := wrapping_add (next_tcp_client_id (sys_tcp s)) n\<rparr>"
        "sys_taken s' = sys_taken s + n"
  using assms by cases (auto simp del: tcp_step.simps)

lemma tcp_step_ids:
  "map (core_id \<circ> snd) (spawned (tcp_step ev t)) = map (core_id \<circ> snd) (spawned t) \<and>
     length (spawned (tcp_step ev t)) = length (spawned t) \<or>
   map (core_id \<circ> snd) (spawned (tcp_step ev t)) = map (core_id \<circ> snd) (spawned t) @ [EndpointId (next_tcp_client_id t)] \<and>
     length (spawned (tcp_step ev t)) = Suc (length (spawned t))"
  by (cases ev) (simp_all add: tcp_accept_def child_for_client_def Let_def)

lemma step_spawned:
  assumes "system_step L orch s evs s'"
  obtains cs where "spawned (sys_tcp s') = spawned (sys_tcp s) @ cs"
proof -
  have "\<exists>cs. spawned (sys_tcp s') = spawned (sys_tcp s) @ cs"
    using assms
  proof (cases rule: step_tcp)
    case (event ev)
    then show ?thesis by (simp add: spawned_tcp_step del: tcp_step.simps)
  qed simp_all
  with that show thesis by blast
qed

text \<open>Frames are read by endpoints of the start-up, and by clients that were accepted.\<close>

lemma step_ingress:
  assumes "system_step L orch s evs s'" "Ingress env core frame \<in> set evs"
  shows "live_core orch (sys_tcp s) core"
  using assms
proof cases
  case (udp core' cfg ev u h rx)
  with assms(2) show ?thesis
    by (cases ev) (auto simp: live_core_def send_event_def split: option.splits if_splits)
next
  case (stream_poll core' p rx name io ph w)
  with assms(2) show ?thesis
    by (auto simp: writer_events_def flush_events_def send_event_def
        split: poll_result.splits list.splits option.splits if_splits)
qed (auto simp: live_core_def send_event_def split: option.splits if_splits)

text \<open>How many ids are gone, and what holds of the ids that this router gave out.\<close>

definition ids_gone :: "system \<Rightarrow> nat" where
  "ids_gone s = sys_taken s + length (spawned (sys_tcp s))"

definition ids_ok :: "nat \<Rightarrow> system \<Rightarrow> bool" where
  "ids_ok taken s \<longleftrightarrow> tcp_ok (10000 + taken) (sys_tcp s) \<and> taken \<le> sys_taken s \<and>
     next_tcp_client_id (sys_tcp s) = 10000 + ids_gone s \<and>
     (sys_taken s = taken \<longrightarrow>
       map (core_id \<circ> snd) (spawned (sys_tcp s)) = map (\<lambda>i. EndpointId (10000 + taken + i)) [0..<length (spawned (sys_tcp s))])"

lemma ids_ok_start: "ids_ok taken (system_start taken orch)"
  by (simp add: ids_ok_def ids_gone_def system_start_def tcp_taken_def tcp_new_def tcp_ok_def FIRST_TCP_CLIENT_ID_def)

lemma ids_ok_step:
  assumes "system_step L orch s evs s'"
  shows "ids_gone s \<le> ids_gone s'"
    and "10000 + ids_gone s' < USIZE_MAX \<Longrightarrow> ids_ok taken s \<Longrightarrow> ids_ok taken s'"
proof -
  show mono: "ids_gone s \<le> ids_gone s'"
    using assms
  proof (cases rule: step_tcp)
    case (event ev)
    then show ?thesis using tcp_step_ids [of ev "sys_tcp s"] by (auto simp: ids_gone_def)
  qed (simp_all add: ids_gone_def)
  assume less: "10000 + ids_gone s' < USIZE_MAX" and ok: "ids_ok taken s"
  from ok have tcp: "tcp_ok (10000 + taken) (sys_tcp s)" and next_id: "next_tcp_client_id (sys_tcp s) = 10000 + ids_gone s"
    by (simp_all add: ids_ok_def)
  have room: "next_tcp_client_id (sys_tcp s) < USIZE_MAX" using less mono next_id by simp
  from assms show "ids_ok taken s'"
  proof (cases rule: step_tcp)
    case stays
    with ok show ?thesis by (simp add: ids_ok_def ids_gone_def)
  next
    case (event ev)
    have "next_tcp_client_id (sys_tcp s') = 10000 + ids_gone s'"
      using tcp_step_counts [OF room, of "10000 + sys_taken s" ev] next_id event by (simp add: ids_gone_def)
    with tcp_ok_step [OF tcp room, of ev] tcp_step_ids [of ev "sys_tcp s"] ok event next_id show ?thesis
      by (auto simp: ids_ok_def ids_gone_def)
  next
    case (elsewhere n)
    have "next_tcp_client_id (sys_tcp s') = 10000 + ids_gone s'"
      using elsewhere less next_id by (simp add: ids_gone_def wrapping_add_def USIZE_MAX_def)
    with tcp_ok_taken [OF tcp, of "10000 + ids_gone s'"] elsewhere ok mono next_id show ?thesis
      by (auto simp: ids_ok_def ids_gone_def)
  qed
qed

lemma ids_ok_reaches:
  assumes "reaches L orch (system_start taken orch) evs s" "10000 + ids_gone s < USIZE_MAX"
  shows "ids_ok taken s"
  using assms
proof (induction rule: reaches.induct)
  case (onward evs s evs' s')
  with ids_ok_step [OF onward.hyps(2)] show ?case by fastforce
qed (rule ids_ok_start)

lemma ingress_live:
  "reaches L orch start evs s \<Longrightarrow> Ingress env core frame \<in> set evs \<Longrightarrow> live_core orch (sys_tcp s) core"
proof (induction rule: reaches.induct)
  case (onward evs s evs' s')
  obtain cs where "spawned (sys_tcp s') = spawned (sys_tcp s) @ cs" by (rule step_spawned [OF onward.hyps(2)])
  with onward step_ingress [OF onward.hyps(2)] show ?case by (auto intro: live_core_mono)
qed simp

text \<open>Two endpoints are distinguished by their ids.\<close>

lemma live_unique:
  assumes "tcp_ok (10000 + taken) t" "length (endpoint cfg) \<le> 10000"
  shows "inj_on core_id {core. live_core (started cfg) t core}"
proof (rule inj_onI, unfold mem_Collect_eq)
  fix a b assume "live_core (started cfg) t a" "live_core (started cfg) t b" and eq: "core_id a = core_id b"
  then show "a = b"
  proof (elim live_cases)
    fix i j assume "a = endpoint_core_of True (ctx_of cfg i)" "b = endpoint_core_of True (ctx_of cfg j)"
    with eq show ?thesis by (simp add: endpoint_core_of_def)
  next
    fix i server assume "i < length (endpoint cfg)" "a = endpoint_core_of True (ctx_of cfg i)" "(server, b) \<in> set (spawned t)"
    with assms eq show ?thesis by (auto elim!: tcp_client_id simp: endpoint_core_of_def)
  next
    fix i server assume "i < length (endpoint cfg)" "b = endpoint_core_of True (ctx_of cfg i)" "(server, a) \<in> set (spawned t)"
    with assms eq show ?thesis by (auto elim!: tcp_client_id simp: endpoint_core_of_def)
  next
    fix server server' assume "(server, a) \<in> set (spawned t)" "(server', b) \<in> set (spawned t)"
    with assms(1) eq show ?thesis by (blast intro: tcp_client_unique)
  qed
qed

text \<open>
  C35. The endpoints of the running router have ids of their own. Start any configuration of at most 10000 endpoints,
  in a process where \<open>taken\<close> client ids are gone (to routers that ran before a reload, or that run beside
  this one and may take more at any time), and let the parts take any steps, while the 64-bit
  counter does not run out. Then no TCP server has more than 100 clients; the ids of the clients of all servers
  increase, none is one that was gone at the start, and none will be given again by the process; they are consecutive
  from \<open>10000 + taken\<close> on while only this router accepts clients. An id names one endpoint, be it of the configuration or a client;
  and every frame comes from such an endpoint, one that learns routes. So the source of a message names the endpoint
  that it was read at.
\<close>

theorem endpoint_ids:
  assumes "spawn_all cfg = Returns orch" "length (endpoint cfg) \<le> 10000"
    and "reaches L orch (system_start taken orch) evs s" "10001 + sys_taken s + length (spawned (sys_tcp s)) < 2 ^ 64"
  shows "(\<forall>server. length (join_set (sys_tcp s) server) \<le> 100) \<and>
    sorted_wrt (<) (map (core_id \<circ> snd) (spawned (sys_tcp s))) \<and>
    (core_id \<circ> snd) ` set (spawned (sys_tcp s)) \<subseteq> EndpointId ` {10000 + taken..<next_tcp_client_id (sys_tcp s)} \<and>
    next_tcp_client_id (sys_tcp s) = 10000 + sys_taken s + length (spawned (sys_tcp s)) \<and>
    (sys_taken s = taken \<longrightarrow>
      map (core_id \<circ> snd) (spawned (sys_tcp s)) = map (\<lambda>i. EndpointId (10000 + taken + i)) [0..<length (spawned (sys_tcp s))]) \<and>
    inj_on core_id {core. live_core orch (sys_tcp s) core} \<and>
    (\<forall>core. live_core orch (sys_tcp s) core \<longrightarrow> update_routing core) \<and>
    (\<forall>env core frame. Ingress env core frame \<in> set evs \<longrightarrow> live_core orch (sys_tcp s) core) \<and>
    (\<forall>m \<in> set (sys_bus s). \<exists>!core. live_core orch (sys_tcp s) core \<and> source_id m = core_id core)"
proof -
  have orch: "orch = started cfg" using assms(1) by (auto simp: spawn_all_started split: if_splits outcome.splits)
  have ok: "ids_ok taken s"
    using assms(4) by (intro ids_ok_reaches [OF assms(3)]) (simp add: ids_gone_def USIZE_MAX_def)
  then have tcp: "tcp_ok (10000 + taken) (sys_tcp s)" by (simp add: ids_ok_def)
  have unique: "inj_on core_id {core. live_core orch (sys_tcp s) core}"
    unfolding orch by (rule live_unique [OF tcp assms(2)])
  have learns: "update_routing core" if "live_core orch (sys_tcp s) core" for core
    using that [unfolded orch] by (rule live_cases) (auto simp: endpoint_core_of_def elim: tcp_client_id [OF tcp])
  have range: "(core_id \<circ> snd) ` set (spawned (sys_tcp s)) \<subseteq> EndpointId ` {10000 + taken..<next_tcp_client_id (sys_tcp s)}"
    by (auto elim!: tcp_client_id [OF tcp])
  have "\<exists>!core. live_core orch (sys_tcp s) core \<and> source_id m = core_id core" if m: "m \<in> set (sys_bus s)" for m
  proof -
    have "m \<in> set (hub_bus (hub_run L evs (hub_new (config_period (general cfg)) (table_run (startup_events cfg)))))"
      using m unfolding reaches_hub [OF assms(3)] started_hub [OF assms(1)] .
    then show ?thesis
    proof (rule bus_source)
      fix env core frame assume "Ingress env core frame \<in> set evs"
        "m = routed_of env core frame (msg_id_of L (frame_message frame))"
      then have "live_core orch (sys_tcp s) core" "source_id m = core_id core"
        by (auto intro: ingress_live [OF assms(3)] simp: routed_of_def)
      with unique show ?thesis by (auto dest: inj_onD)
    qed
  qed
  moreover have "(\<forall>server. length (join_set (sys_tcp s) server) \<le> 100) \<and> sorted_wrt (<) (map (core_id \<circ> snd) (spawned (sys_tcp s)))"
    using tcp by (simp add: tcp_ok_def MAX_TCP_CLIENTS_def)
  ultimately show ?thesis
    using ok range unique learns ingress_live [OF assms(3)] by (simp add: ids_ok_def ids_gone_def)
qed

text \<open>The client of the sample run, in a process where five ids are gone; its frame is on the bus.\<close>

theorem endpoint_ids_witness:
  "\<exists>evs s. reaches sample_lib (started sample_config) (system_start 5 (started sample_config)) evs s \<and>
    map source_id (sys_bus s) = [EndpointId 10005] \<and>
    (\<forall>m \<in> set (sys_bus s). \<exists>!core. live_core (started sample_config) (sys_tcp s) core \<and> source_id m = core_id core)"
proof -
  obtain evs s where run: "reaches sample_lib (started sample_config) (system_start 5 (started sample_config)) evs s"
    and taken: "sys_taken s = 5" and ids: "map (core_id \<circ> snd) (spawned (sys_tcp s)) = [EndpointId (10000 + 5)]"
    and bus: "map source_id (sys_bus s) = [EndpointId (10000 + 5)]"
    by (rule sample_run)
  have "length (spawned (sys_tcp s)) = 1" using arg_cong [OF ids, of length] by simp
  with taken have less: "10001 + sys_taken s + length (spawned (sys_tcp s)) < 2 ^ 64" by simp
  have "length (endpoint sample_config) \<le> 10000" by (simp add: sample_config_def)
  note endpoint_ids [OF sample_started this run less]
  then have "\<forall>m \<in> set (sys_bus s). \<exists>!core. live_core (started sample_config) (sys_tcp s) core \<and> source_id m = core_id core"
    by (elim conjE)
  with run bus show ?thesis by (intro exI conjI) simp_all
qed

section \<open>Groups\<close>

text \<open>
  C40. The group of a TCP server does not reach its clients. The start-up registers a group for the
  server's own endpoint id, but traffic is learned and sent under the ids of its clients. So, in
  the running router, the clients share no group with any endpoint, nor any endpoint with
  them, and a message for a known system goes to a client only if a sniffer or the target itself
  has been heard from that very client.
\<close>

theorem tcp_clients_ungrouped:
  assumes "spawn_all cfg = Returns orch" "length (endpoint cfg) \<le> 10000"
    and "reaches L orch (system_start taken orch) evs s" "10001 + sys_taken s + length (spawned (sys_tcp s)) < 2 ^ 64"
    and "(server, client) \<in> set (spawned (sys_tcp s))"
  shows "(\<forall>e. \<not> shares_group (startup_events cfg) (core_id client) e \<and> \<not> shares_group (startup_events cfg) e (core_id client)) \<and>
    (egress client s m \<longleftrightarrow> source_id m \<noteq> core_id client \<and>
       filters_check_outgoing (core_filters client) (header m) (message_id m) \<and>
       (target_system_id (target m) = 0 \<or>
        (\<exists>x \<in> sniffers (startup_events cfg). core_id client \<in> seen_on (known_sys (view (hub_table (sys_hub s))) x)) \<or>
        core_id client \<in> paths_to (view (hub_table (sys_hub s))) (target_system_id (target m)) (target_component_id (target m))))"
proof -
  have "ids_ok taken s"
    using assms(4) by (intro ids_ok_reaches [OF assms(3)]) (simp add: ids_gone_def USIZE_MAX_def)
  then have "tcp_ok (10000 + taken) (sys_tcp s)" by (simp add: ids_ok_def)
  then obtain i where id: "10000 + taken \<le> i" "core_id client = EndpointId i" by (rule tcp_client_id [OF _ assms(5)])
  have no: "Set_Group (core_id client) grp \<notin> set (startup_events cfg)" for grp
    using startup_groups [of "core_id client" grp cfg] assms(2) by (auto simp: id(2)) (use id(1) in simp)
  then have g: "\<not> shares_group (startup_events cfg) (core_id client) e \<and> \<not> shares_group (startup_events cfg) e (core_id client)" for e
    using group_of_none [of "core_id client"] by (auto simp: shares_group_def)
  have "egress client s m = spec_outgoing (startup_events cfg) client m (abs_hub (sys_hub s))"
    by (rule system_egress [OF assms(1,3)])
  with g show ?thesis by (simp add: spec_outgoing_def abs_hub_def)
qed

theorem tcp_clients_ungrouped_witness:
  "\<exists>evs s client. reaches sample_lib (started sample_config) (system_start 0 (started sample_config)) evs s \<and>
    snd ` set (spawned (sys_tcp s)) = {client} \<and> core_id client = EndpointId 10000 \<and>
    shares_group (startup_events sample_config) (EndpointId 0) (EndpointId 1) \<and>
    \<not> shares_group (startup_events sample_config) (core_id client) (EndpointId 0)"
proof -
  obtain evs s where run: "reaches sample_lib (started sample_config) (system_start 0 (started sample_config)) evs s"
    and taken: "sys_taken s = 0" and ids: "map (core_id \<circ> snd) (spawned (sys_tcp s)) = [EndpointId (10000 + 0)]" by (rule sample_run)
  then obtain server client where one: "spawned (sys_tcp s) = [(server, client)]" "core_id client = EndpointId 10000" by auto
  have "10001 + sys_taken s + length (spawned (sys_tcp s)) < 2 ^ 64" "(server, client) \<in> set (spawned (sys_tcp s))"
    by (simp_all add: one taken)
  moreover have "length (endpoint sample_config) \<le> 10000" by (simp add: sample_config_def)
  ultimately have "\<not> shares_group (startup_events sample_config) (core_id client) (EndpointId 0)"
    using tcp_clients_ungrouped [OF sample_started _ run] by blast
  moreover have "startup_events sample_config = [Set_Group (EndpointId 0) ''a'', Set_Group (EndpointId 1) ''a'']"
    by (simp add: startup_events_def sample_config_def group_name_def default_config_def default_general_def)
  then have "shares_group (startup_events sample_config) (EndpointId 0) (EndpointId 1)" by (simp add: shares_group_def group_of_def)
  moreover have "snd ` set (spawned (sys_tcp s)) = {client}" by (simp add: one)
  ultimately show ?thesis using run one(2) by blast
qed

end
