(* ===== verification/Tlog.thy ===== *)
theory Tlog
  imports Stream_Loop Config
begin

text \<open>
  The telemetry log (\<open>src/endpoints/tlog.rs\<close>): a file of records, each the big-endian time stamp
  of a message followed by its bytes. The file system and the clock are the parameters of a run
  (\<open>tlog_env\<close>), the outcomes of the write and flush calls a script in the writer, and the branches
  that the select loop takes a list of events. A log reader, which the router does not
  contain, shows that the format loses nothing.
\<close>

section \<open>The loop\<close>

record tlog_writer =
  tl_bytes :: "byte list"
  tl_flushed :: nat
  tl_lagged :: u64
  tl_io :: "io_error option list"

datatype tlog_event = Tl_Cancelled | Tl_Tick | Tl_Recv recv_result

record tlog_env =
  dir_exists :: bool
  create_dir_all :: "io_error option"
  system_time :: "duration option"
  create_file :: "io_error option"

definition FLUSH_INTERVAL :: duration where
  "FLUSH_INTERVAL = from_secs 1"

definition to_be_bytes :: "u64 \<Rightarrow> byte list" where
  "to_be_bytes w = map (\<lambda>i. ucast (drop_bit (8 * (7 - i)) w)) [0..<8]"

definition tl_next_io :: "tlog_writer \<Rightarrow> io_error option \<times> tlog_writer" where
  "tl_next_io w = (case tl_io w of [] \<Rightarrow> (None, w) | r # rs \<Rightarrow> (r, w\<lparr>tl_io := rs\<rparr>))"

definition tl_write_all :: "byte list \<Rightarrow> tlog_writer \<Rightarrow> io_error option \<times> tlog_writer" where
  "tl_write_all bs w = (case tl_next_io w of
      (Some e, w') \<Rightarrow> (Some e, w') | (None, w') \<Rightarrow> (None, w'\<lparr>tl_bytes := tl_bytes w' @ bs\<rparr>))"

definition tl_flush :: "tlog_writer \<Rightarrow> io_error option \<times> tlog_writer" where
  "tl_flush w = (case tl_next_io w of
      (Some e, w') \<Rightarrow> (Some e, w') | (None, w') \<Rightarrow> (None, w'\<lparr>tl_flushed := length (tl_bytes w')\<rparr>))"

text \<open>The exit after cancellation or a closed bus: a failing flush is only reported.\<close>

definition tl_finish :: "tlog_writer \<Rightarrow> loop_end \<times> tlog_writer" where
  "tl_finish w = (Ended_Ok, snd (tl_flush w))"

definition tl_record :: "routed_message \<Rightarrow> tlog_writer \<Rightarrow> io_error option \<times> tlog_writer" where
  "tl_record msg w = (case tl_write_all (to_be_bytes (timestamp_us msg)) w of
      (Some e, w') \<Rightarrow> (Some e, w')
    | (None, w') \<Rightarrow> tl_write_all (serialized_bytes msg) w')"

fun tlog_loop :: "string \<Rightarrow> tlog_event list \<Rightarrow> tlog_writer \<Rightarrow> loop_end \<times> tlog_writer" where
  "tlog_loop path [] w = (Waiting, w)"
| "tlog_loop path (Tl_Cancelled # evs) w = tl_finish w"
| "tlog_loop path (Tl_Tick # evs) w =
     (case tl_flush w of
        (Some e, w') \<Rightarrow> (Ended_Err (filesystem_error path e), w')
      | (None, w') \<Rightarrow> tlog_loop path evs w')"
| "tlog_loop path (Tl_Recv (Recv_Ok msg) # evs) w =
     (case tl_record msg w of
        (Some e, w') \<Rightarrow> (Ended_Err (filesystem_error path e), w')
      | (None, w') \<Rightarrow> tlog_loop path evs w')"
| "tlog_loop path (Tl_Recv (Recv_Lagged n) # evs) w = tlog_loop path evs (w\<lparr>tl_lagged := tl_lagged w + n\<rparr>)"
| "tlog_loop path (Tl_Recv Recv_Closed # evs) w = tl_finish w"

definition tlog_path :: "tlog_env \<Rightarrow> string \<Rightarrow> string" where
  "tlog_path env logs_dir =
     (let since_the_epoch = (case system_time env of Some d \<Rightarrow> d | None \<Rightarrow> from_secs 0);
          since_the_epoch_us = (of_nat (as_micros since_the_epoch) :: u64)
      in path_join logs_dir (''flight_'' @ show_u64 since_the_epoch_us @ ''.tlog''))"

definition tlog_run :: "tlog_env \<Rightarrow> string \<Rightarrow> tlog_event list \<Rightarrow> tlog_writer \<Rightarrow> loop_end \<times> tlog_writer" where
  "tlog_run env logs_dir evs w =
     (case (if dir_exists env then None else create_dir_all env) of
        Some e \<Rightarrow> (Ended_Err (filesystem_error logs_dir e), w)
      | None \<Rightarrow>
          (case create_file env of
             Some e \<Rightarrow> (Ended_Err (filesystem_error (tlog_path env logs_dir) e), w)
           | None \<Rightarrow> tlog_loop (tlog_path env logs_dir) evs w))"

section \<open>What the log holds\<close>

text \<open>The messages received before the loop is cancelled or the bus closes.\<close>

definition ends_log :: "tlog_event \<Rightarrow> bool" where
  "ends_log ev \<longleftrightarrow> ev = Tl_Cancelled \<or> ev = Tl_Recv Recv_Closed"

fun received :: "tlog_event \<Rightarrow> routed_message list" where
  "received (Tl_Recv (Recv_Ok msg)) = [msg]"
| "received _ = []"

definition logged :: "tlog_event list \<Rightarrow> routed_message list" where
  "logged evs = concat (map received (takeWhile (Not \<circ> ends_log) evs))"

lemma logged_simps [simp]:
  "logged [] = []" "logged (Tl_Cancelled # evs) = []" "logged (Tl_Recv Recv_Closed # evs) = []"
  "logged (Tl_Tick # evs) = logged evs" "logged (Tl_Recv (Recv_Lagged n) # evs) = logged evs"
  "logged (Tl_Recv (Recv_Ok msg) # evs) = msg # logged evs"
  by (simp_all add: logged_def ends_log_def)

definition encode_log :: "routed_message list \<Rightarrow> byte list" where
  "encode_log msgs = concat (map (\<lambda>m. to_be_bytes (timestamp_us m) @ serialized_bytes m) msgs)"

lemma encode_log_simps [simp]:
  "encode_log [] = []"
  "encode_log (m # ms) = to_be_bytes (timestamp_us m) @ serialized_bytes m @ encode_log ms"
  by (simp_all add: encode_log_def)

text \<open>Outcomes of the writer's operations.\<close>

lemma tl_record_cases:
  obtains (whole) w' where "tl_record m w = (None, w')"
      "tl_bytes w' = tl_bytes w @ to_be_bytes (timestamp_us m) @ serialized_bytes m"
      "tl_io w' = drop 2 (tl_io w)" "tl_flushed w' = tl_flushed w"
  | (failed) e w' part where "tl_record m w = (Some e, w')" "tl_bytes w' = tl_bytes w @ part"
      "prefix part (to_be_bytes (timestamp_us m) @ serialized_bytes m)" "Some e \<in> set (tl_io w)"
proof (cases "tl_io w")
  case Nil
  then show thesis by (intro whole [of "w\<lparr>tl_bytes := tl_bytes w @ to_be_bytes (timestamp_us m) @ serialized_bytes m\<rparr>"]) (simp_all add: tl_record_def tl_write_all_def tl_next_io_def)
next
  case (Cons r rs)
  show thesis
  proof (cases r)
    case (Some e)
    then show thesis using Cons
      by (intro failed [of e "w\<lparr>tl_io := rs\<rparr>" "[]"]) (simp_all add: tl_record_def tl_write_all_def tl_next_io_def)
  next
    case None
    show thesis
    proof (cases rs)
      case Nil
      then show thesis using Cons None by (intro whole [of "w\<lparr>tl_io := [], tl_bytes := tl_bytes w @ to_be_bytes (timestamp_us m) @ serialized_bytes m\<rparr>"]) (simp_all add: tl_record_def tl_write_all_def tl_next_io_def)
    next
      case (Cons r' rs')
      show thesis
      proof (cases r')
        case None
        then show thesis using Cons \<open>tl_io w = r # rs\<close> \<open>r = None\<close>
          by (intro whole [of "w\<lparr>tl_io := rs', tl_bytes := tl_bytes w @ to_be_bytes (timestamp_us m) @ serialized_bytes m\<rparr>"]) (simp_all add: tl_record_def tl_write_all_def tl_next_io_def)
      next
        case (Some e)
        then show thesis using Cons \<open>tl_io w = r # rs\<close> \<open>r = None\<close>
          by (intro failed [of e "w\<lparr>tl_io := rs', tl_bytes := tl_bytes w @ to_be_bytes (timestamp_us m)\<rparr>"
                "to_be_bytes (timestamp_us m)"])
            (simp_all add: tl_record_def tl_write_all_def tl_next_io_def)
      qed
    qed
  qed
qed

section \<open>Runs\<close>

text \<open>
  Whatever the writer's calls return, the file holds a prefix of the records of the messages
  received; all of them when no call fails, and then an exit of the loop has flushed them.
\<close>

lemma tlog_loop_bytes:
  "\<exists>out. tl_bytes (snd (tlog_loop path evs w)) = tl_bytes w @ out \<and> prefix out (encode_log (logged evs)) \<and>
    (set (tl_io w) \<subseteq> {None} \<longrightarrow> out = encode_log (logged evs))"
proof (induction path evs w rule: tlog_loop.induct)
  case (2 path evs w)
  then show ?case by (auto simp: tl_finish_def tl_flush_def tl_next_io_def split: list.splits option.splits)
next
  case (3 path evs w)
  show ?case
  proof (cases "tl_flush w")
    case (Pair r w')
    have "tl_bytes w' = tl_bytes w" "r = None \<longrightarrow> set (tl_io w') \<subseteq> set (tl_io w)" "\<forall>e. r = Some e \<longrightarrow> Some e \<in> set (tl_io w)"
      using Pair by (auto simp: tl_flush_def tl_next_io_def split: list.splits option.splits)
    with Pair "3.IH" [of r w'] show ?thesis by (cases r) auto
  qed
next
  case (4 path msg evs w)
  show ?case
  proof (rule tl_record_cases [of msg w])
    fix w' assume w': "tl_record msg w = (None, w')" "tl_bytes w' = tl_bytes w @ to_be_bytes (timestamp_us msg) @ serialized_bytes msg"
      "tl_io w' = drop 2 (tl_io w)"
    with "4.IH" [of None w'] obtain out where
      "tl_bytes (snd (tlog_loop path evs w')) = tl_bytes w' @ out" "prefix out (encode_log (logged evs))"
      "set (tl_io w') \<subseteq> {None} \<longrightarrow> out = encode_log (logged evs)" by auto
    moreover have "set (tl_io w') \<subseteq> set (tl_io w)" using w'(3) by (simp add: set_drop_subset)
    ultimately show ?thesis using w'(1,2)
      by (intro exI [of _ "to_be_bytes (timestamp_us msg) @ serialized_bytes msg @ out"]) auto
  next
    fix e w' part assume "tl_record msg w = (Some e, w')" "tl_bytes w' = tl_bytes w @ part"
      "prefix part (to_be_bytes (timestamp_us msg) @ serialized_bytes msg)" "Some e \<in> set (tl_io w)"
    then show ?thesis by (intro exI [of _ part]) (auto simp del: append_assoc simp: append_assoc [symmetric] intro: prefix_prefix)
  qed
next
  case (6 path evs w)
  then show ?case by (auto simp: tl_finish_def tl_flush_def tl_next_io_def split: list.splits option.splits)
qed auto

lemma tlog_loop_flushed:
  "set (tl_io w) \<subseteq> {None} \<Longrightarrow> tlog_loop path evs w = (r, w') \<Longrightarrow>
    (if \<exists>ev\<in>set evs. ends_log ev then r = Ended_Ok \<and> tl_flushed w' = length (tl_bytes w') else r = Waiting)"
proof (induction path evs w arbitrary: r w' rule: tlog_loop.induct)
  case (3 path evs w)
  obtain r1 w1 where f: "tl_flush w = (r1, w1)" by force
  have "r1 = None \<and> set (tl_io w1) \<subseteq> {None}"
    using f "3.prems"(1) by (auto simp: tl_flush_def tl_next_io_def split: list.splits option.splits)
  with f "3.IH" [of r1 w1] "3.prems"(2) show ?case by (auto simp: ends_log_def)
next
  case (4 path msg evs w)
  show ?case
  proof (rule tl_record_cases [of msg w])
    fix w1 assume "tl_record msg w = (None, w1)" "tl_io w1 = drop 2 (tl_io w)"
    moreover from this "4.prems"(1) have "set (tl_io w1) \<subseteq> {None}" by (auto dest: in_set_dropD)
    ultimately show ?thesis using "4.IH" [of None w1] "4.prems"(2) by (auto simp: ends_log_def)
  next
    fix e assume "Some e \<in> set (tl_io w)"
    with "4.prems"(1) show ?thesis by auto
  qed
qed (auto simp: ends_log_def tl_finish_def tl_flush_def tl_next_io_def split: list.splits option.splits)

section \<open>Reading a log back\<close>

lemma length_to_be_bytes [simp]: "length (to_be_bytes w) = 8"
  by (simp add: to_be_bytes_def)

definition from_be_bytes :: "byte list \<Rightarrow> u64" where
  "from_be_bytes bs = foldl (\<lambda>w b. Bit_Operations.or (push_bit 8 w) (ucast b)) 0 bs"

lemma shift_in_byte:
  "Bit_Operations.or (push_bit 8 (drop_bit (m + 8) w)) (ucast (ucast (drop_bit m w) :: byte)) = drop_bit m w"
  for w :: u64
proof (rule bit_word_eqI)
  fix n assume "n < LENGTH(64)"
  then show "bit (Bit_Operations.or (push_bit 8 (drop_bit (m + 8) w)) (ucast (ucast (drop_bit m w) :: byte))) n = bit (drop_bit m w) n"
    by (cases "n < 8") (simp_all add: bit_simps not_less)
qed

lemma from_to_be_bytes [simp]: "from_be_bytes (to_be_bytes w) = w"
proof -
  let ?byte = "\<lambda>i. ucast (drop_bit (8 * (7 - i)) w) :: byte"
  have "k \<le> 8 \<Longrightarrow> from_be_bytes (map ?byte [0..<k]) = drop_bit (8 * (8 - k)) w" for k
  proof (induction k)
    case 0
    have "drop_bit 64 w = 0" by (rule bit_word_eqI) (simp add: bit_simps)
    then show ?case by (simp add: from_be_bytes_def)
  next
    case (Suc k)
    then have "8 * (8 - k) = 8 * (7 - k) + 8" by simp
    with Suc shift_in_byte [of "8 * (7 - k)" w] show ?case by (simp add: from_be_bytes_def)
  qed
  from this [of 8] show ?thesis by (simp add: to_be_bytes_def)
qed

text \<open>
  The size of a frame by the MAVLink wire format: version 1 has 8 bytes around the payload whose length is
  the second byte; version 2 has 12, and 13 more for a signature when the lowest bit of the third byte is set.
\<close>

definition frame_size :: "byte list \<Rightarrow> nat option" where
  "frame_size bs =
     (if length bs < 3 then None
      else if bs ! 0 = 0xFE then Some (8 + unat (bs ! 1))
      else if bs ! 0 = 0xFD then Some (12 + unat (bs ! 1) + (if bit (bs ! 2) 0 then 13 else 0))
      else None)"

definition whole_frame :: "byte list \<Rightarrow> bool" where
  "whole_frame bs \<longleftrightarrow> frame_size bs = Some (length bs)"

text \<open>A log reader takes a time stamp and the frame that follows, of either version, and goes on after it.\<close>

function read_log :: "byte list \<Rightarrow> (u64 \<times> byte list) list option" where
  "read_log bs =
     (if bs = [] then Some []
      else if length bs < 8 then None
      else case frame_size (drop 8 bs) of
        None \<Rightarrow> None
      | Some n \<Rightarrow> if length bs < 8 + n then None
          else map_option (Cons (from_be_bytes (take 8 bs), take n (drop 8 bs))) (read_log (drop (8 + n) bs)))"
  by pat_completeness auto
termination by (relation "measure length") auto

declare read_log.simps [simp del]

lemma frame_size_append: "frame_size bs = Some n \<Longrightarrow> frame_size (bs @ ext) = Some n"
  by (auto simp: frame_size_def nth_append split: if_splits)

lemma read_encode_log:
  assumes "\<forall>m \<in> set msgs. whole_frame (serialized_bytes m)"
  shows "read_log (encode_log msgs) = Some (map (\<lambda>m. (timestamp_us m, serialized_bytes m)) msgs)"
  using assms
proof (induction msgs)
  case Nil
  then show ?case by (simp add: read_log.simps)
next
  case (Cons m msgs)
  then have "frame_size (serialized_bytes m @ encode_log msgs) = Some (length (serialized_bytes m))"
    by (simp add: whole_frame_def frame_size_append)
  moreover have "to_be_bytes (timestamp_us m) \<noteq> []" by (metis length_0_conv length_to_be_bytes zero_neq_numeral)
  ultimately show ?case using Cons by (subst read_log.simps) simp
qed

text \<open>
  C37. The telemetry log round-trips. When the messages that the logger receives before it is
  cancelled or the bus closes hold whole frames of version 1 or 2, signed or not, all of them can be read
  back from the file, in order, each with its time stamp and its bytes. The logger returns exactly when it is cancelled
  or the bus closes, and then everything it wrote is flushed. Should a call of the file
  system fail, the file still holds a prefix of those records.
\<close>

theorem tlog_roundtrip:
  assumes "dir_exists env \<or> create_dir_all env = None" "create_file env = None" "tl_bytes w = []"
    and "tlog_run env dir evs w = (r, w')"
    and "\<forall>m \<in> set (logged evs). whole_frame (serialized_bytes m)"
  shows "prefix (tl_bytes w') (encode_log (logged evs)) \<and>
    (set (tl_io w) \<subseteq> {None} \<longrightarrow>
      read_log (tl_bytes w') = Some (map (\<lambda>m. (timestamp_us m, serialized_bytes m)) (logged evs)) \<and>
      (if \<exists>ev\<in>set evs. ends_log ev then r = Ended_Ok \<and> tl_flushed w' = length (tl_bytes w') else r = Waiting))"
proof -
  have "(if dir_exists env then None else create_dir_all env) = None" using assms(1) by auto
  then have run: "tlog_loop (tlog_path env dir) evs w = (r, w')" using assms(2,4) by (simp add: tlog_run_def)
  then have bytes: "prefix (tl_bytes w') (encode_log (logged evs))"
    "set (tl_io w) \<subseteq> {None} \<Longrightarrow> tl_bytes w' = encode_log (logged evs)"
    using tlog_loop_bytes [of "tlog_path env dir" evs w] assms(3) by auto
  with read_encode_log [OF assms(5)] tlog_loop_flushed [OF _ run] show ?thesis by simp
qed

definition sample_tlog_env :: tlog_env where
  "sample_tlog_env = \<lparr>dir_exists = False, create_dir_all = None, system_time = Some (from_secs 1), create_file = None\<rparr>"

definition tlog_writer_new :: tlog_writer where
  "tlog_writer_new = \<lparr>tl_bytes = [], tl_flushed = 0, tl_lagged = 0, tl_io = []\<rparr>"

text \<open>A frame of version 1 and a signed one of version 2, with payloads of one byte.\<close>

theorem tlog_roundtrip_witness:
  defines "old \<equiv> sample_message\<lparr>serialized_bytes := [0xFE, 1, 0, 1, 1, 0, 7, 0xA, 0xB]\<rparr>"
    and "sealed \<equiv> sample_message\<lparr>timestamp_us := 9, serialized_bytes := [0xFD, 1, 1] @ replicate 23 0\<rparr>"
  shows "read_log (tl_bytes (snd (tlog_run sample_tlog_env ''logs''
    [Tl_Tick, Tl_Recv (Recv_Ok old), Tl_Recv (Recv_Lagged 3), Tl_Recv (Recv_Ok sealed), Tl_Cancelled] tlog_writer_new))) =
    Some [(7, [0xFE, 1, 0, 1, 1, 0, 7, 0xA, 0xB]), (9, [0xFD, 1, 1] @ replicate 23 0)]"
proof -
  let ?evs = "[Tl_Tick, Tl_Recv (Recv_Ok old), Tl_Recv (Recv_Lagged 3), Tl_Recv (Recv_Ok sealed), Tl_Cancelled]"
  obtain r w' where run: "tlog_run sample_tlog_env ''logs'' ?evs tlog_writer_new = (r, w')" by force
  have "whole_frame (serialized_bytes old)" "whole_frame (serialized_bytes sealed)"
    by (simp_all add: old_def sealed_def whole_frame_def frame_size_def)
  then show ?thesis
    using tlog_roundtrip [OF _ _ _ run] run
    by (simp add: sample_tlog_env_def tlog_writer_new_def old_def sealed_def sample_message_def)
qed

end
