(* ===== verification/Stats.thy ===== *)
theory Stats
  imports Hub Errors Complex_Main
begin

text \<open>
  Statistics (\<open>stats_history.rs\<close>, \<open>stats_reporter.rs\<close> and \<open>stats_server.rs\<close> under
  \<open>src/orchestration/\<close>). \<open>VecDeque::partition_point\<close>, whose result is only documented for
  partitioned contents, is a parameter. The floating-point average is the exact
  quotient, and a \<open>usize\<close> sum wraps as in a release build.
\<close>

section \<open>The history\<close>

record stats_history =
  samples :: "routing_stats list"
  max_age_secs :: nat

text \<open>
  Reserving more than \<open>isize::MAX\<close> bytes panics; a sample is three \<open>usize\<close> and a \<open>u64\<close>.
\<close>

definition SAMPLE_BYTES :: nat where
  "SAMPLE_BYTES = 32"

definition stats_history_new :: "nat \<Rightarrow> stats_history outcome" where
  "stats_history_new max_age =
     (if max_age * SAMPLE_BYTES > 2 ^ 63 - 1 then Panics else Returns \<lparr>samples = [], max_age_secs = max_age\<rparr>)"

definition history_push :: "routing_stats \<Rightarrow> stats_history \<Rightarrow> stats_history" where
  "history_push stats h =
     (let pushed = samples h @ [stats];
          cutoff = saturating_sub (timestamp (last pushed)) (max_age_secs h)
      in h\<lparr>samples := dropWhile (\<lambda>oldest. timestamp oldest < cutoff) pushed\<rparr>)"

record aggregated_stats =
  avg_routes :: rat
  max_routes :: nat
  min_routes :: nat
  sample_count :: nat

type_synonym partition_point = "(routing_stats \<Rightarrow> bool) \<Rightarrow> routing_stats list \<Rightarrow> nat"

definition aggregate :: "partition_point \<Rightarrow> nat \<Rightarrow> stats_history \<Rightarrow> aggregated_stats option" where
  "aggregate partition_point window_secs h =
     (if samples h = [] then None
      else let cutoff = saturating_sub (timestamp (last (samples h))) window_secs;
               start_idx = partition_point (\<lambda>s. timestamp s < cutoff) (samples h)
        in if start_idx \<ge> length (samples h) then None
        else let window = drop start_idx (samples h);
               window_len = saturating_sub (length (samples h)) start_idx
        in if window_len = 0 then None
        else let (sum_routes, min_routes, max_routes) =
                 foldl (\<lambda>(sum, mn, mx) s. (wrapping_add sum (total_routes s), min mn (total_routes s), max mx (total_routes s)))
                   (0, USIZE_MAX, 0) window
        in if max_routes = 0 \<and> min_routes = USIZE_MAX then None
        else Some \<lparr>avg_routes = of_nat sum_routes / of_nat window_len, max_routes = max_routes,
               min_routes = min_routes, sample_count = window_len\<rparr>)"

section \<open>The reporter\<close>

datatype report_line =
    Last_Minute aggregated_stats
  | Last_Hour aggregated_stats
  | Retained nat aggregated_stats nat nat
  | Endpoint_Line endpoint_id string stats_snapshot

record reporter =
  rep_history :: stats_history
  last_log_time :: nat

text \<open>
  One sample: the table's statistics with the wall clock's seconds (0 before the epoch), and
  the lines that are logged when the interval has passed.
\<close>

definition report :: "partition_point \<Rightarrow> nat \<Rightarrow> (endpoint_id \<times> string \<times> endpoint_stats) list \<Rightarrow> routing_stats \<Rightarrow> stats_history \<Rightarrow> report_line list" where
  "report pp retention endpoint_stats stats history =
     (case aggregate pp 60 history of Some min1 \<Rightarrow> [Last_Minute min1] | None \<Rightarrow> []) @
     (case aggregate pp 3600 history of Some hour1 \<Rightarrow> [Last_Hour hour1] | None \<Rightarrow> []) @
     (case aggregate pp retention history of
        Some all \<Rightarrow> [Retained (retention div 3600) all (total_systems stats) (total_endpoints stats)] | None \<Rightarrow> []) @
     map (\<lambda>(ep_id, ep_name, ep_stats). Endpoint_Line ep_id ep_name (snapshot ep_stats)) endpoint_stats"

definition reporter_sample ::
    "partition_point \<Rightarrow> nat \<Rightarrow> nat \<Rightarrow> (endpoint_id \<times> string \<times> endpoint_stats) list \<Rightarrow> routing_table \<Rightarrow> duration option \<Rightarrow>
     reporter \<Rightarrow> report_line list \<times> reporter" where
  "reporter_sample pp retention log_interval endpoint_stats table unix_time r =
     (let stats = (rt_stats 0 table)\<lparr>timestamp := (case unix_time of Some d \<Rightarrow> as_secs d | None \<Rightarrow> 0)\<rparr>;
          current_timestamp = timestamp stats;
          history = history_push stats (rep_history r)
      in if saturating_sub current_timestamp (last_log_time r) \<ge> log_interval
         then (report pp retention endpoint_stats stats history,
               r\<lparr>rep_history := history, last_log_time := current_timestamp\<rparr>)
         else ([], r\<lparr>rep_history := history\<rparr>))"

text \<open>\<open>None\<close> when statistics are disabled; the task panics when the history cannot be reserved.\<close>

definition spawn_stats_reporter :: "nat \<Rightarrow> nat \<Rightarrow> reporter outcome option" where
  "spawn_stats_reporter sample_interval retention =
     (if sample_interval = 0 \<or> retention = 0 then None
      else Some (case stats_history_new retention of
          Panics \<Rightarrow> Panics | Returns h \<Rightarrow> Returns \<lparr>rep_history = h, last_log_time = 0\<rparr>))"

section \<open>The query socket\<close>

definition dquoted :: "string \<Rightarrow> string" where
  "dquoted s = [CHR 0x22] @ s @ [CHR 0x22]"

definition json_field :: "string \<Rightarrow> string \<Rightarrow> string" where
  "json_field name val = dquoted name @ '':'' @ val"

fun join_with :: "string \<Rightarrow> string list \<Rightarrow> string" where
  "join_with sep [] = []"
| "join_with sep [s] = s"
| "join_with sep (s # ss) = s @ sep @ join_with sep ss"

definition json_object :: "(string \<times> string) list \<Rightarrow> string" where
  "json_object fs = ''{'' @ join_with '','' (map (\<lambda>(n, v). json_field n v) fs) @ ''}''"

definition stats_json :: "routing_stats \<Rightarrow> string" where
  "stats_json s = json_object [(''total_systems'', show_nat (total_systems s)), (''total_routes'', show_nat (total_routes s)),
     (''total_endpoints'', show_nat (total_endpoints s)), (''timestamp'', show_nat (timestamp s))]"

fun endpoint_json :: "endpoint_id \<times> string \<times> endpoint_stats \<Rightarrow> string" where
  "endpoint_json (EndpointId n, name, st) = (let snap = snapshot st in
     json_object [(''id'', show_nat n), (''name'', dquoted name), (''msgs_in'', show_u64 (snap_msgs_in snap)),
       (''msgs_out'', show_u64 (snap_msgs_out snap)), (''bytes_in'', show_u64 (snap_bytes_in snap)),
       (''bytes_out'', show_u64 (snap_bytes_out snap)), (''errors'', show_u64 (snap_errors snap))])"

text \<open>The reply to a request; \<open>command\<close> is its text, decoded and trimmed.\<close>

definition stats_response :: "nat \<Rightarrow> routing_table \<Rightarrow> (endpoint_id \<times> string \<times> endpoint_stats) list \<Rightarrow> string \<Rightarrow> string" where
  "stats_response epoch_secs table ep_stats command =
     (if command = ''stats'' then stats_json (rt_stats epoch_secs table)
      else if command = ''endpoint_stats'' then ''['' @ join_with '','' (map endpoint_json ep_stats) @ '']''
      else if command = ''help'' then ''Available commands: stats, endpoint_stats, help''
      else ''Unknown command. Try '' @ [CHR 0x27] @ ''help'' @ [CHR 0x27])"

definition spawn_stats_socket :: "string \<Rightarrow> string option" where
  "spawn_stats_socket socket_path = (if socket_path = [] then None else Some (''Stats Socket '' @ socket_path))"

text \<open>
  The server behind the socket. The calls on the file system and the socket are outcomes of the
  environment; \<open>decode\<close> is the lossy UTF-8 decoding of a request with the white space trimmed.
\<close>

record stats_env =
  socket_exists :: bool
  remove_file :: "io_error option"
  bind_unix :: "io_error option"
  metadata :: "io_error option"
  set_permissions :: "io_error option"

definition stats_listen :: "stats_env \<Rightarrow> string \<Rightarrow> router_error + unit" where
  "stats_listen env socket_path =
     (case (if socket_exists env then remove_file env else None) of
        Some e \<Rightarrow> Inl (filesystem_error socket_path e)
      | None \<Rightarrow>
          (case bind_unix env of
             Some e \<Rightarrow> Inl (network_error socket_path e)
           | None \<Rightarrow>
               (case metadata env of
                  Some e \<Rightarrow> Inl (filesystem_error socket_path e)
                | None \<Rightarrow>
                    (case set_permissions env of
                       Some e \<Rightarrow> Inl (filesystem_error socket_path e)
                     | None \<Rightarrow> Inr ()))))"

definition REQUEST_BYTES :: nat where
  "REQUEST_BYTES = 1024"

text \<open>A client is answered from one read of at most 1024 bytes; a failed or empty read is not answered.\<close>

definition serve_client :: "(byte list \<Rightarrow> string) \<Rightarrow> nat \<Rightarrow> routing_table \<Rightarrow> (endpoint_id \<times> string \<times> endpoint_stats) list \<Rightarrow>
    io_error + byte list \<Rightarrow> string option" where
  "serve_client decode epoch_secs table ep_stats sent =
     (case sent of
        Inl e \<Rightarrow> None
      | Inr bytes \<Rightarrow> if bytes = [] then None
          else Some (stats_response epoch_secs table ep_stats (decode (take REQUEST_BYTES bytes))))"

lemma stats_listen_exact:
  "stats_listen env path = Inr () \<longleftrightarrow>
     (socket_exists env \<longrightarrow> remove_file env = None) \<and> bind_unix env = None \<and> metadata env = None \<and> set_permissions env = None"
  by (auto simp: stats_listen_def split: option.split if_splits)

section \<open>Windows\<close>

definition partition_ok :: "partition_point \<Rightarrow> bool" where
  "partition_ok pp \<longleftrightarrow> (\<forall>P xs i. i \<le> length xs \<and> list_all P (take i xs) \<and> list_all (Not \<circ> P) (drop i xs) \<longrightarrow> pp P xs = i)"

definition in_time_order :: "routing_stats list \<Rightarrow> bool" where
  "in_time_order xs \<longleftrightarrow> sorted (map timestamp xs)"

definition since :: "nat \<Rightarrow> routing_stats list \<Rightarrow> routing_stats list" where
  "since t xs = filter (\<lambda>s. t \<le> timestamp s) xs"

lemma since_sorted:
  "in_time_order xs \<Longrightarrow> dropWhile (\<lambda>s. timestamp s < t) xs = since t xs"
proof (induction xs)
  case (Cons x xs)
  then have IH: "dropWhile (\<lambda>s. timestamp s < t) xs = since t xs" by (simp add: in_time_order_def)
  show ?case
  proof (cases "timestamp x < t")
    case True
    with IH show ?thesis by (simp add: since_def)
  next
    case False
    with Cons.prems have "\<forall>s\<in>set (x # xs). t \<le> timestamp s" by (auto simp: in_time_order_def)
    with False show ?thesis by (simp add: since_def filter_id_conv)
  qed
qed (simp add: since_def)

lemma partition_since:
  assumes "partition_ok pp" "in_time_order xs"
  shows "drop (pp (\<lambda>s. timestamp s < t) xs) xs = since t xs"
    and "pp (\<lambda>s. timestamp s < t) xs = length xs - length (since t xs)"
proof -
  let ?P = "\<lambda>s. timestamp s < t" and ?i = "length (takeWhile (\<lambda>s. timestamp s < t) xs)"
  have d: "drop ?i xs = since t xs"
    using since_sorted [OF assms(2)] by (simp add: dropWhile_eq_drop)
  moreover have "take ?i xs = takeWhile ?P xs" by (simp add: takeWhile_eq_take [symmetric])
  moreover have "list_all ?P (takeWhile ?P xs)" by (auto simp: list_all_iff dest: set_takeWhileD)
  moreover have "list_all (Not \<circ> ?P) (since t xs)" by (simp add: since_def list_all_iff)
  ultimately have p: "pp ?P xs = ?i"
    using assms(1) length_takeWhile_le [of ?P xs] by (simp add: partition_ok_def)
  with d show "drop (pp ?P xs) xs = since t xs" by simp
  show "pp ?P xs = length xs - length (since t xs)"
    unfolding p d [symmetric] using length_takeWhile_le [of ?P xs] by simp
qed

section \<open>Aggregation\<close>

text \<open>Pushing samples in time order keeps those within the retention of the newest.\<close>

definition history_of :: "nat \<Rightarrow> routing_stats list \<Rightarrow> stats_history" where
  "history_of max_age xs = fold history_push xs \<lparr>samples = [], max_age_secs = max_age\<rparr>"

lemma max_age_push [simp]: "max_age_secs (history_push s h) = max_age_secs h"
  by (simp add: history_push_def Let_def)

lemma max_age_history [simp]: "max_age_secs (history_of max_age xs) = max_age"
proof -
  have "max_age_secs (fold history_push xs h) = max_age_secs h" for h by (induction xs arbitrary: h) simp_all
  then show ?thesis by (simp add: history_of_def)
qed

lemma history_of_snoc: "history_of max_age (xs @ [s]) = history_push s (history_of max_age xs)"
  by (simp add: history_of_def)

lemma samples_history_of:
  "in_time_order xs \<Longrightarrow> xs \<noteq> [] \<Longrightarrow> samples (history_of max_age xs) = since (timestamp (last xs) - max_age) xs"
proof (induction xs rule: rev_induct)
  case (snoc s xs)
  let ?c = "timestamp s - max_age"
  have o: "in_time_order xs" "\<forall>x\<in>set xs. timestamp x \<le> timestamp s"
    using snoc.prems(1) by (simp_all add: in_time_order_def sorted_append)
  have kept: "since ?c (samples (history_of max_age xs)) = since ?c xs"
  proof (cases "xs = []")
    case True
    then show ?thesis by (simp add: history_of_def since_def)
  next
    case False
    then have "timestamp (last xs) - max_age \<le> ?c" using o(2) by (simp add: diff_le_mono)
    with snoc.IH [OF o(1) False] show ?thesis by (auto simp: since_def intro!: filter_cong)
  qed
  have sub: "set (samples (history_of max_age xs)) \<subseteq> set xs" and sorted: "in_time_order (samples (history_of max_age xs))"
  proof -
    have "xs = [] \<or> samples (history_of max_age xs) = since (timestamp (last xs) - max_age) xs"
      using snoc.IH o(1) by blast
    then show "set (samples (history_of max_age xs)) \<subseteq> set xs" "in_time_order (samples (history_of max_age xs))"
      using o(1) by (auto simp: since_def history_of_def in_time_order_def sorted_filter)
  qed
  have "in_time_order (samples (history_of max_age xs) @ [s])"
    using sorted sub o(2) by (auto simp: in_time_order_def sorted_append)
  from since_sorted [OF this, of ?c] kept show ?case
    by (simp add: history_of_snoc history_push_def saturating_sub_def since_def)
qed simp

lemma since_since: "since a (since b xs) = since (max a b) xs"
  by (auto simp: since_def intro!: filter_cong)

text \<open>The single pass over the window, as long as the sum fits a word.\<close>

lemma fold_window:
  assumes "a + sum_list (map total_routes xs) \<le> USIZE_MAX"
  shows "foldl (\<lambda>(sum, mn, mx) s. (wrapping_add sum (total_routes s), min mn (total_routes s), max mx (total_routes s))) (a, l, u) xs =
    (a + sum_list (map total_routes xs), fold (\<lambda>s m. min m (total_routes s)) xs l, fold (\<lambda>s m. max m (total_routes s)) xs u)"
  using assms by (induction xs arbitrary: a l u) (simp_all add: wrapping_add_exact add.assoc)

lemma fold_min_Min: "xs \<noteq> [] \<Longrightarrow> \<forall>x\<in>set xs. f x \<le> b \<Longrightarrow> fold (\<lambda>s m. min m (f s)) xs (b :: nat) = Min (f ` set xs)"
proof -
  have "fold (\<lambda>s m. min m (f s)) xs b = Min (insert b (f ` set xs))" for xs :: "'a list" and b
    by (induction xs arbitrary: b) (simp, case_tac "xs = []", simp_all add: min.assoc)
  moreover assume xs: "xs \<noteq> []" "\<forall>x\<in>set xs. f x \<le> b"
  then have "Min (f ` set xs) \<le> f (hd xs)" "f (hd xs) \<le> b" by simp_all
  then have "Min (f ` set xs) \<le> b" by (rule order_trans)
  with xs(1) have "Min (insert b (f ` set xs)) = Min (f ` set xs)" by simp
  ultimately show ?thesis by simp
qed

lemma fold_max_Max: "xs \<noteq> [] \<Longrightarrow> fold (\<lambda>s m. max m (f s)) xs (0 :: nat) = Max (f ` set xs)"
proof -
  have "fold (\<lambda>s m. max m (f s)) xs b = Max (insert b (f ` set xs))" for xs :: "'a list" and b
    by (induction xs arbitrary: b) (simp, case_tac "xs = []", simp_all add: max.assoc)
  then show "xs \<noteq> [] \<Longrightarrow> fold (\<lambda>s m. max m (f s)) xs 0 = Max (f ` set xs)" by simp
qed

lemma fold_over_window:
  assumes "win \<noteq> []" "\<forall>s\<in>set win. total_routes s \<le> 65536" "length win < 2 ^ 47"
  shows "foldl (\<lambda>(sum, mn, mx) s. (wrapping_add sum (total_routes s), min mn (total_routes s), max mx (total_routes s)))
      (0, USIZE_MAX, 0) win = (sum_list (map total_routes win), Min (total_routes ` set win), Max (total_routes ` set win))"
    and "Min (total_routes ` set win) \<noteq> USIZE_MAX"
proof -
  have "sum_list (map total_routes win) \<le> length win * 65536"
    using assms(2) sum_list_mono [of win total_routes "\<lambda>_. 65536"] by (auto simp: sum_list_triv)
  then have "0 + sum_list (map total_routes win) \<le> USIZE_MAX" using assms(3) by (simp add: USIZE_MAX_def)
  note sum = fold_window [OF this, of USIZE_MAX 0]
  have "(65536 :: nat) \<le> USIZE_MAX" by (simp add: USIZE_MAX_def)
  with assms(2) have "\<forall>s\<in>set win. total_routes s \<le> USIZE_MAX" using order_trans by blast
  from sum fold_min_Min [OF assms(1) this] fold_max_Max [OF assms(1), of total_routes]
  show "foldl (\<lambda>(sum, mn, mx) s. (wrapping_add sum (total_routes s), min mn (total_routes s), max mx (total_routes s)))
      (0, USIZE_MAX, 0) win = (sum_list (map total_routes win), Min (total_routes ` set win), Max (total_routes ` set win))"
    by simp
  have "Min (total_routes ` set win) \<le> 65536"
    using assms(1,2) by (intro order_trans [OF Min_le [of _ "total_routes (hd win)"]]) simp_all
  then show "Min (total_routes ` set win) \<noteq> USIZE_MAX" by (simp add: USIZE_MAX_def)
qed

text \<open>
  C38. The statistics windows are exact. While the clock does not run backwards, the history
  after any samples holds those within the retention of the newest one, and the aggregate of a
  window is never missing: it is the average, minimum, maximum and number of routes over the
  samples within the window (and the retention) of the newest. A table holds at most 65536 routes, so
  the sum does not overflow for the number of samples that fit in memory.
\<close>

theorem aggregate_exact:
  assumes "partition_ok pp" "in_time_order xs" "xs \<noteq> []"
    and "\<forall>s \<in> set xs. total_routes s \<le> 65536" "length xs < 2 ^ 47"
  shows "samples (history_of max_age xs) = since (timestamp (last xs) - max_age) xs \<and>
    aggregate pp window_secs (history_of max_age xs) =
      (let win = since (timestamp (last xs) - min window_secs max_age) xs; rs = map total_routes win in
       Some \<lparr>avg_routes = of_nat (sum_list rs) / of_nat (length rs), max_routes = Max (set rs),
         min_routes = Min (set rs), sample_count = length rs\<rparr>)"
proof
  define h where "h = history_of max_age xs"
  define t where "t = timestamp (last xs)"
  define win where "win = since (t - min window_secs max_age) xs"
  show h: "samples (history_of max_age xs) = since (timestamp (last xs) - max_age) xs"
    using samples_history_of [OF assms(2,3)] .
  have newest: "last xs \<in> set xs" "t - k \<le> timestamp (last xs)" for k using assms(3) by (simp_all add: t_def)
  have "xs = butlast xs @ [last xs]" using assms(3) by simp
  then have last_since: "since (t - k) xs = since (t - k) (butlast xs) @ [last xs]" for k
    using newest(2) [of k] by (metis (no_types, lifting) filter.simps filter_append since_def)
  have s: "samples h = since (t - max_age) xs" by (simp add: h_def h t_def)
  then have ne: "samples h \<noteq> []" "last (samples h) = last xs" using last_since by simp_all
  have ord: "in_time_order (samples h)"
    using assms(2) by (simp add: s since_def in_time_order_def sorted_filter)
  have "since (t - window_secs) (samples h) = win"
    by (simp add: s since_since win_def min_def max_def) (metis diff_le_mono2 linear order_antisym)
  then have d: "drop (pp (\<lambda>s. timestamp s < t - window_secs) (samples h)) (samples h) = win"
    and p: "pp (\<lambda>s. timestamp s < t - window_secs) (samples h) = length (samples h) - length win"
    using partition_since [OF assms(1) ord, of "t - window_secs"] by simp_all
  have win: "win \<noteq> []" "set win \<subseteq> set xs" by (simp add: win_def last_since) (auto simp: win_def since_def)
  have "length win \<le> length (samples h)" using d by (metis diff_le_self length_drop)
  with win(1) p have i: "\<not> length (samples h) \<le> pp (\<lambda>s. timestamp s < t - window_secs) (samples h)"
    "length (samples h) - pp (\<lambda>s. timestamp s < t - window_secs) (samples h) = length win" by (cases win; simp)+
  have "length win \<le> length xs" by (simp add: win_def since_def)
  with assms(4,5) win have small: "\<forall>s\<in>set win. total_routes s \<le> 65536" "length win < 2 ^ 47" by auto
  note f = fold_over_window [OF win(1) small]
  show "aggregate pp window_secs (history_of max_age xs) =
      (let win = since (timestamp (last xs) - min window_secs max_age) xs; rs = map total_routes win in
       Some \<lparr>avg_routes = of_nat (sum_list rs) / of_nat (length rs), max_routes = Max (set rs),
         min_routes = Min (set rs), sample_count = length rs\<rparr>)"
    using ne i d f win(1) unfolding h_def [symmetric] t_def [symmetric] win_def [symmetric]
    by (simp add: aggregate_def saturating_sub_def Let_def t_def [symmetric])
qed

definition linear_partition_point :: partition_point where
  "linear_partition_point P xs = length (takeWhile P xs)"

lemma linear_partition_point_ok: "partition_ok linear_partition_point"
  unfolding partition_ok_def
proof (intro allI impI)
  fix P :: "routing_stats \<Rightarrow> bool" and xs i
  assume a: "i \<le> length xs \<and> list_all P (take i xs) \<and> list_all (Not \<circ> P) (drop i xs)"
  then have "takeWhile P (take i xs @ drop i xs) = take i xs @ takeWhile P (drop i xs)"
    by (intro takeWhile_append2) (simp add: list_all_iff)
  moreover have "takeWhile P (drop i xs) = []" using a by (cases "drop i xs") simp_all
  ultimately have "takeWhile P xs = take i xs" by simp
  with a show "linear_partition_point P xs = i" by (simp add: linear_partition_point_def)
qed

definition sample_stats :: "nat \<Rightarrow> nat \<Rightarrow> routing_stats" where
  "sample_stats t n = \<lparr>total_systems = 1, total_routes = n, total_endpoints = 1, timestamp = t\<rparr>"

theorem aggregate_exact_witness:
  "aggregate linear_partition_point 60 (history_of 100 [sample_stats 10 9, sample_stats 100 2, sample_stats 130 4]) =
     Some \<lparr>avg_routes = 3, max_routes = 4, min_routes = 2, sample_count = 2\<rparr>"
  using aggregate_exact [OF linear_partition_point_ok, of "[sample_stats 10 9, sample_stats 100 2, sample_stats 130 4]" 100 60]
  by (simp add: in_time_order_def sample_stats_def since_def)

section \<open>The tasks\<close>

text \<open>
  The reporter task: what it wakes up for, a cancellation or the end of its sleep, with the table, the
  wall clock and the counters that it reads then. Its lines are collected; \<open>True\<close> when it has stopped.
\<close>

datatype reporter_event =
    Reporter_Cancelled
  | Sample_Due routing_table "duration option" "(endpoint_id \<times> string \<times> endpoint_stats) list"

fun reporter_loop :: "partition_point \<Rightarrow> nat \<Rightarrow> nat \<Rightarrow> reporter_event list \<Rightarrow> reporter \<Rightarrow> report_line list \<times> bool \<times> reporter" where
  "reporter_loop pp retention log_interval [] r = ([], False, r)"
| "reporter_loop pp retention log_interval (Reporter_Cancelled # evs) r = ([], True, r)"
| "reporter_loop pp retention log_interval (Sample_Due table unix_time endpoint_stats # evs) r =
     (let (lines, r') = reporter_sample pp retention log_interval endpoint_stats table unix_time r;
          (lines', stopped, r'') = reporter_loop pp retention log_interval evs r'
      in (lines @ lines', stopped, r''))"

text \<open>The samples that are taken before the cancellation.\<close>

fun samples_taken :: "reporter_event list \<Rightarrow> routing_stats list" where
  "samples_taken (Sample_Due table unix_time endpoint_stats # evs) =
     (rt_stats 0 table)\<lparr>timestamp := (case unix_time of Some d \<Rightarrow> as_secs d | None \<Rightarrow> 0)\<rparr> # samples_taken evs"
| "samples_taken _ = []"

lemma reporter_sample_history:
  "rep_history (snd (reporter_sample pp retention log_interval endpoint_stats table unix_time r)) =
     history_push ((rt_stats 0 table)\<lparr>timestamp := (case unix_time of Some d \<Rightarrow> as_secs d | None \<Rightarrow> 0)\<rparr>) (rep_history r)"
  by (simp add: reporter_sample_def Let_def)

lemma reporter_loop_history:
  "rep_history (snd (snd (reporter_loop pp retention log_interval evs r))) = fold history_push (samples_taken evs) (rep_history r)"
proof (induction evs arbitrary: r)
  case (Cons ev evs)
  then show ?case by (cases ev) (simp_all add: split_beta Let_def reporter_sample_history)
qed simp

text \<open>So the history of a spawned reporter is that of its samples, to which the aggregation results apply.\<close>

lemma spawned_reporter_history:
  assumes "spawn_stats_reporter sample_interval retention = Some (Returns r)"
  shows "rep_history (snd (snd (reporter_loop pp retention log_interval evs r))) = history_of retention (samples_taken evs)"
  using assms
  by (auto simp: reporter_loop_history history_of_def spawn_stats_reporter_def stats_history_new_def split: if_splits)

text \<open>
  The server task after its set-up: a cancellation, on which the socket file is removed when it exists,
  a failed accept, and a client, which is served by a task of its own at some later time.
\<close>

datatype server_event =
    Query_Cancelled bool "io_error option"
  | Query_Accept_Error io_error
  | Query_Client nat routing_table "(endpoint_id \<times> string \<times> endpoint_stats) list" "io_error + byte list"

text \<open>The replies, and when the server has stopped whether it left the socket file behind.\<close>

fun server_loop :: "(byte list \<Rightarrow> string) \<Rightarrow> server_event list \<Rightarrow> string option list \<times> bool option" where
  "server_loop decode [] = ([], None)"
| "server_loop decode (Query_Cancelled path_exists removal # evs) = ([], Some (path_exists \<and> removal \<noteq> None))"
| "server_loop decode (Query_Accept_Error e # evs) = server_loop decode evs"
| "server_loop decode (Query_Client epoch_secs table ep_stats sent # evs) =
     (let (replies, left) = server_loop decode evs in (serve_client decode epoch_secs table ep_stats sent # replies, left))"

definition run_stats_server :: "(byte list \<Rightarrow> string) \<Rightarrow> stats_env \<Rightarrow> string \<Rightarrow> server_event list \<Rightarrow>
    router_error + (string option list \<times> bool option)" where
  "run_stats_server decode env socket_path evs =
     (case stats_listen env socket_path of Inl e \<Rightarrow> Inl e | Inr u \<Rightarrow> Inr (server_loop decode evs))"

text \<open>Failed accepts and silent clients do not stop the server: every client before the cancellation is served.\<close>

lemma server_loop_serves:
  assumes "\<forall>ev \<in> set evs. \<forall>b r. ev \<noteq> Query_Cancelled b r"
  shows "server_loop decode (evs @ Query_Cancelled path_exists removal # evs') =
    (concat (map (\<lambda>ev. case ev of Query_Client epoch_secs table ep_stats sent \<Rightarrow> [serve_client decode epoch_secs table ep_stats sent]
       | _ \<Rightarrow> []) evs), Some (path_exists \<and> removal \<noteq> None))"
  using assms
proof (induction evs)
  case (Cons ev evs)
  then show ?case by (cases ev) force+
qed simp

text \<open>
  A retention is not bounded by validation, and reserving the history panics when its size in
  bytes exceeds \<open>isize::MAX\<close>.
\<close>

lemma retention_panics: "2 ^ 58 \<le> retention \<Longrightarrow> sample_interval \<noteq> 0 \<Longrightarrow>
    spawn_stats_reporter sample_interval retention = Some Panics"
  by (simp add: spawn_stats_reporter_def stats_history_new_def SAMPLE_BYTES_def)

end
