(* ===== verification/Run_Loop.thy ===== *)
theory Run_Loop
  imports Orchestration Stats
begin

text \<open>
  The reload loop (\<open>run_with_signals\<close> in \<open>src/run_loop.rs\<close>) as a step relation. A state is a place
  where the loop waits; an input is what it is waiting for, with the file system that a load of the
  configuration reads; a step emits the events of \<open>RunEvent\<close>, the cancellation of the session's
  token and the tasks it aborts. A signal source that is closed counts as a signal, as it does there.
\<close>

section \<open>States and steps\<close>

datatype run_event =
    Config_Loaded nat
  | Reload_Attempted
  | Reload_Succeeded
  | Reload_Skipped string
  | Shutdown_Started

datatype run_action = Emit run_event | Cancel | Abort "string list"

datatype run_input =
    Load config_env
  | Restart
  | Shutdown_Signal
  | Hup config_env
  | All_Tasks_Done
  | Torn_Down "running_task list"

datatype run_state =
    Starting "config option"
  | Running config "string list"
  | Stopping "config option" bool "string list"
  | Exited "router_error + unit"
  | Crashed

definition SHUTDOWN_BUDGET :: duration where
  "SHUTDOWN_BUDGET = from_secs 5"

definition stats_tasks :: "general_config \<Rightarrow> string list" where
  "stats_tasks g =
     (case spawn_stats_reporter (stats_sample_interval_secs g) (stats_retention_secs g) of
        None \<Rightarrow> [] | Some _ \<Rightarrow> [''Stats Reporter'']) @
     (case stats_socket_path g of
        None \<Rightarrow> []
      | Some socket_path \<Rightarrow> (case spawn_stats_socket socket_path of None \<Rightarrow> [] | Some name \<Rightarrow> [name]))"

definition enter_session :: "config \<Rightarrow> run_action list \<times> run_state" where
  "enter_session cfg =
     ([Emit (Config_Loaded (length (endpoint cfg)))],
      if \<not> has_endpoints cfg then Exited (Inr ())
      else case spawn_all cfg of
          Panics \<Rightarrow> Crashed
        | Returns orch \<Rightarrow> Running cfg (map task_name (tasks orch) @ stats_tasks (general cfg)))"

inductive run_step :: "string \<Rightarrow> string option \<Rightarrow> run_state \<Rightarrow> run_input \<Rightarrow> run_action list \<Rightarrow> run_state \<Rightarrow> bool"
  for config_path config_dir where
  load_ok: "load_merged env (Some config_path) config_dir = Inr cfg \<Longrightarrow> enter_session cfg = (acts, st) \<Longrightarrow>
    run_step config_path config_dir (Starting None) (Load env) acts st"
| load_err: "load_merged env (Some config_path) config_dir = Inl e \<Longrightarrow>
    run_step config_path config_dir (Starting None) (Load env) [] (Exited (Inl e))"
| restart: "enter_session cfg = (acts, st) \<Longrightarrow>
    run_step config_path config_dir (Starting (Some cfg)) Restart acts st"
| shutdown: "run_step config_path config_dir (Running cfg names) Shutdown_Signal
    [Emit Shutdown_Started, Cancel] (Stopping None False names)"
| all_done: "run_step config_path config_dir (Running cfg names) All_Tasks_Done
    [Emit Shutdown_Started, Cancel] (Stopping None False names)"
| reload_ok: "load_merged env (Some config_path) config_dir = Inr validated_config \<Longrightarrow>
    run_step config_path config_dir (Running cfg names) (Hup env)
      [Emit Reload_Attempted, Emit Reload_Succeeded, Emit Shutdown_Started, Cancel] (Stopping (Some validated_config) True names)"
| reload_err: "load_merged env (Some config_path) config_dir = Inl e \<Longrightarrow>
    run_step config_path config_dir (Running cfg names) (Hup env)
      [Emit Reload_Attempted, Emit (Reload_Skipped (show_router_error e))] (Running cfg names)"
| torn_down: "map running_name ts = names \<Longrightarrow> shutdown_with_timeout ts SHUTDOWN_BUDGET = (in_time, remaining) \<Longrightarrow>
    run_step config_path config_dir (Stopping next_config reload names) (Torn_Down ts)
      [Abort (map running_name remaining)] (if reload then Starting next_config else Exited (Inr ()))"

code_pred (modes: i \<Rightarrow> i \<Rightarrow> i \<Rightarrow> i \<Rightarrow> o \<Rightarrow> o \<Rightarrow> bool as next_step) run_step .

inductive_cases run_stepE: "run_step p d st inp acts st'"

inductive_simps run_step_Starting: "run_step p d (Starting next_config) inp acts st"
inductive_simps run_step_Running: "run_step p d (Running cfg names) inp acts st"
inductive_simps run_step_Stopping: "run_step p d (Stopping next_config reload names) inp acts st"
inductive_simps run_step_Exited [simp]: "run_step p d (Exited r) inp acts st"
inductive_simps run_step_Crashed [simp]: "run_step p d Crashed inp acts st"

text \<open>The runs from the call: the inputs, the actions and the state reached.\<close>

inductive run :: "string \<Rightarrow> string option \<Rightarrow> run_input list \<Rightarrow> run_action list \<Rightarrow> run_state \<Rightarrow> bool"
  for config_path config_dir where
  run_start: "run config_path config_dir [] [] (Starting None)"
| run_snoc: "run config_path config_dir ins acts st \<Longrightarrow> run_step config_path config_dir st inp acts' st' \<Longrightarrow>
    run config_path config_dir (ins @ [inp]) (acts @ acts') st'"

section \<open>Determinism and progress\<close>

lemma run_step_deterministic:
  "run_step p d st inp acts1 st1 \<Longrightarrow> run_step p d st inp acts2 st2 \<Longrightarrow> acts1 = acts2 \<and> st1 = st2"
  by (cases st) (auto simp: run_step_Starting run_step_Running run_step_Stopping)

text \<open>The loop is never stuck: in every state but the final ones each input it waits for leads on.\<close>

lemma starting_progress: "\<exists>acts st'. run_step p d (Starting None) (Load env) acts st'"
  by (cases "load_merged env (Some p) d") (auto simp: run_step_Starting)

lemma running_progress: "\<exists>acts st'. run_step p d (Running cfg names) (Hup env) acts st'"
  by (cases "load_merged env (Some p) d") (auto simp: run_step_Running)

section \<open>What a run has loaded\<close>

definition load_result :: "string \<Rightarrow> string option \<Rightarrow> run_input \<Rightarrow> config option" where
  "load_result p d inp =
     (case inp of
        Load env \<Rightarrow> (case load_merged env (Some p) d of Inr cfg \<Rightarrow> Some cfg | Inl _ \<Rightarrow> None)
      | Hup env \<Rightarrow> (case load_merged env (Some p) d of Inr cfg \<Rightarrow> Some cfg | Inl _ \<Rightarrow> None)
      | _ \<Rightarrow> None)"

definition last_loaded :: "string \<Rightarrow> string option \<Rightarrow> run_input list \<Rightarrow> config option" where
  "last_loaded p d ins = fold (\<lambda>inp c. case load_result p d inp of Some cfg \<Rightarrow> Some cfg | None \<Rightarrow> c) ins None"

lemma last_loaded_simps [simp]:
  "last_loaded p d [] = None"
  "last_loaded p d (ins @ [inp]) = (case load_result p d inp of Some cfg \<Rightarrow> Some cfg | None \<Rightarrow> last_loaded p d ins)"
  by (simp_all add: last_loaded_def split: option.split)

lemma last_loaded_single [simp]: "last_loaded p d [inp] = load_result p d inp"
  by (simp add: last_loaded_def split: option.split)

definition sessions_begun :: "run_action list \<Rightarrow> nat" where
  "sessions_begun acts = length (filter (\<lambda>a. case a of Emit (Config_Loaded _) \<Rightarrow> True | _ \<Rightarrow> False) acts)"

definition sessions_ended :: "run_action list \<Rightarrow> nat" where
  "sessions_ended acts = length (filter (\<lambda>a. case a of Abort _ \<Rightarrow> True | _ \<Rightarrow> False) acts)"

text \<open>The inputs that end a session for good.\<close>

definition ends_session :: "run_input set" where
  "ends_session = {Shutdown_Signal, All_Tasks_Done}"

text \<open>The invariant of the loop, by the state it is in.\<close>

fun run_ok :: "string \<Rightarrow> string option \<Rightarrow> run_input list \<Rightarrow> run_action list \<Rightarrow> run_state \<Rightarrow> bool" where
  "run_ok p d ins acts (Starting None) \<longleftrightarrow> ins = [] \<and> acts = []"
| "run_ok p d ins acts (Starting (Some cfg)) \<longleftrightarrow>
     last_loaded p d ins = Some cfg \<and> valid_config cfg \<and> ends_session \<inter> set ins = {} \<and>
     sessions_begun acts = sessions_ended acts \<and> count_list acts Cancel = sessions_ended acts"
| "run_ok p d ins acts (Running cfg names) \<longleftrightarrow>
     last_loaded p d ins = Some cfg \<and> valid_config cfg \<and> has_endpoints cfg \<and> ends_session \<inter> set ins = {} \<and>
     sessions_begun acts = Suc (sessions_ended acts) \<and> count_list acts Cancel = sessions_ended acts"
| "run_ok p d ins acts (Stopping next_config reload names) \<longleftrightarrow>
     sessions_begun acts = Suc (sessions_ended acts) \<and> count_list acts Cancel = Suc (sessions_ended acts) \<and>
     (if reload then (\<exists>cfg. next_config = Some cfg \<and> last_loaded p d ins = Some cfg \<and> valid_config cfg) \<and>
         ends_session \<inter> set ins = {}
      else ends_session \<inter> set ins \<noteq> {})"
| "run_ok p d ins acts (Exited (Inl e)) \<longleftrightarrow> (\<exists>env. ins = [Load env] \<and> load_merged env (Some p) d = Inl e) \<and> acts = []"
| "run_ok p d ins acts (Exited (Inr u)) \<longleftrightarrow>
     (ends_session \<inter> set ins \<noteq> {} \<or> (\<exists>cfg. last_loaded p d ins = Some cfg \<and> \<not> has_endpoints cfg)) \<and>
     count_list acts Cancel = sessions_ended acts"
| "run_ok p d ins acts Crashed \<longleftrightarrow>
     (\<exists>cfg. last_loaded p d ins = Some cfg \<and> \<not> wheel_fits (config_period (general cfg)))"

lemma counts [simp]:
  "sessions_begun [] = 0" "sessions_ended [] = 0"
  "sessions_begun (a # as) = (case a of Emit (Config_Loaded _) \<Rightarrow> 1 | _ \<Rightarrow> 0) + sessions_begun as"
  "sessions_ended (a # as) = (case a of Abort _ \<Rightarrow> 1 | _ \<Rightarrow> 0) + sessions_ended as"
  "sessions_begun (as @ bs) = sessions_begun as + sessions_begun bs"
  "sessions_ended (as @ bs) = sessions_ended as + sessions_ended bs"
  by (auto simp: sessions_begun_def sessions_ended_def split: run_action.split run_event.split)

lemma enter_session_ok:
  assumes "valid_config cfg" "enter_session cfg = (acts', st)" "last_loaded p d ins = Some cfg"
    "ends_session \<inter> set ins = {}" "sessions_begun acts = sessions_ended acts" "count_list acts Cancel = sessions_ended acts"
  shows "run_ok p d ins (acts @ acts') st"
proof (cases "has_endpoints cfg")
  case True
  then show ?thesis using assms by (auto simp: enter_session_def spawn_all_valid [OF assms(1)] split: if_splits)
next
  case False
  then show ?thesis using assms by (auto simp: enter_session_def)
qed

lemma run_step_ok:
  assumes "run_step p d st inp acts' st'" "run_ok p d ins acts st"
  shows "run_ok p d (ins @ [inp]) (acts @ acts') st'"
  using assms
proof cases
  case (load_ok env cfg)
  then show ?thesis using assms(2) load_merged_valid [OF load_ok(3)]
    by (intro enter_session_ok) (auto simp: load_result_def ends_session_def)
next
  case (restart cfg)
  then show ?thesis using assms(2) by (auto intro!: enter_session_ok simp: load_result_def ends_session_def)
next
  case (reload_ok env validated_config cfg names)
  then show ?thesis using assms(2) load_merged_valid [OF reload_ok(5)] by (auto simp: load_result_def ends_session_def)
qed (auto simp: load_result_def ends_session_def split: if_splits)

lemma run_invariant: "run p d ins acts st \<Longrightarrow> run_ok p d ins acts st"
  by (induction rule: run.induct) (auto intro: run_step_ok)

lemma shutdown_announced: "run p d ins acts st \<Longrightarrow> count_list acts (Emit Shutdown_Started) = count_list acts Cancel"
proof (induction rule: run.induct)
  case (run_snoc ins acts st inp acts' st')
  from run_snoc.hyps(2) have "count_list acts' (Emit Shutdown_Started) = count_list acts' Cancel"
    by cases (auto simp: enter_session_def)
  with run_snoc.IH show ?case by simp
qed simp

text \<open>
  C15. Reloading is safe. In every reachable state: while the router runs, it runs the configuration
  that was loaded successfully last, which is valid and has endpoints, so a rejected reload
  changes nothing; no shutdown signal and no end of all tasks has been passed over; a session begins
  only after the one before it has been announced, cancelled and torn down; the call fails only if the
  very first load does, and ends normally only after a shutdown signal, the end of
  all tasks or the load of a configuration without endpoints; and starting a session panics only for
  a deduplication period whose buckets cannot be reserved.
\<close>

theorem reload_safe:
  assumes "run p d ins acts st"
  shows "count_list acts (Emit Shutdown_Started) = count_list acts Cancel \<and>
    (case st of
       Starting next_config \<Rightarrow> sessions_begun acts = sessions_ended acts \<and> count_list acts Cancel = sessions_ended acts
     | Running cfg names \<Rightarrow> last_loaded p d ins = Some cfg \<and> valid_config cfg \<and> has_endpoints cfg \<and>
         Shutdown_Signal \<notin> set ins \<and> All_Tasks_Done \<notin> set ins \<and>
         sessions_begun acts = Suc (sessions_ended acts) \<and> count_list acts Cancel = sessions_ended acts
     | Stopping next_config reload names \<Rightarrow> sessions_begun acts = Suc (sessions_ended acts) \<and>
         count_list acts Cancel = Suc (sessions_ended acts)
     | Exited (Inl e) \<Rightarrow> \<exists>env. ins = [Load env] \<and> load_merged env (Some p) d = Inl e
     | Exited (Inr u) \<Rightarrow> (Shutdown_Signal \<in> set ins \<or> All_Tasks_Done \<in> set ins \<or>
           (\<exists>cfg. last_loaded p d ins = Some cfg \<and> \<not> has_endpoints cfg)) \<and>
         count_list acts Cancel = sessions_ended acts
     | Crashed \<Rightarrow> \<exists>cfg. last_loaded p d ins = Some cfg \<and> \<not> wheel_fits (config_period (general cfg)))"
proof -
  have "run_ok p d ins acts st" by (rule run_invariant [OF assms])
  then show ?thesis using shutdown_announced [OF assms]
    by (cases "(p, d, ins, acts, st)" rule: run_ok.cases) (auto simp: ends_session_def split: if_splits)
qed

text \<open>A run: start, a rejected reload, a shutdown.\<close>

definition good_env :: config_env where
  "good_env = Config.sample_env\<lparr>read_to_string := (\<lambda>_. Inr ''ok''), toml_from_str := (\<lambda>_. Inr sample_config)\<rparr>"

definition bad_env :: config_env where
  "bad_env = Config.sample_env\<lparr>read_to_string := (\<lambda>_. Inl ''gone'')\<rparr>"

lemma good_load: "load_merged good_env (Some ''router.toml'') None = Inr sample_config"
proof -
  show ?thesis using sample_config_valid by (simp add: load_merged_def load_def parse_config_def good_env_def)
qed

lemma bad_load: "load_merged bad_env (Some ''router.toml'') None = Inl (filesystem_error ''router.toml'' ''gone'')"
  by (simp add: load_merged_def load_def bad_env_def)

theorem reload_safe_witness:
  "\<exists>acts names. run ''router.toml'' None [Load good_env, Hup bad_env] acts (Running sample_config names) \<and>
    last_loaded ''router.toml'' None [Load good_env, Hup bad_env] = Some sample_config \<and>
    sessions_begun acts = Suc (sessions_ended acts)"
proof -
  have h: "has_endpoints sample_config" by (simp add: has_endpoints_def sample_config_def)
  have "valid_config sample_config" using sample_config_valid validate_valid by blast
  then obtain acts names where "enter_session sample_config = (acts, Running sample_config names)"
    using h by (simp add: enter_session_def spawn_all_valid sample_wheel_fits)
  then have "run_step ''router.toml'' None (Starting None) (Load good_env) acts (Running sample_config names)"
    by (rule run_step.load_ok [OF good_load])
  then have "run ''router.toml'' None ([] @ [Load good_env]) ([] @ acts) (Running sample_config names)"
    by (rule run.run_snoc [OF run.run_start])
  from run.run_snoc [OF this run_step.reload_err [OF bad_load]]
  have r: "run ''router.toml'' None [Load good_env, Hup bad_env]
      (acts @ [Emit Reload_Attempted, Emit (Reload_Skipped (show_router_error (filesystem_error ''router.toml'' ''gone'')))])
      (Running sample_config names)" by simp
  from reload_safe [OF r] have "last_loaded ''router.toml'' None [Load good_env, Hup bad_env] = Some sample_config"
    "sessions_begun (acts @ [Emit Reload_Attempted, Emit (Reload_Skipped (show_router_error (filesystem_error ''router.toml'' ''gone'')))]) =
      Suc (sessions_ended (acts @ [Emit Reload_Attempted, Emit (Reload_Skipped (show_router_error (filesystem_error ''router.toml'' ''gone'')))]))"
    by simp_all
  with r show ?thesis by blast
qed

end
