(* ===== verification/Command_Line.thy ===== *)
theory Command_Line
  imports Run_Loop
begin

text \<open>
  The program (\<open>src/main.rs\<close>) and the signals it waits for (\<open>src/run_loop.rs\<close>). The argument
  parser is generated by the \<open>clap\<close> crate from the attributes of \<open>Args\<close>: an option given on the
  command line wins over its environment variable, which wins over the default. Registering a signal
  handler is an outcome of the environment.
\<close>

section \<open>Arguments\<close>

record args =
  arg_config :: string
  arg_config_dir :: "string option"

text \<open>The values of the two options and of the environment variables.\<close>

record cli =
  opt_config :: "string option"
  env_conf_file :: "string option"
  opt_config_dir :: "string option"
  env_conf_dir :: "string option"

definition or_else :: "'a option \<Rightarrow> 'a option \<Rightarrow> 'a option" where
  "or_else a b = (case a of Some x \<Rightarrow> Some x | None \<Rightarrow> b)"

definition args_parse :: "cli \<Rightarrow> args" where
  "args_parse c =
     \<lparr>arg_config = (case or_else (opt_config c) (env_conf_file c) of Some path \<Rightarrow> path | None \<Rightarrow> ''mavrouter.toml''),
      arg_config_dir = or_else (opt_config_dir c) (env_conf_dir c)\<rparr>"

section \<open>Signals\<close>

definition reload_signal_new :: "io_error option \<Rightarrow> router_error + unit" where
  "reload_signal_new registration = (case registration of Some e \<Rightarrow> Inl (network_error ''SIGHUP handler'' e) | None \<Rightarrow> Inr ())"

definition shutdown_signal_new :: "io_error option \<Rightarrow> router_error + unit" where
  "shutdown_signal_new registration = (case registration of Some e \<Rightarrow> Inl (network_error ''SIGTERM handler'' e) | None \<Rightarrow> Inr ())"

text \<open>What the wait for a shutdown ends with: the SIGTERM stream, or a Ctrl-C, whose handler is registered by that wait.\<close>

datatype shutdown_wake = Sigterm "unit option" | Ctrl_C "io_error + unit"

definition shutdown_recv :: "shutdown_wake \<Rightarrow> unit option" where
  "shutdown_recv wake = (case wake of
      Sigterm v \<Rightarrow> v
    | Ctrl_C r \<Rightarrow> (case r of Inr u \<Rightarrow> Some () | Inl e \<Rightarrow> None))"

text \<open>The loop matches the result of a wait with \<open>_\<close>: whatever the source yields is the signal.\<close>

definition shutdown_input :: "unit option \<Rightarrow> run_input" where
  "shutdown_input received = Shutdown_Signal"

section \<open>The program\<close>

text \<open>With what the reload loop is called, when both handlers are registered.\<close>

definition main_start :: "cli \<Rightarrow> io_error option \<Rightarrow> io_error option \<Rightarrow> router_error + (string \<times> string option)" where
  "main_start c hup sigterm =
     (let args = args_parse c in
      case reload_signal_new hup of
        Inl e \<Rightarrow> Inl e
      | Inr sig_hup \<Rightarrow>
          (case shutdown_signal_new sigterm of
             Inl e \<Rightarrow> Inl e
           | Inr shutdown \<Rightarrow> Inr (arg_config args, arg_config_dir args)))"

text \<open>The runs of the program: it ends at once when a handler cannot be registered.\<close>

inductive program :: "cli \<Rightarrow> io_error option \<Rightarrow> io_error option \<Rightarrow> run_input list \<Rightarrow> run_action list \<Rightarrow> run_state \<Rightarrow> bool"
  for c :: cli and hup :: "io_error option" and sigterm :: "io_error option" where
  no_handler: "main_start c hup sigterm = Inl e \<Longrightarrow> program c hup sigterm [] [] (Exited (Inl e))"
| running: "main_start c hup sigterm = Inr (config_path, config_dir) \<Longrightarrow> run config_path config_dir ins acts st \<Longrightarrow>
    program c hup sigterm ins acts st"

inductive_cases programE: "program c hup sigterm ins acts st"

lemma main_start_exact:
  "main_start c None None = Inr (arg_config (args_parse c), arg_config_dir (args_parse c))"
  "main_start c (Some e) sigterm = Inl (network_error ''SIGHUP handler'' e)"
  "main_start c None (Some e) = Inl (network_error ''SIGTERM handler'' e)"
  by (simp_all add: main_start_def reload_signal_new_def shutdown_signal_new_def Let_def)

text \<open>
  The program fails only if a handler cannot be registered or the first load of the configuration
  fails; nothing has been started then.
\<close>

lemma program_fails:
  assumes "program c hup sigterm ins acts (Exited (Inl e))"
  shows "acts = [] \<and> (hup \<noteq> None \<or> sigterm \<noteq> None \<or>
    (\<exists>env. ins = [Load env] \<and> load_merged env (Some (arg_config (args_parse c))) (arg_config_dir (args_parse c)) = Inl e))"
  using assms
proof cases
  case no_handler
  then show ?thesis by (cases hup; cases sigterm) (auto simp: main_start_exact)
next
  case (running config_path config_dir)
  from run_invariant [OF running(2)] running(1) show ?thesis
    by (cases hup; cases sigterm) (auto simp: main_start_exact)
qed

text \<open>A Ctrl-C handler that cannot be registered shuts the router down: the wait ends with \<open>None\<close>, which counts as the signal.\<close>

lemma failed_ctrl_c_stops:
  "run_step p d (Running cfg names) (shutdown_input (shutdown_recv (Ctrl_C (Inl e)))) [Emit Shutdown_Started, Cancel] (Stopping None False names)"
  by (simp add: shutdown_input_def shutdown_recv_def run_step_Running)

end
