(* ===== verification/Router_Handle.thy ===== *)
theory Router_Handle
  imports Orchestration
begin

text \<open>
  The handle of the library (\<open>src/high_level.rs\<close>): starting a router from a configuration, a string
  or a file, and stopping it. A started router is what the start-up returned with the state of its
  cancellation token.
\<close>

record router =
  router_parts :: orchestrated
  router_cancelled :: bool

definition start :: "config \<Rightarrow> (router_error + router) outcome" where
  "start cfg =
     (if \<not> has_endpoints cfg then Returns (Inl (config_error ''No endpoints configured''))
      else case spawn_all cfg of
          Panics \<Rightarrow> Panics
        | Returns orch \<Rightarrow> Returns (Inr \<lparr>router_parts = orch, router_cancelled = False\<rparr>))"

definition from_str :: "config_env \<Rightarrow> string \<Rightarrow> (router_error + router) outcome" where
  "from_str env toml = (case parse_config env toml of Inl e \<Rightarrow> Returns (Inl e) | Inr cfg \<Rightarrow> start cfg)"

definition from_file :: "config_env \<Rightarrow> string \<Rightarrow> (router_error + router) outcome" where
  "from_file env path = (case load env path of Inl e \<Rightarrow> Returns (Inl e) | Inr cfg \<Rightarrow> start cfg)"

text \<open>Stopping, given when each task exits: the token is cancelled, and what is left after 5 s is aborted.\<close>

definition stop :: "running_task list \<Rightarrow> router \<Rightarrow> router \<times> bool \<times> running_task list" where
  "stop ts r = (r\<lparr>router_cancelled := True\<rparr>, shutdown_with_timeout ts (from_secs 5))"

definition is_running :: "router \<Rightarrow> bool" where
  "is_running r \<longleftrightarrow> \<not> router_cancelled r"

lemma start_valid:
  assumes "valid_config cfg"
  shows "start cfg = (if \<not> has_endpoints cfg then Returns (Inl (config_error ''No endpoints configured''))
    else if wheel_fits (config_period (general cfg)) then Returns (Inr \<lparr>router_parts = started cfg, router_cancelled = False\<rparr>)
    else Panics)"
  by (simp add: start_def spawn_all_valid [OF assms])

lemma parse_config_valid: "parse_config env toml = Inr cfg \<Longrightarrow> valid_config cfg"
  by (auto simp: parse_config_def validate_valid [symmetric] split: sum.splits)

text \<open>
  Starting from text panics only for an oversized deduplication period, and a router it returns is
  running, with tasks that do not panic at once.
\<close>

lemma from_str_panics:
  assumes "from_str env toml = Panics"
  shows "\<exists>cfg. parse_config env toml = Inr cfg \<and> \<not> wheel_fits (config_period (general cfg))"
proof (cases "parse_config env toml")
  case (Inr cfg)
  from start_valid [OF parse_config_valid [OF Inr]] Inr assms show ?thesis by (simp add: from_str_def split: if_splits)
qed (use assms in \<open>simp add: from_str_def\<close>)

lemma from_str_running:
  assumes "from_str env toml = Returns (Inr r)"
  shows "is_running r \<and> (\<forall>t \<in> set (tasks (router_parts r)). \<not> task_panics (task_kind t))"
proof -
  from assms obtain cfg where c: "parse_config env toml = Inr cfg" "start cfg = Returns (Inr r)"
    by (auto simp: from_str_def split: sum.splits)
  from parse_config_valid [OF c(1)] have v: "valid_config cfg" .
  from start_valid [OF v] c(2) have "r = \<lparr>router_parts = started cfg, router_cancelled = False\<rparr>" by (simp split: if_splits)
  with started_tasks_run [OF v] show ?thesis by (simp add: is_running_def)
qed

lemma stop_exact: "stop ts r = (r', in_time, aborted) \<Longrightarrow>
    \<not> is_running r' \<and> in_time = (aborted = []) \<and> set aborted = {t \<in> set ts. \<not> finished_by (from_secs 5) t}"
  by (auto simp: stop_def is_running_def shutdown_exact list_all_iff filter_empty_conv)

text \<open>A configuration that was not validated is not caught: starting it panics.\<close>

lemma start_unvalidated_panics:
  "has_endpoints cfg \<Longrightarrow> bus_capacity (general cfg) = 0 \<Longrightarrow> start cfg = Panics"
  by (simp add: start_def spawn_all_started create_bus_def)

end
