(* ===== verification/Spec2Isabelle.thy ===== *)
theory Spec2Isabelle
  imports Identities Tlog Command_Line Router_Handle
begin

text \<open>
  mavrouter-rs, a router for MAVLink: it reads frames from serial, TCP and UDP endpoints, drops
  duplicates, learns from the traffic on which endpoints each system and component can be reached,
  and writes every message out of the endpoints that lead to its target. The theories model the
  Rust code under \<open>src/src/\<close>, one theory per part, in the order in which a message passes them.

  \<^bold>\<open>The parts and their theories\<close>

  \<^item> \<open>Prelude\<close>: integer types, time in nanoseconds, saturating and wrapping \<open>usize\<close>
    arithmetic, panics as values (\<open>outcome\<close>), decimal printing. \<open>Hash_Tables\<close>: hash maps as association lists
    with distinct keys, hash sets as distinct lists, and the locale \<open>ttl_table\<close> of a table whose
    entries age. \<open>Net_Addr\<close>: socket addresses and their parser, of IPv4 and IPv6. \<open>Errors\<close>: \<open>error.rs\<close>.
  \<^item> \<open>Messages\<close>: \<open>router.rs\<close>, \<open>mavlink_utils.rs\<close>. \<open>Msg_Filter\<close>: \<open>filter.rs\<close>.
    \<open>Framing\<close>: the stream parser of \<open>framing.rs\<close>. \<open>Dedup\<close>: the time wheel and the sharded
    deduplicator of \<open>dedup.rs\<close>, both instances of the locale \<open>dedup_filter\<close>.
  \<^item> \<open>Routing_Shard\<close>, \<open>Routing_Table\<close>, \<open>Routing\<close>: \<open>routing/\<close>. The first has one shard with its
    counters and capacity checks, the second the sharded table and the flat table it is meant to
    be, the third the promises to its clients (locale \<open>route_store\<close>) over any history of events.
  \<^item> \<open>Endpoint\<close>: the core of all transports (\<open>endpoint_core.rs\<close>, \<open>stats.rs\<close>, \<open>spawn_context.rs\<close>):
    accept, check for a duplicate, observe the route, publish; and the egress check. \<open>Hub\<close>: the
    state that all tasks share, under any interleaving of frames from any endpoints with the dedup
    rotator, the routing updater (\<open>orchestration/updater.rs\<close>) and the counters of the send loops.
    \<open>Hub_Spec\<close>: the abstract router that this state implements (a map of hashes to ages, two maps of
    routes, the queue, the bus and the counters), the simulation, the well-formedness of every reachable state,
    and the way from a system's first frame to an answer for it. \<open>Updater\<close>: the updater task with its biased
    \<open>select\<close>, and the rotator task, between the steps of the others.
  \<^item> \<open>Stream_Loop\<close>: the reader and writer of TCP and serial endpoints (\<open>stream_loop.rs\<close>). \<open>Udp\<close>,
    \<open>Tcp\<close>, \<open>Serial\<close>, \<open>Tlog\<close>: the transports and the telemetry log of \<open>endpoints/\<close>.
    \<open>Stream_Steps\<close>: the writer loop one poll at a time, proved to be the loop.
    \<open>End_To_End\<close>: a stream endpoint to another, and what the broadcast channel may drop in between.
    \<open>System\<close>: the running router, all of these interleaved, over the state that the start-up created. Its
    endpoints are the tasks of the start-up and the clients that TCP servers accept; the counter of client ids
    is the process's, so a start finds it where earlier routers left it (\<open>system_start taken\<close>).
    \<open>Delivery\<close>: what its sockets and writers are given, for what the receivers of the bus were handed (\<open>turn\<close>:
    a message with the state that the endpoint found). \<open>Identities\<close>: its endpoint ids.
  \<^item> \<open>Backoff\<close>, \<open>Supervisor\<close>: restarts (\<open>backoff.rs\<close>, \<open>supervisor.rs\<close>), over the locale
    \<open>retry_delays\<close> that the TCP client shares.
  \<^item> \<open>Config\<close>: the configuration, its validation, merging and loading (\<open>config.rs\<close>, \<open>config/\<close>).
    \<open>Orchestration\<close>: what is started from it and how it is stopped (\<open>orchestration.rs\<close>, \<open>shutdown.rs\<close>). \<open>Stats\<close>:
    history, reporter and query server with their loops. \<open>Run_Loop\<close>: reloading (\<open>run_loop.rs\<close>). \<open>Router_Handle\<close>:
    \<open>high_level.rs\<close>. \<open>Command_Line\<close>: \<open>main.rs\<close>, its arguments and the signal handlers.

  \<^bold>\<open>How code and model correspond\<close>

  A function of the model has the name of the function of the code, a record that of the struct; a
  loop whose body is long is split into definitions for its parts, composed as in the code. Code
  outside the repository is a parameter or an outcome in a script: the two frame
  readers of the \<open>mavlink\<close> crate and \<open>memchr2\<close> (\<open>mavlink_lib\<close>, with \<open>lib_ok\<close> and
  \<open>reader_sequential\<close> as the hypotheses on them, satisfied by \<open>sample_lib\<close>), the hash function, the TOML
  deserialiser and the file system (\<open>config_env\<close>), the lookup of host names and sockets. The operations under one lock are one step; an
  \<open>ArcSwap\<close> snapshot is the current value; channels are lists; clock readings are
  inputs, and duration subtraction stops at 0 as in the code. Bytes and message fields are words of their width,
  the atomic counters 64-bit words that wrap; \<open>usize\<close> counts are naturals, with saturation and
  wrap-around written out where the code has them. A panic is the value \<open>Panics\<close>, an error the left of a sum,
  and a loop that is still waiting when its script ends says so.

  \<^bold>\<open>What is shown\<close>

  \<^item> Byte level: the parser loses nothing that could be a frame, its loop ends, its buffer is bounded,
    and neither it nor the reader depends on how the stream is cut into reads.
  \<^item> Deduplication: the sharded deduplicator answers as a single time wheel, whose window is exact in
    rotations and bounded in time; across all endpoints a frame is suppressed exactly when an equal
    one was let through within the window.
  \<^item> Routing: the sharded table refines two plain maps; the counters are exact; the capacity limits
    are never reached; routes come from accepted traffic only, stay usable for their time to live
    and are forgotten afterwards; the egress decision is the stated policy.
  \<^item> The whole router, from its configuration on: after any interleaving its state is what the abstract router would hold, with deduplication
    on or off, and every egress decision is the abstract one. The updater's delay cannot be observed through the
    table with its queue applied, because a prune never overtakes an update; once the senders are gone the queue is
    drained in as many polls as it has batches of 256 (17 polls for a full queue of 4096), and the
    task ends. A system that was heard can be answered, whatever is interleaved.
  \<^item> Transports: the books of every writer agree with what the socket took, batching loses nothing,
    UDP destinations, TCP client limits, retry schedules, and the log round-trips.
    From socket to socket, a frame leaves byte for byte as it came, and a message that the bus drops
    for a slow endpoint is counted: the contract of the broadcast channel is the check \<open>reads\<close> of a script
    against the log of the bus. In the whole router every message since the subscription is handed over in order or
    counted as lagged; what a socket or a writer is given is exactly what the messages that pass the check call
    for, and they are frames that another endpoint accepted. An id names one endpoint, so the source of a message
    does too. The log is read back by the wire format of the frames, of both versions.
  \<^item> Life cycle: validation accepts exactly the well-formed configurations, every loaded one is valid,
    starting a valid one does not panic (but for an oversized deduplication period), and the reload loop only ever runs the
    last good one; an error of loading names what caused it. Termination of the loops is by the functions being total; no fuel is used anywhere:
    \<open>drain\<close> is a partial function proved to return, \<open>parse_next\<close> and \<open>writer_loop\<close>
    shrink their buffer and their script.
  \<^item> Where the code falls short: data that a bus closed inside a batch leaves unflushed, the group
    of a TCP server that does not reach its clients, remote ports compared as local ones, a configuration
    directory that resets the settings of the file, a
    retention and a deduplication period that validation does not bound and that can
    panic, and an unvalidated configuration that does.

  \<^bold>\<open>Not modelled\<close>

  \<open>lib.rs\<close> (re-exports), logging, the signal handlers of systems other than unix, the deserialisation
  that serde derives, the decoding of MAVLink payloads beyond the target fields,
  and the scheduler: the order of steps is arbitrary, so nothing is said about
  how soon a step is taken. Averages are rationals and the backoff product is exact, where the code has
  floats. Running out of memory is not modelled, only sizes that no allocator accepts.
\<close>

end
